(* ===== verification/FDV_Prelude.thy ===== *)
theory FDV_Prelude
  imports Main "HOL-Library.Word"
begin

text \<open>
  Shared vocabulary of the development: the machine types of the C++ sources, the list forms of
  \<^verbatim>\<open>std::copy_n\<close> and \<^verbatim>\<open>memcpy\<close>, C's truncating division, and the arithmetic of ring indices.
  The components import this theory; nothing in it is specific to one of them.
\<close>

unbundle bit_operations_syntax

named_theorems fifo_simps \<open>rewriting the packed positions and the sizes of a FIFO\<close>
named_theorems byte_simps \<open>lengths and contents of encoded byte strings\<close>
named_theorems step_simps \<open>sample rates and sample counts of pipeline steps\<close>

type_synonym u8 = "8 word"
type_synonym u32 = "32 word"
type_synonym u64 = "64 word"

subsection \<open>Definitions\<close>

text \<open>
  \<^verbatim>\<open>std::copy_n(src, n, &dst[i])\<close> on a destination \<open>xs\<close>. When the copied block does not fit, the
  result is longer than \<open>xs\<close>: a proof that the length of a buffer is unchanged is a proof that the
  copy stayed inside it.
\<close>

definition splice_at :: "nat \<Rightarrow> 'a list \<Rightarrow> 'a list \<Rightarrow> 'a list" where
  "splice_at i ys xs = take i xs @ ys @ drop (i + length ys) xs"

text \<open>The \<open>k\<close> elements of a ring buffer \<open>b\<close> of size \<open>n\<close> that start at index \<open>i\<close>.\<close>

definition ring :: "nat \<Rightarrow> 'a list \<Rightarrow> nat \<Rightarrow> nat \<Rightarrow> 'a list" where
  "ring n b i k = map (\<lambda>j. b ! ((i + j) mod n)) [0..<k]"

text \<open>C's \<open>/\<close> and \<open>%\<close> on signed integers: the quotient is truncated towards zero.\<close>

definition c_div :: "int \<Rightarrow> int \<Rightarrow> int" where
  "c_div a b = sgn a * sgn b * (\<bar>a\<bar> div \<bar>b\<bar>)"

definition c_mod :: "int \<Rightarrow> int \<Rightarrow> int" where
  "c_mod a b = a - c_div a b * b"

subsection \<open>Copying into a buffer\<close>

lemma length_splice_at [simp]:
  "i + length ys \<le> length xs \<Longrightarrow> length (splice_at i ys xs) = length xs"
  by (simp add: splice_at_def)

lemma splice_at_Nil [simp]: "splice_at i [] xs = xs"
  by (simp add: splice_at_def)

lemma nth_splice_at:
  assumes "i + length ys \<le> length xs" and "j < length xs"
  shows "splice_at i ys xs ! j =
    (if i \<le> j \<and> j < i + length ys then ys ! (j - i) else xs ! j)"
  using assms by (auto simp: splice_at_def nth_append min_def)

text \<open>A loop that writes every index of a buffer leaves nothing of its old contents.\<close>

lemma foldl_overwrite:
  "length m = n \<Longrightarrow> foldl (\<lambda>m e. m[e := g e]) m [0..<n] = map g [0..<n]"
proof -
  have "k \<le> length m \<Longrightarrow> foldl (\<lambda>m e. m[e := g e]) m [0..<k] = map g [0..<k] @ drop k m" for k
  proof (induction k)
    case (Suc k)
    then show ?case by (simp add: list_update_append Cons_nth_drop_Suc [symmetric])
  qed simp
  then show "length m = n \<Longrightarrow> ?thesis" by simp
qed

subsection \<open>Ring indices\<close>

lemma add_mod_ring:
  fixes i j n :: nat
  assumes "i < n" and "j < n"
  shows "(i + j) mod n = (if i + j < n then i + j else i + j - n)"
  using assms by (simp add: mod_if)

lemma length_ring [simp]: "length (ring n b i k) = k"
  by (simp add: ring_def)

lemma nth_ring: "j < k \<Longrightarrow> ring n b i k ! j = b ! ((i + j) mod n)"
  by (simp add: ring_def)

lemma ring_0 [simp]: "ring n b i 0 = []"
  by (simp add: ring_def)

lemma ring_mod: "ring n b (i mod n) k = ring n b i k"
  by (simp add: ring_def mod_add_left_eq)

lemma ring_add: "ring n b i (k + m) = ring n b i k @ ring n b (i + k) m"
  by (rule nth_equalityI) (auto simp: nth_ring nth_append add.assoc)

lemma ring_cong:
  "(\<And>j. j < k \<Longrightarrow> b ! ((i + j) mod n) = b' ! ((i' + j) mod n)) \<Longrightarrow> ring n b i k = ring n b' i' k"
  by (simp add: ring_def)

lemma take_ring: "m \<le> k \<Longrightarrow> take m (ring n b i k) = ring n b i m"
  by (simp add: ring_def take_map)

lemma drop_ring: "m \<le> k \<Longrightarrow> drop m (ring n b i k) = ring n b (i + m) (k - m)"
  by (rule nth_equalityI) (auto simp: nth_ring add.assoc)

text \<open>Reading a block of a ring is at most two contiguous copies.\<close>

lemma ring_two_parts:
  assumes "length b = n" and "i < n" and "k \<le> n"
  shows "take (min k (n - i)) (drop i b) @ take (k - min k (n - i)) b = ring n b i k"
proof (cases "k \<le> n - i")
  case True
  then show ?thesis using assms by (intro nth_equalityI) (simp_all add: nth_ring)
next
  case False
  then have "min k (n - i) = n - i" by simp
  then show ?thesis using assms False
    by (intro nth_equalityI) (auto simp: nth_ring nth_append add_mod_ring add.commute)
qed

text \<open>Writing a block into a ring is at most two contiguous copies.\<close>

lemma ring_write_two_parts:
  assumes "length b = n" and "i < n" and "length ys \<le> n" and "m = min (length ys) (n - i)"
    and "b' = splice_at 0 (drop m ys) (splice_at i (take m ys) b)"
  shows "length b' = n"
    and "j < n \<Longrightarrow> b' ! ((i + j) mod n) = (if j < length ys then ys ! j else b ! ((i + j) mod n))"
proof -
  have fit1: "i + length (take m ys) \<le> length b" and fit2: "0 + length (drop m ys) \<le> length b"
    using assms by auto
  then show len: "length b' = n" using assms by simp
  assume j: "j < n"
  have b': "b' ! q = (if q < length (drop m ys) then drop m ys ! q
      else if i \<le> q \<and> q < i + length (take m ys) then take m ys ! (q - i) else b ! q)"
    if "q < n" for q
    using that fit1 fit2 assms by (simp add: nth_splice_at)
  have "(i + j) mod n < n" using assms(2) by simp
  note this [THEN b']
  then show "b' ! ((i + j) mod n) = (if j < length ys then ys ! j else b ! ((i + j) mod n))"
    using assms j by (auto simp: add_mod_ring min_def split: if_splits)
qed

subsection \<open>Small values of 32-bit words\<close>

lemma sint_small: "unat (w :: u32) < 2 ^ 31 \<Longrightarrow> sint w = int (unat w)"
proof -
  assume "unat w < 2 ^ 31"
  then have "int (unat w) < int (2 ^ 31)" by (simp only: of_nat_less_iff)
  then have "uint w < 2 ^ 31" by simp
  then have "signed_take_bit 31 (uint w) = uint w"
    by (intro signed_take_bit_int_eq_self) (simp_all add: order_trans [of _ 0])
  then show "sint w = int (unat w)" by (simp add: sint_uint)
qed

lemma unat_of_nat_small: "k < 2 ^ 32 \<Longrightarrow> unat (word_of_nat k :: u32) = k"
  by (simp add: unat_of_nat)

lemma sint_of_nat_small: "k < 2 ^ 31 \<Longrightarrow> sint (word_of_nat k :: u32) = int k"
  by (simp add: sint_small unat_of_nat_small)

lemma unat_of_int_small: "0 \<le> k \<Longrightarrow> k < 2 ^ 32 \<Longrightarrow> unat (word_of_int k :: u32) = nat k"
  by (simp add: unsigned_of_int take_bit_int_eq_self)

lemma unat_max32: "unat (-1 :: u32) = 2 ^ 32 - 1"
  by (simp add: unsigned_minus_1_eq_mask mask_eq_exp_minus_1)

subsection \<open>Truncating division\<close>

lemma c_div_mod: "c_div a b * b + c_mod a b = a"
  by (simp add: c_mod_def)

lemma c_div_nonneg [simp]: "0 \<le> a \<Longrightarrow> 0 < b \<Longrightarrow> c_div a b = a div b"
  by (cases "a = 0") (simp_all add: c_div_def)

lemma c_mod_nonneg [simp]: "0 \<le> a \<Longrightarrow> 0 < b \<Longrightarrow> c_mod a b = a mod b"
  by (simp add: c_mod_def minus_div_mult_eq_mod)

text \<open>Widening a signed integer keeps its value.\<close>

lemma sint_widen: "LENGTH('a) \<le> LENGTH('b) \<Longrightarrow> sint (scast (v :: 'a::len word) :: 'b::len word) = sint v"
  by (rule bit_eqI) (auto simp: bit_simps min_def)

end
