(* ===== verification/Generic_FIFO.thy ===== *)
theory Generic_FIFO
  imports FDV_Prelude
begin

text \<open>
  The single-producer single-consumer ring buffer of \<^verbatim>\<open>src/src/util/GenericFIFO.h\<close>, on which every
  other audio component is built. A cursor packs a 32-bit generation and a 32-bit ring index into one
  64-bit word; \<open>reset\<close> starts a new generation. This theory has the operations run to completion
  (one caller at a time): the invariant they keep, and that they implement a bounded queue.
  \<open>FIFO_Concurrency\<close> interleaves them.
\<close>

subsection \<open>State and operations\<close>

type_synonym pos = u64

definition makePos :: "u32 \<Rightarrow> u32 \<Rightarrow> pos" where
  "makePos generation index = push_bit 32 (ucast generation) OR ucast index"

definition indexOf :: "pos \<Rightarrow> u32" where
  "indexOf p = ucast (p AND 0xFFFFFFFF)"

definition generationOf :: "pos \<Rightarrow> u32" where
  "generationOf p = ucast (drop_bit 32 p)"

text \<open>
  The fields of the class. A buffer that was moved away (\<^verbatim>\<open>nullptr\<close>) is the empty list; C's \<^verbatim>\<open>int\<close>
  is \<open>int\<close>, the atomics hold their current value.
\<close>

record 'a fifo =
  buf :: "'a list"
  pin :: pos
  poutCache :: pos
  pout :: pos
  pinCache :: pos
  nelem :: int
  ownBuffer :: bool
  resetting :: bool

text \<open>\<open>computeUsed\<close> returns false (here \<open>None\<close>) for positions of different generations.\<close>

definition computeUsed :: "int \<Rightarrow> pos \<Rightarrow> pos \<Rightarrow> u32 option" where
  "computeUsed n pinVal poutVal =
     (if generationOf pinVal \<noteq> generationOf poutVal then None
      else
        let inn = sint (indexOf pinVal);
            out = sint (indexOf poutVal);
            diff = inn - out
        in Some (word_of_int (if diff < 0 then diff + n else diff)))"

text \<open>
  The constructor. \<open>inBuf = None\<close> is \<^verbatim>\<open>nullptr\<close>: the FIFO allocates its own buffer, whose initial
  contents are the argument \<open>fresh\<close> (indeterminate in C++).
\<close>

definition fifo_new :: "int \<Rightarrow> 'a list option \<Rightarrow> (int \<Rightarrow> 'a list) \<Rightarrow> 'a fifo" where
  "fifo_new len inBuf fresh =
     \<lparr>buf = (case inBuf of Some b \<Rightarrow> b | None \<Rightarrow> fresh len),
      pin = makePos 0 0, poutCache = makePos 0 0, pout = makePos 0 0, pinCache = makePos 0 0,
      nelem = len, ownBuffer = (inBuf = None), resetting = False\<rparr>"

text \<open>The move constructor: the new FIFO and what is left of the source.\<close>

definition fifo_move :: "'a fifo \<Rightarrow> 'a fifo \<times> 'a fifo" where
  "fifo_move rhs =
     (rhs\<lparr>resetting := False\<rparr>,
      rhs\<lparr>buf := [], pin := makePos 0 0, poutCache := makePos 0 0, pout := makePos 0 0,
          pinCache := makePos 0 0, nelem := 0\<rparr>)"

definition fifo_reset :: "'a fifo \<Rightarrow> 'a fifo" where
  "fifo_reset f =
     (let oldPin = pin f;
          freshPos = makePos (generationOf oldPin + 1) 0
      in f\<lparr>pin := freshPos, pout := freshPos, resetting := False\<rparr>)"

text \<open>\<open>lacksRoom\<close> and \<open>lacksData\<close> are the two conditions \<open>canWrite\<close> and \<open>canRead\<close> test twice.\<close>

definition lacksRoom :: "int \<Rightarrow> u32 option \<Rightarrow> int \<Rightarrow> bool" where
  "lacksRoom n used len = (case used of None \<Rightarrow> True | Some u \<Rightarrow> n - sint u - 1 < len)"

definition lacksData :: "u32 option \<Rightarrow> int \<Rightarrow> bool" where
  "lacksData used len = (case used of None \<Rightarrow> True | Some u \<Rightarrow> u < word_of_int len)"

definition canWrite :: "'a fifo \<Rightarrow> int \<Rightarrow> pos option \<times> 'a fifo" where
  "canWrite f len =
     (if resetting f then (None, f)
      else
        let ppin = pin f in
        if lacksRoom (nelem f) (computeUsed (nelem f) ppin (poutCache f)) len
        then
          let f' = f\<lparr>poutCache := pout f\<rparr> in
          if lacksRoom (nelem f') (computeUsed (nelem f') ppin (poutCache f')) len
          then (None, f') else (Some ppin, f')
        else (Some ppin, f))"

definition canRead :: "'a fifo \<Rightarrow> int \<Rightarrow> pos option \<times> 'a fifo" where
  "canRead f len =
     (if resetting f then (None, f)
      else
        let ppout = pout f in
        if lacksData (computeUsed (nelem f) (pinCache f) ppout) len
        then
          let f' = f\<lparr>pinCache := pin f\<rparr> in
          if lacksData (computeUsed (nelem f') (pinCache f') ppout) len
          then (None, f') else (Some ppout, f')
        else (Some ppout, f))"

text \<open>
  The copy loop of \<open>write\<close> from \<open>idx\<close>: the buffer afterwards and the index to commit. \<open>blockLen\<close>
  is \<^verbatim>\<open>std::min((std::uint32_t)len, nelem - idx)\<close> converted back to \<^verbatim>\<open>int\<close>.
\<close>

definition blockLen :: "int \<Rightarrow> u32 \<Rightarrow> int \<Rightarrow> int" where
  "blockLen n idx len = sint (min (word_of_int len) (word_of_int n - idx))"

definition writeBlock :: "int \<Rightarrow> u32 \<Rightarrow> 'a list \<Rightarrow> int \<Rightarrow> 'a list \<Rightarrow> 'a list \<times> u32" where
  "writeBlock n idx dat len b =
     (let numToCopy = blockLen n idx len;
          b1 = splice_at (unat idx) (take (nat numToCopy) dat) b;
          len1 = len - numToCopy;
          idx1 = idx + word_of_int numToCopy;
          dat1 = drop (nat numToCopy) dat
      in if idx1 \<ge> word_of_int n
         then (splice_at 0 (take (nat len1) dat1) b1, word_of_int len1)
         else (b1, idx1))"

definition readBlock :: "int \<Rightarrow> u32 \<Rightarrow> int \<Rightarrow> 'a list \<Rightarrow> 'a list \<times> u32" where
  "readBlock n idx len b =
     (let numToCopy = blockLen n idx len;
          r1 = take (nat numToCopy) (drop (unat idx) b);
          idx1 = idx + word_of_int numToCopy;
          len1 = len - numToCopy
      in if idx1 \<ge> word_of_int n
         then (r1 @ take (nat len1) b, word_of_int len1)
         else (r1, idx1))"

text \<open>
  \<open>write\<close> returns 0, or -1 when there is no room or the commit finds that \<open>pin_\<close> moved. \<open>read\<close>
  also returns what it copied into the caller's buffer.
\<close>

definition fifo_write :: "'a fifo \<Rightarrow> 'a list \<Rightarrow> int \<Rightarrow> int \<times> 'a fifo" where
  "fifo_write f dat len =
     (case canWrite f len of
        (None, f1) \<Rightarrow> (-1, f1)
      | (Some startPos, f1) \<Rightarrow>
          let gen = generationOf startPos;
              (b, idx) = writeBlock (nelem f1) (indexOf startPos) dat len (buf f1);
              f2 = f1\<lparr>buf := b\<rparr>;
              newPos = makePos gen idx
          in if pin f2 = startPos then (0, f2\<lparr>pin := newPos\<rparr>) else (-1, f2))"

definition fifo_read :: "'a fifo \<Rightarrow> int \<Rightarrow> int \<times> 'a list \<times> 'a fifo" where
  "fifo_read f len =
     (case canRead f len of
        (None, f1) \<Rightarrow> (-1, [], f1)
      | (Some startPos, f1) \<Rightarrow>
          let gen = generationOf startPos;
              (r, idx) = readBlock (nelem f1) (indexOf startPos) len (buf f1);
              newPos = makePos gen idx
          in if pout f1 = startPos then (0, r, f1\<lparr>pout := newPos\<rparr>) else (-1, r, f1))"

definition numUsed :: "'a fifo \<Rightarrow> int" where
  "numUsed f = (case computeUsed (nelem f) (pin f) (pout f) of None \<Rightarrow> 0 | Some u \<Rightarrow> sint u)"

definition numFree :: "'a fifo \<Rightarrow> int" where
  "numFree f = nelem f - numUsed f - 1"

definition capacity :: "'a fifo \<Rightarrow> int" where
  "capacity f = nelem f - 1"

text \<open>\<open>PreAllocatedFIFO\<close> is a FIFO over a member array of \<open>StaticSize\<close> elements.\<close>

definition preAllocated_new :: "int \<Rightarrow> 'a list \<Rightarrow> 'a fifo" where
  "preAllocated_new staticSize ourBuf = fifo_new staticSize (Some ourBuf) (\<lambda>_. [])"

subsection \<open>The abstract queue and the invariant\<close>

text \<open>Distance of two ring indices, and the elements a FIFO holds, oldest first.\<close>

definition ringDist :: "nat \<Rightarrow> nat \<Rightarrow> nat \<Rightarrow> nat" where
  "ringDist n i o' = (if o' \<le> i then i - o' else i + n - o')"

definition fsize :: "'a fifo \<Rightarrow> nat" where
  "fsize f = nat (nelem f)"

definition posIdx :: "pos \<Rightarrow> nat" where
  "posIdx p = unat (indexOf p)"

definition fused :: "'a fifo \<Rightarrow> nat" where
  "fused f = ringDist (fsize f) (posIdx (pin f)) (posIdx (pout f))"

definition contents :: "'a fifo \<Rightarrow> 'a list" where
  "contents f = ring (fsize f) (buf f) (posIdx (pout f)) (fused f)"

text \<open>
  The invariant between calls. The last two conjuncts are about the cached cursors: a cache of the
  current generation never promises more room, or more data, than there is; a cache of another
  generation is an older one.
\<close>

definition fifo_inv :: "'a fifo \<Rightarrow> bool" where
  "fifo_inv f \<longleftrightarrow>
     0 < nelem f \<and> nelem f < 2 ^ 31 \<and> length (buf f) = fsize f \<and> \<not> resetting f \<and>
     generationOf (pin f) = generationOf (pout f) \<and>
     posIdx (pin f) < fsize f \<and> posIdx (pout f) < fsize f \<and>
     generationOf (poutCache f) \<le> generationOf (pin f) \<and>
     generationOf (pinCache f) \<le> generationOf (pin f) \<and>
     (generationOf (poutCache f) = generationOf (pin f) \<longrightarrow>
        posIdx (poutCache f) < fsize f \<and>
        fused f \<le> ringDist (fsize f) (posIdx (pin f)) (posIdx (poutCache f))) \<and>
     (generationOf (pinCache f) = generationOf (pin f) \<longrightarrow>
        posIdx (pinCache f) < fsize f \<and>
        ringDist (fsize f) (posIdx (pinCache f)) (posIdx (pout f)) \<le> fused f)"

text \<open>
  A call of a FIFO and what the caller sees of it, and the specification of every call on a queue of
  at most \<open>cap\<close> elements.
\<close>

datatype 'a fifo_call = Write "'a list" | Read int | Reset | NumUsed | NumFree

datatype 'a fifo_answer = Status int | Samples int "'a list" | Count int | Done

fun fifo_do :: "'a fifo \<Rightarrow> 'a fifo_call \<Rightarrow> 'a fifo_answer \<times> 'a fifo" where
  "fifo_do f (Write dat) = (case fifo_write f dat (int (length dat)) of (r, f') \<Rightarrow> (Status r, f'))"
| "fifo_do f (Read len) = (case fifo_read f len of (r, xs, f') \<Rightarrow> (Samples r xs, f'))"
| "fifo_do f Reset = (Done, fifo_reset f)"
| "fifo_do f NumUsed = (Count (numUsed f), f)"
| "fifo_do f NumFree = (Count (numFree f), f)"

fun queue_do :: "int \<Rightarrow> 'a list \<Rightarrow> 'a fifo_call \<Rightarrow> 'a fifo_answer \<times> 'a list" where
  "queue_do cap xs (Write dat) =
     (if int (length xs + length dat) \<le> cap then (Status 0, xs @ dat) else (Status (-1), xs))"
| "queue_do cap xs (Read len) =
     (if len \<le> int (length xs) then (Samples 0 (take (nat len) xs), drop (nat len) xs)
      else (Samples (-1) [], xs))"
| "queue_do cap xs Reset = (Done, [])"
| "queue_do cap xs NumUsed = (Count (int (length xs)), xs)"
| "queue_do cap xs NumFree = (Count (cap - int (length xs)), xs)"

fun run_calls :: "('s \<Rightarrow> 'c \<Rightarrow> 'o \<times> 's) \<Rightarrow> 's \<Rightarrow> 'c list \<Rightarrow> 'o list \<times> 's" where
  "run_calls act s [] = ([], s)"
| "run_calls act s (c # cs) =
     (let (out, s1) = act s c; (outs, s2) = run_calls act s1 cs in (out # outs, s2))"

fun valid_call :: "'a fifo_call \<Rightarrow> bool" where
  "valid_call (Read len) = (0 \<le> len \<and> len < 2 ^ 31)"
| "valid_call _ = True"

definition resets_left :: "'a fifo \<Rightarrow> nat" where
  "resets_left f = 2 ^ 32 - 1 - unat (generationOf (pin f))"

subsection \<open>Packed positions\<close>

lemma generationOf_makePos [simp, fifo_simps]: "generationOf (makePos g i) = g"
  by (rule bit_word_eqI)
    (auto simp: generationOf_def makePos_def bit_simps dest: bit_imp_le_length)

lemma indexOf_makePos [simp, fifo_simps]: "indexOf (makePos g i) = i"
proof (rule bit_word_eqI)
  fix n assume n: "n < LENGTH(32)"
  have m: "(0xFFFFFFFF :: u64) = mask 32" by (simp add: mask_eq_exp_minus_1)
  have "bit (0xFFFFFFFF :: u64) n" using n by (simp only: m bit_mask_iff) simp
  then show "bit (indexOf (makePos g i)) n = bit i n"
    using n by (auto simp: indexOf_def makePos_def bit_simps)
qed

lemma posIdx_makePos [simp, fifo_simps]: "posIdx (makePos g i) = unat i"
  by (simp add: posIdx_def)

lemma ringDist_less: "i < n \<Longrightarrow> j < n \<Longrightarrow> ringDist n i j < n"
  by (auto simp: ringDist_def)

lemma ringDist_add_mod:
  "j < n \<Longrightarrow> k < n \<Longrightarrow> ringDist n ((j + k) mod n) j = k"
  by (auto simp: ringDist_def add_mod_ring)

lemma ringDist_inverse: "i < n \<Longrightarrow> j < n \<Longrightarrow> (j + ringDist n i j) mod n = i"
  by (auto simp: ringDist_def)

lemma ringDist_forward:
  "i < n \<Longrightarrow> j < n \<Longrightarrow> ringDist n i j + k < n \<Longrightarrow> ringDist n ((i + k) mod n) j = ringDist n i j + k"
  by (auto simp: ringDist_def add_mod_ring split: if_splits)

lemma ringDist_backward:
  assumes "p < n" and "j < n" and "k \<le> ringDist n p j"
  shows "ringDist n p ((j + k) mod n) = ringDist n p j - k"
proof -
  have "k < n" using assms ringDist_less [of p n j] by simp
  then show ?thesis using assms by (auto simp: ringDist_def add_mod_ring split: if_splits)
qed

text \<open>\<open>computeUsed\<close> is the distance of the two indices, once they belong to one generation.\<close>

lemma computeUsed_same_generation:
  assumes "generationOf p = generationOf q" and "posIdx p < m" and "posIdx q < m"
    and "m < 2 ^ 31" and "n = int m"
  shows "computeUsed n p q = Some (word_of_nat (ringDist m (posIdx p) (posIdx q)))"
proof -
  have "sint (indexOf p) = int (posIdx p)" "sint (indexOf q) = int (posIdx q)"
    using assms by (simp_all add: posIdx_def sint_small)
  then show ?thesis
    using assms by (auto simp: computeUsed_def ringDist_def Let_def of_nat_diff)
qed

lemma lacksRoom_iff:
  assumes "generationOf p = generationOf q" and "posIdx p < m" and "posIdx q < m"
    and "m < 2 ^ 31" and "n = int m"
  shows "lacksRoom n (computeUsed n p q) len \<longleftrightarrow> int m - int (ringDist m (posIdx p) (posIdx q)) - 1 < len"
  using computeUsed_same_generation [OF assms] ringDist_less [OF assms(2,3)] assms(4,5)
  by (simp add: lacksRoom_def sint_of_nat_small)

lemma lacksData_iff:
  assumes "generationOf p = generationOf q" and "posIdx p < m" and "posIdx q < m"
    and "m < 2 ^ 31" and "n = int m" and "0 \<le> len" and "len < 2 ^ 31"
  shows "lacksData (computeUsed n p q) len \<longleftrightarrow> int (ringDist m (posIdx p) (posIdx q)) < len"
proof -
  have "unat (word_of_nat (ringDist m (posIdx p) (posIdx q)) :: u32) = ringDist m (posIdx p) (posIdx q)"
    using ringDist_less [OF assms(2,3)] assms(4) by (intro unat_of_nat_small) simp
  moreover have "unat (word_of_int len :: u32) = nat len"
    using assms(6,7) by (intro unat_of_int_small) simp_all
  ultimately show ?thesis
    using computeUsed_same_generation [OF assms(1-5)] assms(6)
    by (simp add: lacksData_def word_less_nat_alt zless_nat_eq_int_zless)
qed

lemma lacks_other_generation:
  assumes "generationOf p \<noteq> generationOf q"
  shows "lacksRoom n (computeUsed n p q) len" and "lacksData (computeUsed n p q) len"
  using assms by (simp_all add: lacksRoom_def lacksData_def computeUsed_def)

subsection \<open>Copying a block\<close>

lemma blockLen_eq:
  assumes "unat idx < m" and "m < 2 ^ 31" and "n = int m" and "0 \<le> len" and "len < 2 ^ 31"
  shows "blockLen n idx len = int (min (nat len) (m - unat idx))"
proof -
  have "unat (word_of_int n - idx) = m - unat idx"
    using assms by (subst unat_sub) (simp_all add: word_le_nat_alt unat_of_nat_small)
  moreover have "unat (word_of_int len :: u32) = nat len"
    using assms by (intro unat_of_int_small) simp_all
  ultimately have "unat (min (word_of_int len) (word_of_int n - idx)) = min (nat len) (m - unat idx)"
    by (simp add: min_def word_le_nat_alt)
  then show ?thesis using assms by (simp add: blockLen_def sint_small)
qed

lemma advance_index:
  assumes "unat idx < m" and "m < 2 ^ 31" and "n = int m" and "0 \<le> len" and "len < n"
    and "k = min (nat len) (m - unat idx)"
  shows "(idx + word_of_nat k \<ge> (word_of_int n :: u32)) \<longleftrightarrow> m \<le> unat idx + nat len"
    and "unat (if m \<le> unat idx + nat len then word_of_int (len - int k)
           else idx + word_of_nat k :: u32) = (unat idx + nat len) mod m"
proof -
  have k: "unat (idx + word_of_nat k) = unat idx + k"
    using assms by (simp add: unat_word_ariths unat_of_nat_small)
  then show "(idx + word_of_nat k \<ge> (word_of_int n :: u32)) \<longleftrightarrow> m \<le> unat idx + nat len"
    using assms by (auto simp: word_le_nat_alt unat_of_nat_small)
  show "unat (if m \<le> unat idx + nat len then word_of_int (len - int k)
           else idx + word_of_nat k :: u32) = (unat idx + nat len) mod m"
  proof (cases "m \<le> unat idx + nat len")
    case True
    have "k = m - unat idx" using assms True by simp
    then have "nat (len - int k) = unat idx + nat len - m" using assms(1,4) True by arith
    moreover have "unat (word_of_int (len - int k) :: u32) = nat (len - int k)"
      using assms by (intro unat_of_int_small) auto
    ultimately have "unat (word_of_int (len - int k) :: u32) = unat idx + nat len - m" by simp
    moreover have "nat len < m" using assms(3,4,5) by simp
    ultimately show ?thesis using assms(1) True by (simp only: add_mod_ring if_True if_False) simp
  next
    case False
    then show ?thesis using assms k by (simp add: add_mod_ring)
  qed
qed

lemma writeBlock_eq:
  assumes "unat idx < m" and "m < 2 ^ 31" and "n = int m" and "0 \<le> len" and "len < n"
    and "k = min (nat len) (m - unat idx)" and "ys = take (nat len) dat" and "nat len \<le> length dat"
  shows "fst (writeBlock n idx dat len b) = splice_at 0 (drop k ys) (splice_at (unat idx) (take k ys) b)"
    and "unat (snd (writeBlock n idx dat len b)) = (unat idx + nat len) mod m"
proof -
  have bl: "blockLen n idx len = int k" using assms by (simp add: blockLen_eq)
  note adv = advance_index [OF assms(1-6)]
  have cut: "take k dat = take k ys" "take (nat (len - int k)) (drop k dat) = drop k ys"
    using assms(4,6,7) by (auto simp: take_drop nat_diff_distrib)
  show "fst (writeBlock n idx dat len b) = splice_at 0 (drop k ys) (splice_at (unat idx) (take k ys) b)"
  proof (cases "m \<le> unat idx + nat len")
    case True
    then show ?thesis using cut by (simp add: writeBlock_def Let_def bl adv(1))
  next
    case False
    then have "drop k ys = []" using assms(1,6,7) by simp
    then show ?thesis using cut False by (simp add: writeBlock_def Let_def bl adv(1))
  qed
  show "unat (snd (writeBlock n idx dat len b)) = (unat idx + nat len) mod m"
    using adv(2) by (simp add: writeBlock_def Let_def bl adv(1) split: if_splits)
qed

lemma readBlock_eq:
  assumes "unat idx < m" and "m < 2 ^ 31" and "n = int m" and "0 \<le> len" and "len < n"
    and "length b = m"
  shows "fst (readBlock n idx len b) = ring m b (unat idx) (nat len)"
    and "unat (snd (readBlock n idx len b)) = (unat idx + nat len) mod m"
proof -
  define k where "k = min (nat len) (m - unat idx)"
  have bl: "blockLen n idx len = int k" using assms by (simp add: blockLen_eq k_def)
  note adv = advance_index [OF assms(1-5) k_def]
  have "fst (readBlock n idx len b) = take k (drop (unat idx) b) @ take (nat len - k) b"
  proof (cases "m \<le> unat idx + nat len")
    case True
    have "nat (len - int k) = nat len - k" using assms(4) by (simp add: k_def nat_diff_distrib)
    then show ?thesis using True by (simp add: readBlock_def Let_def bl adv(1))
  next
    case False
    then have "nat len - k = 0" using assms(1) by (simp add: k_def)
    then show ?thesis using False by (simp add: readBlock_def Let_def bl adv(1))
  qed
  also have "\<dots> = ring m b (unat idx) (nat len)"
    using assms unfolding k_def by (intro ring_two_parts) auto
  finally show "fst (readBlock n idx len b) = ring m b (unat idx) (nat len)" .
  show "unat (snd (readBlock n idx len b)) = (unat idx + nat len) mod m"
    using adv(2) by (simp add: readBlock_def Let_def bl adv(1) split: if_splits)
qed

subsection \<open>The operations keep the invariant and act as a queue\<close>

lemma fifo_invD:
  assumes "fifo_inv f"
  shows "nelem f = int (fsize f)" and "fsize f < 2 ^ 31" and "0 < fsize f"
    and "posIdx (pin f) < fsize f" and "posIdx (pout f) < fsize f"
    and "generationOf (pin f) = generationOf (pout f)" and "length (buf f) = fsize f"
    and "\<not> resetting f" and "fused f < fsize f"
proof -
  show "fsize f < 2 ^ 31" using assms by (auto simp: fifo_inv_def fsize_def nat_less_iff)
  show "fused f < fsize f" using assms by (auto simp: fifo_inv_def fused_def intro: ringDist_less)
qed (use assms in \<open>auto simp: fifo_inv_def fsize_def\<close>)

lemma numUsed_eq: "fifo_inv f \<Longrightarrow> numUsed f = int (fused f)"
  using fifo_invD [of f] computeUsed_same_generation [of "pin f" "pout f" "fsize f" "nelem f"]
  by (simp add: numUsed_def fused_def sint_of_nat_small)

lemma length_contents [simp]: "length (contents f) = fused f"
  by (simp add: contents_def)

lemma numFree_eq: "fifo_inv f \<Longrightarrow> numFree f = int (fsize f - 1 - fused f)"
  using fifo_invD [of f] by (simp add: numFree_def numUsed_eq of_nat_diff)

lemma refresh_caches:
  assumes "fifo_inv f"
  shows "fifo_inv (f\<lparr>poutCache := pout f\<rparr>)" and "fifo_inv (f\<lparr>pinCache := pin f\<rparr>)"
    and "contents (f\<lparr>poutCache := c\<rparr>) = contents f" and "contents (f\<lparr>pinCache := c\<rparr>) = contents f"
  using assms by (auto simp: fifo_inv_def fused_def fsize_def contents_def)

lemma canWrite_cases:
  assumes "fifo_inv f"
  obtains (room) f1 where "canWrite f len = (Some (pin f), f1)" "len \<le> numFree f"
      "f1 = f \<or> f1 = f\<lparr>poutCache := pout f\<rparr>" "fifo_inv f1"
      "generationOf (poutCache f1) = generationOf (pin f)"
      "int (ringDist (fsize f) (posIdx (pin f)) (posIdx (poutCache f1))) + len < nelem f"
  | (full) f1 where "canWrite f len = (None, f1)" "numFree f < len" "f1 = f\<lparr>poutCache := pout f\<rparr>"
proof -
  note D = fifo_invD [OF assms] and eqs = numFree_def numUsed_eq [OF assms]
  have real: "lacksRoom (nelem f) (computeUsed (nelem f) (pin f) (pout f)) len \<longleftrightarrow> numFree f < len"
    using D by (subst lacksRoom_iff) (auto simp: eqs fused_def)
  show thesis
  proof (cases "lacksRoom (nelem f) (computeUsed (nelem f) (pin f) (poutCache f)) len")
    case True
    then have "canWrite f len = (if numFree f < len then None else Some (pin f), f\<lparr>poutCache := pout f\<rparr>)"
      using D real by (simp add: canWrite_def Let_def)
    then show thesis
      using D refresh_caches(1) [OF assms] room [of "f\<lparr>poutCache := pout f\<rparr>"] full
      by (auto simp: eqs fused_def split: if_splits)
  next
    case False
    then have gen: "generationOf (poutCache f) = generationOf (pin f)"
      using lacks_other_generation(1) by metis
    then have le: "posIdx (poutCache f) < fsize f"
      "fused f \<le> ringDist (fsize f) (posIdx (pin f)) (posIdx (poutCache f))"
      using assms by (auto simp: fifo_inv_def)
    have "\<not> int (fsize f) - int (ringDist (fsize f) (posIdx (pin f)) (posIdx (poutCache f))) - 1 < len"
      using False gen le D by (subst (asm) lacksRoom_iff) auto
    moreover have "canWrite f len = (Some (pin f), f)"
      using False D by (simp add: canWrite_def Let_def)
    ultimately show thesis
      using room [of f] D gen le assms by (auto simp: eqs)
  qed
qed

lemma canRead_cases:
  assumes "fifo_inv f" and "0 \<le> len" and "len < 2 ^ 31"
  obtains (data) f1 where "canRead f len = (Some (pout f), f1)" "len \<le> numUsed f"
      "f1 = f \<or> f1 = f\<lparr>pinCache := pin f\<rparr>" "fifo_inv f1"
      "generationOf (pinCache f1) = generationOf (pin f)"
      "len \<le> int (ringDist (fsize f) (posIdx (pinCache f1)) (posIdx (pout f)))"
  | (empty) f1 where "canRead f len = (None, f1)" "numUsed f < len" "f1 = f\<lparr>pinCache := pin f\<rparr>"
proof -
  note D = fifo_invD [OF assms(1)] and eqs = numUsed_eq [OF assms(1)]
  have real: "lacksData (computeUsed (nelem f) (pin f) (pout f)) len \<longleftrightarrow> numUsed f < len"
    using D assms by (subst lacksData_iff) (auto simp: eqs fused_def)
  show thesis
  proof (cases "lacksData (computeUsed (nelem f) (pinCache f) (pout f)) len")
    case True
    then have "canRead f len = (if numUsed f < len then None else Some (pout f), f\<lparr>pinCache := pin f\<rparr>)"
      using D real by (simp add: canRead_def Let_def)
    then show thesis
      using D refresh_caches(2) [OF assms(1)] data [of "f\<lparr>pinCache := pin f\<rparr>"] empty
      by (auto simp: eqs fused_def split: if_splits)
  next
    case False
    then have gen: "generationOf (pinCache f) = generationOf (pin f)"
      using lacks_other_generation(2) D(6) by metis
    then have le: "posIdx (pinCache f) < fsize f"
      "ringDist (fsize f) (posIdx (pinCache f)) (posIdx (pout f)) \<le> fused f"
      using assms by (auto simp: fifo_inv_def)
    have "\<not> int (ringDist (fsize f) (posIdx (pinCache f)) (posIdx (pout f))) < len"
      using False gen le D assms by (subst (asm) lacksData_iff) auto
    moreover have "canRead f len = (Some (pout f), f)"
      using False D by (simp add: canRead_def Let_def)
    ultimately show thesis
      using data [of f] D gen le assms by (auto simp: eqs)
  qed
qed

text \<open>Publishing a new write cursor after the copy, and a new read cursor.\<close>

lemma publish_write:
  assumes inv: "fifo_inv f" and gen: "generationOf (poutCache f) = generationOf (pin f)"
    and room: "ringDist (fsize f) (posIdx (pin f)) (posIdx (poutCache f)) + length ys < fsize f"
    and b': "length b' = fsize f"
      "\<And>j. j < fsize f \<Longrightarrow> b' ! ((posIdx (pin f) + j) mod fsize f) =
         (if j < length ys then ys ! j else buf f ! ((posIdx (pin f) + j) mod fsize f))"
    and i': "unat i' = (posIdx (pin f) + length ys) mod fsize f"
    and f': "f' = f\<lparr>buf := b', pin := makePos (generationOf (pin f)) i'\<rparr>"
  shows "fifo_inv f'" and "contents f' = contents f @ ys"
proof -
  note D = fifo_invD [OF inv]
  let ?m = "fsize f" and ?i = "posIdx (pin f)" and ?o = "posIdx (pout f)"
  let ?c = "posIdx (poutCache f)"
  have cache: "?c < ?m" "fused f \<le> ringDist ?m ?i ?c"
    using inv gen by (auto simp: fifo_inv_def)
  have sz: "fsize f' = ?m" by (simp add: f' fsize_def)
  have i: "?i = (?o + fused f) mod ?m"
    using D by (simp add: fused_def ringDist_inverse)
  have used: "fused f' = fused f + length ys"
  proof -
    have "fused f' = ringDist ?m (unat i') ?o" by (simp add: fused_def sz) (simp add: f')
    then show ?thesis
      using ringDist_forward [OF D(4,5), of "length ys"] room cache(2) by (simp add: i' fused_def)
  qed
  have "ringDist ?m (unat i') ?c = ringDist ?m ?i ?c + length ys"
    using D(4) room cache(1) by (simp add: i' ringDist_forward)
  then show "fifo_inv f'"
    using inv used cache b'(1) i' D(3) by (auto simp: fifo_inv_def sz) (auto simp: f')
  have "b' ! ((?o + j) mod ?m) = (contents f @ ys) ! j" if j: "j < fused f + length ys" for j
  proof (cases "j < fused f")
    case True
    define d where "d = ?m + j - fused f"
    have d: "d < ?m" "\<not> d < length ys" using True D room cache by (auto simp: d_def)
    have "(?i + d) mod ?m = (?o + fused f + d) mod ?m" by (simp add: i mod_add_left_eq)
    also have "?o + fused f + d = ?o + j + ?m" using True D(9) by (simp add: d_def)
    also have "(?o + j + ?m) mod ?m = (?o + j) mod ?m" by simp
    finally have "(?i + d) mod ?m = (?o + j) mod ?m" .
    then show ?thesis using b'(2) [OF d(1)] d(2) True
      by (simp add: nth_append) (simp add: contents_def nth_ring)
  next
    case False
    then have "(?o + j) mod ?m = (?o + fused f + (j - fused f)) mod ?m" by simp
    then have "(?o + j) mod ?m = (?i + (j - fused f)) mod ?m" unfolding i mod_add_left_eq .
    moreover have "j - fused f < ?m" "j - fused f < length ys" using False j room by auto
    ultimately show ?thesis using b'(2) [of "j - fused f"] False by (simp add: nth_append)
  qed
  then show "contents f' = contents f @ ys"
    by (intro nth_equalityI) (simp_all add: used, simp add: contents_def [of f'] used nth_ring sz, simp add: f')
qed

lemma publish_read:
  assumes inv: "fifo_inv f" and gen: "generationOf (pinCache f) = generationOf (pin f)"
    and dat: "k \<le> ringDist (fsize f) (posIdx (pinCache f)) (posIdx (pout f))"
    and i': "unat i' = (posIdx (pout f) + k) mod fsize f"
    and f': "f' = f\<lparr>pout := makePos (generationOf (pout f)) i'\<rparr>"
  shows "fifo_inv f'" and "contents f' = drop k (contents f)"
proof -
  note D = fifo_invD [OF inv]
  let ?m = "fsize f" and ?i = "posIdx (pin f)" and ?o = "posIdx (pout f)"
  let ?c = "posIdx (pinCache f)"
  have cache: "?c < ?m" "ringDist ?m ?c ?o \<le> fused f"
    using inv gen by (auto simp: fifo_inv_def)
  have sz: "fsize f' = ?m" by (simp add: f' fsize_def)
  have shift: "ringDist ?m p (unat i') = ringDist ?m p ?o - k"
    if "p < ?m" "k \<le> ringDist ?m p ?o" for p
    using that D(5) by (simp add: i' ringDist_backward)
  have used: "fused f' = fused f - k"
    using shift [OF D(4)] dat cache by (simp add: fused_def sz) (simp add: f' fused_def)
  show "fifo_inv f'"
    using inv used cache i' D(3) shift [OF cache(1) dat] by (auto simp: fifo_inv_def sz) (auto simp: f')
  show "contents f' = drop k (contents f)"
  proof -
    have "buf f' = buf f" "posIdx (pout f') = (?o + k) mod ?m" by (simp_all add: f' i')
    then show ?thesis using dat cache(2) by (simp add: contents_def drop_ring used sz ring_mod)
  qed
qed

lemma fifo_write_ok:
  assumes "fifo_inv f" and "0 \<le> len" and "len \<le> numFree f" and "len \<le> int (length dat)"
  shows "fst (fifo_write f dat len) = 0" and "fifo_inv (snd (fifo_write f dat len))"
    and "contents (snd (fifo_write f dat len)) = contents f @ take (nat len) dat"
proof -
  note D = fifo_invD [OF assms(1)]
  obtain f1 where f1: "canWrite f len = (Some (pin f), f1)"
      "f1 = f \<or> f1 = f\<lparr>poutCache := pout f\<rparr>" "fifo_inv f1"
      "generationOf (poutCache f1) = generationOf (pin f)"
      "int (ringDist (fsize f) (posIdx (pin f)) (posIdx (poutCache f1))) + len < nelem f"
    using assms(3) by (cases rule: canWrite_cases [OF assms(1), of len]) auto
  have same: "pin f1 = pin f" "buf f1 = buf f" "nelem f1 = nelem f" "fsize f1 = fsize f"
    "contents f1 = contents f"
    using f1(2) refresh_caches(3) [OF assms(1)] by (auto simp: fsize_def)
  have len: "len < nelem f" and small: "nat len < fsize f" using f1(5) D(1) assms(2) by linarith+
  define ys where "ys = take (nat len) dat"
  define k where "k = min (nat len) (fsize f - unat (indexOf (pin f)))"
  obtain b i' where wb: "writeBlock (nelem f) (indexOf (pin f)) dat len (buf f) = (b, i')"
    by fastforce
  note W = writeBlock_eq [OF _ D(2) D(1) assms(2) len k_def ys_def, of "buf f", unfolded wb]
  have ys: "length ys = nat len" using assms(2,4) by (simp add: ys_def)
  have idx: "unat (indexOf (pin f)) < fsize f" using D(4) by (simp add: posIdx_def)
  have b: "b = splice_at 0 (drop k ys) (splice_at (unat (indexOf (pin f))) (take k ys) (buf f))"
    and i': "unat i' = (posIdx (pin f) + length ys) mod fsize f"
    using W idx assms(4) ys by (auto simp: posIdx_def)
  note R = ring_write_two_parts [OF D(7) idx _ _ b]
  have "fifo_write f dat len = (0, f1\<lparr>buf := b, pin := makePos (generationOf (pin f)) i'\<rparr>)"
    using f1(1) same wb by (simp add: fifo_write_def)
  moreover have "fifo_inv (f1\<lparr>buf := b, pin := makePos (generationOf (pin f)) i'\<rparr>)"
    "contents (f1\<lparr>buf := b, pin := makePos (generationOf (pin f)) i'\<rparr>) = contents f1 @ ys"
    using publish_write [OF f1(3), of ys b i'] f1(4,5) same R ys small i' D(1) assms(2)
    by (simp_all add: k_def posIdx_def)
  ultimately show "fst (fifo_write f dat len) = 0" "fifo_inv (snd (fifo_write f dat len))"
    "contents (snd (fifo_write f dat len)) = contents f @ take (nat len) dat"
    using same by (simp_all add: ys_def)
qed

lemma fifo_write_full:
  assumes "fifo_inv f" and "numFree f < len"
  shows "fst (fifo_write f dat len) = -1" and "fifo_inv (snd (fifo_write f dat len))"
    and "contents (snd (fifo_write f dat len)) = contents f"
proof -
  have "canWrite f len = (None, f\<lparr>poutCache := pout f\<rparr>)"
    using assms(2) by (cases rule: canWrite_cases [OF assms(1), of len]) auto
  then show "fst (fifo_write f dat len) = -1" "fifo_inv (snd (fifo_write f dat len))"
    "contents (snd (fifo_write f dat len)) = contents f"
    using refresh_caches [OF assms(1)] by (simp_all add: fifo_write_def)
qed

lemma fifo_read_ok:
  assumes "fifo_inv f" and "0 \<le> len" and "len \<le> numUsed f"
  shows "fst (fifo_read f len) = 0" and "fifo_inv (snd (snd (fifo_read f len)))"
    and "fst (snd (fifo_read f len)) = take (nat len) (contents f)"
    and "contents (snd (snd (fifo_read f len))) = drop (nat len) (contents f)"
proof -
  note D = fifo_invD [OF assms(1)]
  have len: "len < nelem f" using assms(3) D(1,9) numUsed_eq [OF assms(1)] by simp
  then have "len < 2 ^ 31" using D(1,2) by simp
  then obtain f1 where f1: "canRead f len = (Some (pout f), f1)"
      "f1 = f \<or> f1 = f\<lparr>pinCache := pin f\<rparr>" "fifo_inv f1"
      "generationOf (pinCache f1) = generationOf (pin f)"
      "len \<le> int (ringDist (fsize f) (posIdx (pinCache f1)) (posIdx (pout f)))"
    using assms(3) by (cases rule: canRead_cases [OF assms(1,2)]) auto
  have same: "pout f1 = pout f" "buf f1 = buf f" "nelem f1 = nelem f" "fsize f1 = fsize f"
    "contents f1 = contents f" "pin f1 = pin f"
    using f1(2) refresh_caches(4) [OF assms(1)] by (auto simp: fsize_def)
  obtain r i' where rb: "readBlock (nelem f) (indexOf (pout f)) len (buf f) = (r, i')"
    by fastforce
  have idx: "unat (indexOf (pout f)) < fsize f" using D(5) by (simp add: posIdx_def)
  note R = readBlock_eq [OF idx D(2) D(1) assms(2) len D(7), unfolded rb]
  have r: "r = take (nat len) (contents f)" and i': "unat i' = (posIdx (pout f) + nat len) mod fsize f"
    using R assms numUsed_eq [OF assms(1)] by (simp_all add: contents_def take_ring posIdx_def)
  have "fifo_read f len = (0, r, f1\<lparr>pout := makePos (generationOf (pout f1)) i'\<rparr>)"
    using f1(1) same rb by (simp add: fifo_read_def)
  moreover note publish_read [OF f1(3) _ _ _ refl, of "nat len" i']
  ultimately show "fst (fifo_read f len) = 0" "fifo_inv (snd (snd (fifo_read f len)))"
    "fst (snd (fifo_read f len)) = take (nat len) (contents f)"
    "contents (snd (snd (fifo_read f len))) = drop (nat len) (contents f)"
    using same f1(4,5) i' r assms(2) by (simp_all add: nat_le_iff)
qed

lemma fifo_read_empty:
  assumes "fifo_inv f" and "0 \<le> len" and "len < 2 ^ 31" and "numUsed f < len"
  shows "fst (fifo_read f len) = -1" and "fifo_inv (snd (snd (fifo_read f len)))"
    and "fst (snd (fifo_read f len)) = []"
    and "contents (snd (snd (fifo_read f len))) = contents f"
proof -
  have "canRead f len = (None, f\<lparr>pinCache := pin f\<rparr>)"
    using assms(4) by (cases rule: canRead_cases [OF assms(1-3)]) auto
  then show "fst (fifo_read f len) = -1" "fifo_inv (snd (snd (fifo_read f len)))"
    "fst (snd (fifo_read f len)) = []"
    "contents (snd (snd (fifo_read f len))) = contents f"
    using refresh_caches [OF assms(1)] by (simp_all add: fifo_read_def)
qed

lemma nelem_write [simp]: "nelem (snd (fifo_write f dat len)) = nelem f"
  by (simp add: fifo_write_def canWrite_def Let_def split: prod.splits)

lemma nelem_read [simp]: "nelem (snd (snd (fifo_read f len))) = nelem f"
  by (simp add: fifo_read_def canRead_def Let_def split: prod.splits)

lemma capacity_ops [simp]:
  "capacity (snd (fifo_write f dat len)) = capacity f"
  "capacity (snd (snd (fifo_read f len))) = capacity f"
  "capacity (fifo_reset f) = capacity f"
  by (simp_all add: capacity_def) (simp add: fifo_reset_def Let_def)

lemma fifo_new_inv:
  assumes "0 < len" and "len < 2 ^ 31" and "length (case inBuf of Some b \<Rightarrow> b | None \<Rightarrow> fresh len) = nat len"
  shows "fifo_inv (fifo_new len inBuf fresh)" and "contents (fifo_new len inBuf fresh) = []"
  using assms by (auto simp: fifo_inv_def fifo_new_def fsize_def fused_def ringDist_def contents_def)

text \<open>
  A reset needs a next generation: after \<open>2\<^sup>3\<^sup>2 - 1\<close> resets the counter wraps, and a cached cursor
  of the first generation would be taken for a current one.
\<close>

lemma fifo_reset_inv:
  assumes "fifo_inv f" and "generationOf (pin f) \<noteq> - 1"
  shows "fifo_inv (fifo_reset f)" and "contents (fifo_reset f) = []"
proof -
  have next_gen: "g \<noteq> generationOf (pin f) + 1 \<and> g \<le> generationOf (pin f) + 1"
    if "g \<le> generationOf (pin f)" for g
    using that assms(2) inc_less_eq_self_iff_eq by fastforce
  have "generationOf (poutCache f) \<le> generationOf (pin f)" "generationOf (pinCache f) \<le> generationOf (pin f)"
    using assms(1) unfolding fifo_inv_def by blast+
  note this [THEN next_gen]
  then show "fifo_inv (fifo_reset f)"
    using assms(1) by (simp add: fifo_inv_def fifo_reset_def Let_def fsize_def)
  show "contents (fifo_reset f) = []"
    by (simp add: fifo_reset_def Let_def contents_def fused_def ringDist_def)
qed

subsection \<open>The contract the clients rely on\<close>

text \<open>
  What the pipeline steps, the transmit and receive threads and the taps assume of a FIFO: a bounded
  queue whose \<open>write\<close> and \<open>read\<close> are all-or-nothing. Client lemmas are proved once, in this locale.
\<close>

locale bounded_queue =
  fixes qwrite :: "'q \<Rightarrow> 'a list \<Rightarrow> int \<Rightarrow> int \<times> 'q"
    and qread :: "'q \<Rightarrow> int \<Rightarrow> int \<times> 'a list \<times> 'q"
    and qreset :: "'q \<Rightarrow> 'q"
    and qused :: "'q \<Rightarrow> int"
    and qfree :: "'q \<Rightarrow> int"
    and qcap :: "'q \<Rightarrow> int"
    and items :: "'q \<Rightarrow> 'a list"
    and qinv :: "'q \<Rightarrow> bool"
    and can_reset :: "'q \<Rightarrow> bool"
  assumes used_items: "qinv q \<Longrightarrow> qused q = int (length (items q))"
    and free_used: "qinv q \<Longrightarrow> qfree q = qcap q - qused q"
    and free_nonneg: "qinv q \<Longrightarrow> 0 \<le> qfree q"
    and cap_small: "qinv q \<Longrightarrow> qcap q < 2 ^ 31 - 1"
    and write_fits: "\<lbrakk>qinv q; 0 \<le> len; len \<le> qfree q; len \<le> int (length dat)\<rbrakk> \<Longrightarrow>
      fst (qwrite q dat len) = 0 \<and> qinv (snd (qwrite q dat len)) \<and>
      items (snd (qwrite q dat len)) = items q @ take (nat len) dat"
    and write_rejected: "\<lbrakk>qinv q; qfree q < len\<rbrakk> \<Longrightarrow>
      fst (qwrite q dat len) = -1 \<and> qinv (snd (qwrite q dat len)) \<and> items (snd (qwrite q dat len)) = items q"
    and read_available: "\<lbrakk>qinv q; 0 \<le> len; len \<le> qused q\<rbrakk> \<Longrightarrow>
      fst (qread q len) = 0 \<and> fst (snd (qread q len)) = take (nat len) (items q) \<and>
      qinv (snd (snd (qread q len))) \<and> items (snd (snd (qread q len))) = drop (nat len) (items q)"
    and read_rejected: "\<lbrakk>qinv q; len < 2 ^ 31; 0 \<le> len; qused q < len\<rbrakk> \<Longrightarrow>
      fst (qread q len) = -1 \<and> fst (snd (qread q len)) = [] \<and>
      qinv (snd (snd (qread q len))) \<and> items (snd (snd (qread q len))) = items q"
    and cap_write: "qcap (snd (qwrite q dat len)) = qcap q"
    and cap_read: "qcap (snd (snd (qread q len))) = qcap q"
    and reset_items: "\<lbrakk>qinv q; can_reset q\<rbrakk> \<Longrightarrow> qinv (qreset q) \<and> items (qreset q) = [] \<and> qcap (qreset q) = qcap q"
begin

text \<open>Both operations keep the invariant, whatever they return.\<close>

lemma inv_write: "qinv q \<Longrightarrow> 0 \<le> len \<Longrightarrow> len \<le> int (length dat) \<Longrightarrow> qinv (snd (qwrite q dat len))"
  using write_fits write_rejected by (cases "len \<le> qfree q") force+

lemma inv_read: "qinv q \<Longrightarrow> 0 \<le> len \<Longrightarrow> len < 2 ^ 31 \<Longrightarrow> qinv (snd (snd (qread q len)))"
  using read_available read_rejected by (cases "len \<le> qused q") force+

lemma items_bounded: "qinv q \<Longrightarrow> int (length (items q)) \<le> qcap q"
  using used_items free_used free_nonneg by fastforce

text \<open>What is written into an empty queue is what is qread from it.\<close>

lemma write_then_read:
  assumes "qinv q" and "items q = []" and "int (length dat) \<le> qcap q"
  shows "fst (snd (qread (snd (qwrite q dat (int (length dat)))) (int (length dat)))) = dat"
proof -
  have "qused q = 0" using assms(1,2) by (simp add: used_items)
  then have "int (length dat) \<le> qfree q" using assms(1,3) by (simp add: free_used)
  note w = write_fits [OF assms(1) _ this, of dat]
  let ?q = "snd (qwrite q dat (int (length dat)))"
  have "qused ?q = int (length dat)" using w assms(2) by (simp add: used_items)
  then show ?thesis using read_available [of ?q "int (length dat)"] w assms(2) by simp
qed

end

interpretation fq: bounded_queue fifo_write fifo_read fifo_reset numUsed numFree capacity contents fifo_inv
  "\<lambda>f. generationOf (pin f) \<noteq> - 1"
proof (unfold_locales, goal_cases)
  case (1 q) then show ?case by (simp add: numUsed_eq)
next
  case (2 q) then show ?case by (simp add: numFree_def capacity_def)
next
  case (3 q) then show ?case by (simp add: numFree_eq)
next
  case (4 q) then show ?case by (simp add: capacity_def fifo_inv_def)
next
  case (5 q len dat) then show ?case using fifo_write_ok by blast
next
  case (6 q len dat) then show ?case using fifo_write_full by blast
next
  case (7 q len) then show ?case using fifo_read_ok by blast
next
  case (8 q len) then show ?case using fifo_read_empty by blast
next
  case (11 q) then show ?case by (simp add: fifo_reset_inv)
qed simp_all

subsection \<open>Properties\<close>

lemma generation_ops:
  "generationOf (pin (snd (fifo_write f dat len))) = generationOf (pin f)"
  "pin (snd (snd (fifo_read f len))) = pin f"
  by (simp_all add: fifo_write_def fifo_read_def canWrite_def canRead_def Let_def split: prod.splits)

lemma resets_left_reset:
  "generationOf (pin f) \<noteq> -1 \<Longrightarrow> resets_left f = Suc (resets_left (fifo_reset f))"
proof -
  assume "generationOf (pin f) \<noteq> -1"
  then have "unat (generationOf (pin f)) \<noteq> 2 ^ 32 - 1"
    by (metis unat_max32 word_unat_eq_iff)
  moreover have "unat (generationOf (pin f)) < 2 ^ 32" using unsigned_less [where ?'b = 32, of "generationOf (pin f)"] by simp
  ultimately have "unat (generationOf (pin f) + 1) = unat (generationOf (pin f)) + 1"
    by (simp add: unat_word_ariths)
  with \<open>unat (generationOf (pin f)) \<noteq> 2 ^ 32 - 1\<close> \<open>unat (generationOf (pin f)) < 2 ^ 32\<close> show ?thesis
    by (simp add: resets_left_def fifo_reset_def Let_def)
qed

lemma fifo_do_refines:
  assumes "fifo_inv f" and "valid_call c" and "c = Reset \<Longrightarrow> 0 < resets_left f"
    and "fifo_do f c = (out, f')"
  shows "queue_do (capacity f) (contents f) c = (out, contents f')" and "fifo_inv f'"
    and "capacity f' = capacity f" and "resets_left f \<le> resets_left f' + (if c = Reset then 1 else 0)"
proof -
  note sizes = fq.used_items [OF assms(1)] fq.free_used [OF assms(1)]
  have "queue_do (capacity f) (contents f) c = (out, contents f') \<and> fifo_inv f' \<and>
    capacity f' = capacity f \<and> resets_left f \<le> resets_left f' + (if c = Reset then 1 else 0)"
  proof (cases c)
    case (Write dat)
    obtain r where w: "fifo_write f dat (int (length dat)) = (r, f')" "out = Status r"
      using assms(4) Write by (auto split: prod.splits)
    have keep: "capacity f' = capacity f" "resets_left f' = resets_left f"
      using fq.cap_write [of f dat "int (length dat)"] generation_ops(1) [of f dat "int (length dat)"]
      by (simp_all add: w resets_left_def)
    show ?thesis
    proof (cases "int (length dat) \<le> numFree f")
      case True
      then show ?thesis using Write fq.write_fits [OF assms(1), of "int (length dat)" dat] keep sizes
        by (simp add: w)
    next
      case False
      then show ?thesis using Write fq.write_rejected [OF assms(1), of "int (length dat)" dat] keep sizes
        by (simp add: w)
    qed
  next
    case (Read len)
    obtain r xs where rd: "fifo_read f len = (r, xs, f')" "out = Samples r xs"
      using assms(4) Read by (auto split: prod.splits)
    have keep: "capacity f' = capacity f" "resets_left f' = resets_left f"
      using fq.cap_read [of f len] generation_ops(2) [of f len] by (simp_all add: rd resets_left_def)
    have len: "0 \<le> len" "len < 2 ^ 31" using assms(2) Read by simp_all
    show ?thesis
    proof (cases "len \<le> numUsed f")
      case True
      then show ?thesis using Read fq.read_available [OF assms(1) len(1)] keep sizes by (simp add: rd)
    next
      case False
      then show ?thesis using Read fq.read_rejected [OF assms(1) len(2) len(1)] keep sizes by (simp add: rd)
    qed
  next
    case Reset
    then have "generationOf (pin f) \<noteq> -1"
      using assms(3) unat_max32 by (auto simp: resets_left_def)
    then show ?thesis
      using Reset assms fq.reset_items [OF assms(1)] resets_left_reset [of f] by auto
  qed (use assms sizes in auto)
  then show "queue_do (capacity f) (contents f) c = (out, contents f')" "fifo_inv f'"
    "capacity f' = capacity f" "resets_left f \<le> resets_left f' + (if c = Reset then 1 else 0)"
    by simp_all
qed

text \<open>
  C3: Called one operation at a time, the ring buffer is a bounded FIFO queue: for every sequence of
  calls of write, read, reset, numUsed and numFree, the caller sees exactly the answers of a queue of
  at most \<open>capacity()\<close> elements (a write is accepted whole or rejected with -1, a read returns the
  oldest elements or -1), and the final contents agree. It holds from any state with the invariant
  and for up to \<open>2\<^sup>3\<^sup>2 - 1\<close> resets.
\<close>

theorem fifo_refines_queue:
  assumes "fifo_inv f" and "list_all valid_call cs" and "length (filter (\<lambda>c. c = Reset) cs) \<le> resets_left f"
    and "run_calls fifo_do f cs = (outs, f')"
  shows "run_calls (queue_do (capacity f)) (contents f) cs = (outs, contents f') \<and> fifo_inv f'"
  using assms
proof (induction cs arbitrary: f outs)
  case Nil
  then show ?case by simp
next
  case (Cons c cs)
  obtain out f1 where step: "fifo_do f c = (out, f1)" by fastforce
  then obtain outs' where rest: "run_calls fifo_do f1 cs = (outs', f')" "outs = out # outs'"
    using Cons.prems(4) by (auto simp: Let_def split: prod.splits)
  have "c = Reset \<Longrightarrow> 0 < resets_left f" using Cons.prems(3) by simp
  note R = fifo_do_refines [OF Cons.prems(1) _ this step]
  have "valid_call c" using Cons.prems(2) by simp
  note R = R [OF this]
  have "length (filter (\<lambda>c. c = Reset) cs) \<le> resets_left f1"
    using Cons.prems(3) R(4) by (simp split: if_splits)
  then show ?case
    using Cons.IH [OF R(2) _ _ rest(1)] Cons.prems(2) R(1,3) rest(2) by simp
qed

theorem fifo_refines_queue_witness:
  "\<exists>f'. run_calls fifo_do (fifo_new 4 None (\<lambda>_. [0, 0, 0, 0]))
       [Write [1, 2, 3], Write [9], Read 2, Write [4, 5], NumFree] =
       ([Status 0, Status (-1), Samples 0 [1, 2], Status 0, Count 0], f') \<and> contents f' = [3, 4, 5 :: int]"
proof -
  define f where "f = fifo_new 4 None (\<lambda>_. [0, 0, 0, 0 :: int])"
  let ?cs = "[Write [1, 2, 3], Write [9], Read 2, Write [4, 5], NumFree]"
  have f: "fifo_inv f" "contents f = []" unfolding f_def by (rule fifo_new_inv, simp_all)+
  have cap: "capacity f = 3" by (simp add: f_def fifo_new_def capacity_def)
  obtain outs f' where run: "run_calls fifo_do f ?cs = (outs, f')" by fastforce
  have "run_calls (queue_do (capacity f)) (contents f) ?cs = (outs, contents f') \<and> fifo_inv f'"
    by (rule fifo_refines_queue [OF f(1) _ _ run]) simp_all
  then have "outs = [Status 0, Status (-1), Samples 0 [1, 2], Status 0, Count 0] \<and> contents f' = [3, 4, 5]"
    by (auto simp: f cap)
  then show ?thesis using run unfolding f_def by blast
qed

end
