(* ===== verification/FIFO_Concurrency.thy ===== *)
theory FIFO_Concurrency
  imports Generic_FIFO
begin

text \<open>
  The interleaved executions of \<^verbatim>\<open>src/src/util/GenericFIFO.h\<close>: one producer in \<open>write\<close>, one consumer
  in \<open>read\<close>, and \<open>reset\<close> calls from any thread. Every atomic access of the code is one step (the load
  of \<open>resetting_\<close>, of the own cursor, the reload of the other cursor, each element that is copied, the
  compare-exchange, and the separate stores of \<open>reset\<close>), in any order a scheduler may choose, under
  sequential consistency. Two history variables record, per generation, what committed writes sent
  and what successful reads received.
\<close>

named_theorems frame \<open>parts of the system invariant that a step does not touch\<close>

subsection \<open>The system\<close>

datatype 'a producer =
    PIdle
  | PLoad "'a list"              \<comment> \<open>\<open>canWrite_\<close>: \<open>resetting_\<close> was clear\<close>
  | PCheck pos "'a list"         \<comment> \<open>cached \<open>pout_\<close> stale or insufficient, about to reload it\<close>
  | PCopy pos "'a list" nat      \<comment> \<open>\<open>canWrite_\<close> returned true; number of elements copied so far\<close>

datatype 'a consumer =
    CIdle
  | CLoad int
  | CCheck pos int
  | CCopy pos int "'a list"

datatype resetter =
    RIdle
  | RLocked                      \<comment> \<open>holds \<open>resetting_\<close>\<close>
  | RLoaded pos                  \<comment> \<open>computed \<open>freshPos\<close>\<close>
  | RPin pos                     \<comment> \<open>stored \<open>pin_\<close>, not yet \<open>pout_\<close>\<close>
  | RPout                        \<comment> \<open>stored both, flag still set\<close>

record 'a fifo_sys =
  ff :: "'a fifo"
  producer :: "'a producer"
  consumer :: "'a consumer"
  resetter :: resetter
  sent :: "u32 \<Rightarrow> 'a list"
  received :: "u32 \<Rightarrow> 'a list"

definition sys_init :: "'a fifo \<Rightarrow> 'a fifo_sys" where
  "sys_init f = \<lparr>ff = f, producer = PIdle, consumer = CIdle, resetter = RIdle,
     sent = (\<lambda>_. []), received = (\<lambda>_. [])\<rparr>"

text \<open>The cursor \<open>write\<close> and \<open>read\<close> commit after a copy that started at \<open>p\<close>.\<close>

definition writeEnd :: "'a fifo \<Rightarrow> pos \<Rightarrow> 'a list \<Rightarrow> pos" where
  "writeEnd f p dat =
     makePos (generationOf p) (snd (writeBlock (nelem f) (indexOf p) dat (int (length dat)) (buf f)))"

definition readEnd :: "'a fifo \<Rightarrow> pos \<Rightarrow> int \<Rightarrow> pos" where
  "readEnd f p len = makePos (generationOf p) (snd (readBlock (nelem f) (indexOf p) len (buf f)))"

abbreviation roomFor :: "'a fifo \<Rightarrow> pos \<Rightarrow> pos \<Rightarrow> 'a list \<Rightarrow> bool" where
  "roomFor f p q dat \<equiv> \<not> lacksRoom (nelem f) (computeUsed (nelem f) p q) (int (length dat))"

abbreviation dataFor :: "'a fifo \<Rightarrow> pos \<Rightarrow> pos \<Rightarrow> int \<Rightarrow> bool" where
  "dataFor f p q len \<equiv> \<not> lacksData (computeUsed (nelem f) p q) len"

inductive fifo_step :: "'a fifo_sys \<Rightarrow> 'a fifo_sys \<Rightarrow> bool" where
  write_call: "producer s = PIdle \<Longrightarrow> \<not> resetting (ff s) \<Longrightarrow> fifo_step s (s\<lparr>producer := PLoad dat\<rparr>)"
| write_load_ok: "producer s = PLoad dat \<Longrightarrow> roomFor (ff s) (pin (ff s)) (poutCache (ff s)) dat \<Longrightarrow>
    fifo_step s (s\<lparr>producer := PCopy (pin (ff s)) dat 0\<rparr>)"
| write_load_stale: "producer s = PLoad dat \<Longrightarrow> \<not> roomFor (ff s) (pin (ff s)) (poutCache (ff s)) dat \<Longrightarrow>
    fifo_step s (s\<lparr>producer := PCheck (pin (ff s)) dat\<rparr>)"
| write_reload_ok: "producer s = PCheck p dat \<Longrightarrow> roomFor (ff s) p (pout (ff s)) dat \<Longrightarrow>
    fifo_step s (s\<lparr>ff := (ff s)\<lparr>poutCache := pout (ff s)\<rparr>, producer := PCopy p dat 0\<rparr>)"
| write_reload_full: "producer s = PCheck p dat \<Longrightarrow> \<not> roomFor (ff s) p (pout (ff s)) dat \<Longrightarrow>
    fifo_step s (s\<lparr>ff := (ff s)\<lparr>poutCache := pout (ff s)\<rparr>, producer := PIdle\<rparr>)"
| write_copy: "producer s = PCopy p dat k \<Longrightarrow> k < length dat \<Longrightarrow>
    fifo_step s (s\<lparr>ff := (ff s)\<lparr>buf := (buf (ff s))[(posIdx p + k) mod fsize (ff s) := dat ! k]\<rparr>,
                  producer := PCopy p dat (Suc k)\<rparr>)"
| write_commit: "producer s = PCopy p dat (length dat) \<Longrightarrow> pin (ff s) = p \<Longrightarrow>
    fifo_step s (s\<lparr>ff := (ff s)\<lparr>pin := writeEnd (ff s) p dat\<rparr>, producer := PIdle,
                  sent := (sent s)(generationOf p := sent s (generationOf p) @ dat)\<rparr>)"
| write_abandon: "producer s = PCopy p dat (length dat) \<Longrightarrow> pin (ff s) \<noteq> p \<Longrightarrow>
    fifo_step s (s\<lparr>producer := PIdle\<rparr>)"
| read_call: "consumer s = CIdle \<Longrightarrow> \<not> resetting (ff s) \<Longrightarrow> 0 \<le> len \<Longrightarrow> len < 2 ^ 31 \<Longrightarrow>
    fifo_step s (s\<lparr>consumer := CLoad len\<rparr>)"
| read_load_ok: "consumer s = CLoad len \<Longrightarrow> dataFor (ff s) (pinCache (ff s)) (pout (ff s)) len \<Longrightarrow>
    fifo_step s (s\<lparr>consumer := CCopy (pout (ff s)) len []\<rparr>)"
| read_load_stale: "consumer s = CLoad len \<Longrightarrow> \<not> dataFor (ff s) (pinCache (ff s)) (pout (ff s)) len \<Longrightarrow>
    fifo_step s (s\<lparr>consumer := CCheck (pout (ff s)) len\<rparr>)"
| read_reload_ok: "consumer s = CCheck p len \<Longrightarrow> dataFor (ff s) (pin (ff s)) p len \<Longrightarrow>
    fifo_step s (s\<lparr>ff := (ff s)\<lparr>pinCache := pin (ff s)\<rparr>, consumer := CCopy p len []\<rparr>)"
| read_reload_empty: "consumer s = CCheck p len \<Longrightarrow> \<not> dataFor (ff s) (pin (ff s)) p len \<Longrightarrow>
    fifo_step s (s\<lparr>ff := (ff s)\<lparr>pinCache := pin (ff s)\<rparr>, consumer := CIdle\<rparr>)"
| read_copy: "consumer s = CCopy p len acc \<Longrightarrow> int (length acc) < len \<Longrightarrow>
    fifo_step s (s\<lparr>consumer := CCopy p len (acc @ [buf (ff s) ! ((posIdx p + length acc) mod fsize (ff s))])\<rparr>)"
| read_commit: "consumer s = CCopy p len acc \<Longrightarrow> int (length acc) = len \<Longrightarrow> pout (ff s) = p \<Longrightarrow>
    fifo_step s (s\<lparr>ff := (ff s)\<lparr>pout := readEnd (ff s) p len\<rparr>, consumer := CIdle,
                  received := (received s)(generationOf p := received s (generationOf p) @ acc)\<rparr>)"
| read_abandon: "consumer s = CCopy p len acc \<Longrightarrow> int (length acc) = len \<Longrightarrow> pout (ff s) \<noteq> p \<Longrightarrow>
    fifo_step s (s\<lparr>consumer := CIdle\<rparr>)"
| reset_lock: "resetter s = RIdle \<Longrightarrow> \<not> resetting (ff s) \<Longrightarrow>
    fifo_step s (s\<lparr>ff := (ff s)\<lparr>resetting := True\<rparr>, resetter := RLocked\<rparr>)"
| reset_load: "resetter s = RLocked \<Longrightarrow> generationOf (pin (ff s)) \<noteq> -1 \<Longrightarrow>
    fifo_step s (s\<lparr>resetter := RLoaded (makePos (generationOf (pin (ff s)) + 1) 0)\<rparr>)"
| reset_pin: "resetter s = RLoaded p \<Longrightarrow>
    fifo_step s (s\<lparr>ff := (ff s)\<lparr>pin := p\<rparr>, resetter := RPin p\<rparr>)"
| reset_pout: "resetter s = RPin p \<Longrightarrow>
    fifo_step s (s\<lparr>ff := (ff s)\<lparr>pout := p\<rparr>, resetter := RPout\<rparr>)"
| reset_unlock: "resetter s = RPout \<Longrightarrow>
    fifo_step s (s\<lparr>ff := (ff s)\<lparr>resetting := False\<rparr>, resetter := RIdle\<rparr>)"

inductive fifo_reach :: "'a fifo \<Rightarrow> 'a fifo_sys \<Rightarrow> bool" for f0 where
  start: "fifo_reach f0 (sys_init f0)"
| step: "fifo_reach f0 s \<Longrightarrow> fifo_step s t \<Longrightarrow> fifo_reach f0 t"

subsection \<open>The invariant\<close>

abbreviation genIn :: "'a fifo_sys \<Rightarrow> u32" where "genIn s \<equiv> generationOf (pin (ff s))"
abbreviation genOut :: "'a fifo_sys \<Rightarrow> u32" where "genOut s \<equiv> generationOf (pout (ff s))"

text \<open>How many elements the generation of the read cursor has had written and read.\<close>

abbreviation wrote :: "'a fifo_sys \<Rightarrow> nat" where "wrote s \<equiv> length (sent s (genOut s))"
abbreviation took :: "'a fifo_sys \<Rightarrow> nat" where "took s \<equiv> length (received s (genOut s))"

definition buffer_ok :: "'a fifo_sys \<Rightarrow> bool" where
  "buffer_ok s \<longleftrightarrow>
     0 < fsize (ff s) \<and> fsize (ff s) < 2 ^ 31 \<and> nelem (ff s) = int (fsize (ff s)) \<and>
     length (buf (ff s)) = fsize (ff s) \<and>
     (\<forall>k. took s \<le> k \<longrightarrow> k < wrote s \<longrightarrow> buf (ff s) ! (k mod fsize (ff s)) = sent s (genOut s) ! k)"

definition cursors_ok :: "'a fifo_sys \<Rightarrow> bool" where
  "cursors_ok s \<longleftrightarrow>
     genOut s \<le> genIn s \<and>
     posIdx (pin (ff s)) = length (sent s (genIn s)) mod fsize (ff s) \<and>
     posIdx (pout (ff s)) = took s mod fsize (ff s) \<and>
     took s \<le> wrote s \<and> wrote s < took s + fsize (ff s) \<and>
     (\<forall>g. genIn s < g \<longrightarrow> sent s g = []) \<and> (\<forall>g. genOut s < g \<longrightarrow> received s g = []) \<and>
     (\<forall>g. take (length (received s g)) (sent s g) = received s g)"

definition resetter_ok :: "'a fifo_sys \<Rightarrow> bool" where
  "resetter_ok s \<longleftrightarrow> (case resetter s of
       RPin p \<Rightarrow> genOut s < genIn s \<and> generationOf p = genIn s \<and> posIdx p = 0 \<and> sent s (genIn s) = []
     | RLoaded p \<Rightarrow> genOut s = genIn s \<and> genIn s < generationOf p \<and> posIdx p = 0
     | _ \<Rightarrow> genOut s = genIn s)"

definition caches_ok :: "'a fifo_sys \<Rightarrow> bool" where
  "caches_ok s \<longleftrightarrow>
     generationOf (poutCache (ff s)) \<le> genOut s \<and> generationOf (pinCache (ff s)) \<le> genIn s \<and>
     (generationOf (poutCache (ff s)) = genOut s \<longrightarrow>
        (\<exists>c \<le> took s. posIdx (poutCache (ff s)) = c mod fsize (ff s) \<and> wrote s < c + fsize (ff s))) \<and>
     (generationOf (pinCache (ff s)) = genOut s \<longrightarrow>
        (\<exists>d \<le> wrote s. posIdx (pinCache (ff s)) = d mod fsize (ff s) \<and> took s \<le> d)) \<and>
     (generationOf (pinCache (ff s)) = genIn s \<longrightarrow> genOut s < genIn s \<longrightarrow> posIdx (pinCache (ff s)) = 0)"

text \<open>A write cursor the producer loaded earlier and has not committed yet.\<close>

definition loaded_ok :: "'a fifo_sys \<Rightarrow> pos \<Rightarrow> bool" where
  "loaded_ok s p \<longleftrightarrow>
     generationOf p \<le> genIn s \<and> posIdx p < fsize (ff s) \<and>
     (generationOf p = genIn s \<longrightarrow> pin (ff s) = p) \<and>
     (generationOf p < genIn s \<longrightarrow> sent s (genIn s) = []) \<and>
     (generationOf p < genOut s \<longrightarrow> sent s (genOut s) = []) \<and>
     (generationOf p = genOut s \<longrightarrow> posIdx p = wrote s mod fsize (ff s))"

definition producer_ok :: "'a fifo_sys \<Rightarrow> bool" where
  "producer_ok s \<longleftrightarrow> (case producer s of
       PCheck p dat \<Rightarrow> loaded_ok s p
     | PCopy p dat k \<Rightarrow> loaded_ok s p \<and> generationOf p \<le> genOut s \<and> k \<le> length dat \<and>
         (generationOf p = genOut s \<longrightarrow>
            generationOf (poutCache (ff s)) = generationOf p \<and>
            (\<exists>c \<le> took s. posIdx (poutCache (ff s)) = c mod fsize (ff s) \<and>
               wrote s + length dat < c + fsize (ff s)) \<and>
            (\<forall>j < k. buf (ff s) ! ((wrote s + j) mod fsize (ff s)) = dat ! j))
     | _ \<Rightarrow> True)"

definition consumer_ok :: "'a fifo_sys \<Rightarrow> bool" where
  "consumer_ok s \<longleftrightarrow> (case consumer s of
       CIdle \<Rightarrow> True
     | CLoad len \<Rightarrow> 0 \<le> len \<and> len < 2 ^ 31
     | CCheck p len \<Rightarrow> 0 \<le> len \<and> len < 2 ^ 31 \<and> generationOf p \<le> genOut s \<and> posIdx p < fsize (ff s) \<and>
         (generationOf p = genOut s \<longrightarrow> pout (ff s) = p)
     | CCopy p len acc \<Rightarrow> 0 \<le> len \<and> generationOf p \<le> genOut s \<and>
         (generationOf p = genOut s \<longrightarrow>
            pout (ff s) = p \<and> generationOf (pinCache (ff s)) = generationOf p \<and>
            (\<exists>d \<le> wrote s. posIdx (pinCache (ff s)) = d mod fsize (ff s) \<and> took s + nat len \<le> d) \<and>
            take (length acc) (drop (took s) (sent s (genOut s))) = acc \<and> length acc \<le> nat len))"

definition sys_inv :: "'a fifo_sys \<Rightarrow> bool" where
  "sys_inv s \<longleftrightarrow> buffer_ok s \<and> cursors_ok s \<and> resetter_ok s \<and> caches_ok s \<and> producer_ok s \<and> consumer_ok s"

lemmas sys_parts = buffer_ok_def cursors_ok_def resetter_ok_def caches_ok_def producer_ok_def consumer_ok_def

subsection \<open>Counters and ring positions\<close>

lemma fsize_update [simp]:
  "fsize (f\<lparr>buf := b\<rparr>) = fsize f" "fsize (f\<lparr>pin := p\<rparr>) = fsize f" "fsize (f\<lparr>pout := p\<rparr>) = fsize f"
  "fsize (f\<lparr>pinCache := p\<rparr>) = fsize f" "fsize (f\<lparr>poutCache := p\<rparr>) = fsize f"
  "fsize (f\<lparr>resetting := r\<rparr>) = fsize f"
  by (simp_all add: fsize_def)

lemma ringDist_counters:
  assumes "c \<le> w" and "w < c + n"
  shows "ringDist n (w mod n) (c mod n) = w - c"
proof -
  have "0 < n" "w - c < n" using assms by auto
  moreover have "w mod n = (c mod n + (w - c)) mod n" using assms(1) unfolding mod_add_left_eq by simp
  ultimately show ?thesis by (simp add: ringDist_add_mod)
qed

lemma counters_distinct:
  assumes "(k :: nat) < k'" and "k' < k + n"
  shows "k mod n \<noteq> k' mod n"
proof
  assume "k mod n = k' mod n"
  then have "n dvd k' - k" using assms(1) mod_eq_dvd_iff_nat [of k k' n] by simp
  then show False using assms dvd_imp_le [of n "k' - k"] by simp
qed

lemma roomFor_counters:
  assumes "buffer_ok s" and "posIdx p = w mod fsize (ff s)" and "posIdx q = c mod fsize (ff s)"
    and "c \<le> w" and "w < c + fsize (ff s)" and "generationOf p = generationOf q"
  shows "roomFor (ff s) p q dat \<longleftrightarrow> w + length dat < c + fsize (ff s)"
  using assms unfolding buffer_ok_def
  by (subst lacksRoom_iff [where m = "fsize (ff s)"]) (auto simp: ringDist_counters of_nat_diff)

lemma dataFor_counters:
  assumes "buffer_ok s" and "posIdx p = d mod fsize (ff s)" and "posIdx q = r mod fsize (ff s)"
    and "r \<le> d" and "d < r + fsize (ff s)" and "generationOf p = generationOf q"
    and "0 \<le> len" and "len < 2 ^ 31"
  shows "dataFor (ff s) p q len \<longleftrightarrow> r + nat len \<le> d"
  using assms unfolding buffer_ok_def
  by (subst lacksData_iff [where m = "fsize (ff s)"]) (auto simp: ringDist_counters of_nat_diff)

lemma roomFor_generation: "roomFor f p q dat \<Longrightarrow> generationOf p = generationOf q"
  using lacks_other_generation(1) by blast

lemma dataFor_generation: "dataFor f p q len \<Longrightarrow> generationOf p = generationOf q"
  using lacks_other_generation(2) by blast

text \<open>A fresh system satisfies the invariant.\<close>

lemma sys_inv_init:
  assumes "fifo_inv f" and "pin f = makePos 0 0" and "pout f = makePos 0 0"
    and "pinCache f = makePos 0 0" and "poutCache f = makePos 0 0"
  shows "sys_inv (sys_init f)"
  using fifo_invD [OF assms(1)] assms(2-5) by (simp add: sys_inv_def sys_parts sys_init_def)

subsection \<open>Every step keeps the invariant\<close>

text \<open>Which parts of the invariant a step does not touch.\<close>

lemmas sys_splits = producer.splits consumer.splits resetter.splits

lemma frame_producer [frame]:
  "buffer_ok (s\<lparr>producer := x\<rparr>) = buffer_ok s" "cursors_ok (s\<lparr>producer := x\<rparr>) = cursors_ok s"
  "resetter_ok (s\<lparr>producer := x\<rparr>) = resetter_ok s" "caches_ok (s\<lparr>producer := x\<rparr>) = caches_ok s"
  "consumer_ok (s\<lparr>producer := x\<rparr>) = consumer_ok s" "loaded_ok (s\<lparr>producer := x\<rparr>) p = loaded_ok s p"
  by (simp_all add: sys_parts loaded_ok_def split: sys_splits)

lemma frame_consumer [frame]:
  "buffer_ok (s\<lparr>consumer := x\<rparr>) = buffer_ok s" "cursors_ok (s\<lparr>consumer := x\<rparr>) = cursors_ok s"
  "resetter_ok (s\<lparr>consumer := x\<rparr>) = resetter_ok s" "caches_ok (s\<lparr>consumer := x\<rparr>) = caches_ok s"
  "producer_ok (s\<lparr>consumer := x\<rparr>) = producer_ok s" "loaded_ok (s\<lparr>consumer := x\<rparr>) p = loaded_ok s p"
  by (simp_all add: sys_parts loaded_ok_def split: sys_splits)

lemma frame_resetter [frame]:
  "buffer_ok (s\<lparr>resetter := x\<rparr>) = buffer_ok s" "cursors_ok (s\<lparr>resetter := x\<rparr>) = cursors_ok s"
  "caches_ok (s\<lparr>resetter := x\<rparr>) = caches_ok s" "producer_ok (s\<lparr>resetter := x\<rparr>) = producer_ok s"
  "consumer_ok (s\<lparr>resetter := x\<rparr>) = consumer_ok s" "loaded_ok (s\<lparr>resetter := x\<rparr>) p = loaded_ok s p"
  by (simp_all add: sys_parts loaded_ok_def split: sys_splits)

lemma frame_poutCache [frame]:
  "buffer_ok (s\<lparr>ff := (ff s)\<lparr>poutCache := q\<rparr>\<rparr>) = buffer_ok s"
  "cursors_ok (s\<lparr>ff := (ff s)\<lparr>poutCache := q\<rparr>\<rparr>) = cursors_ok s"
  "resetter_ok (s\<lparr>ff := (ff s)\<lparr>poutCache := q\<rparr>\<rparr>) = resetter_ok s"
  "consumer_ok (s\<lparr>ff := (ff s)\<lparr>poutCache := q\<rparr>\<rparr>) = consumer_ok s"
  "loaded_ok (s\<lparr>ff := (ff s)\<lparr>poutCache := q\<rparr>\<rparr>) p = loaded_ok s p"
  by (simp_all add: sys_parts loaded_ok_def split: sys_splits)

lemma frame_pinCache [frame]:
  "buffer_ok (s\<lparr>ff := (ff s)\<lparr>pinCache := q\<rparr>\<rparr>) = buffer_ok s"
  "cursors_ok (s\<lparr>ff := (ff s)\<lparr>pinCache := q\<rparr>\<rparr>) = cursors_ok s"
  "resetter_ok (s\<lparr>ff := (ff s)\<lparr>pinCache := q\<rparr>\<rparr>) = resetter_ok s"
  "producer_ok (s\<lparr>ff := (ff s)\<lparr>pinCache := q\<rparr>\<rparr>) = producer_ok s"
  by (simp_all add: sys_parts loaded_ok_def split: sys_splits)

lemma frame_resetting [frame]:
  "buffer_ok (s\<lparr>ff := (ff s)\<lparr>resetting := b\<rparr>\<rparr>) = buffer_ok s"
  "cursors_ok (s\<lparr>ff := (ff s)\<lparr>resetting := b\<rparr>\<rparr>) = cursors_ok s"
  "caches_ok (s\<lparr>ff := (ff s)\<lparr>resetting := b\<rparr>\<rparr>) = caches_ok s"
  "producer_ok (s\<lparr>ff := (ff s)\<lparr>resetting := b\<rparr>\<rparr>) = producer_ok s"
  "consumer_ok (s\<lparr>ff := (ff s)\<lparr>resetting := b\<rparr>\<rparr>) = consumer_ok s"
  by (simp_all add: sys_parts loaded_ok_def split: sys_splits)

lemma frame_buf [frame]:
  "cursors_ok (s\<lparr>ff := (ff s)\<lparr>buf := b\<rparr>\<rparr>) = cursors_ok s"
  "resetter_ok (s\<lparr>ff := (ff s)\<lparr>buf := b\<rparr>\<rparr>) = resetter_ok s"
  "caches_ok (s\<lparr>ff := (ff s)\<lparr>buf := b\<rparr>\<rparr>) = caches_ok s"
  "consumer_ok (s\<lparr>ff := (ff s)\<lparr>buf := b\<rparr>\<rparr>) = consumer_ok s"
  "loaded_ok (s\<lparr>ff := (ff s)\<lparr>buf := b\<rparr>\<rparr>) p = loaded_ok s p"
  by (simp_all add: sys_parts loaded_ok_def split: sys_splits)

lemma inv_write_call:
  assumes "sys_inv s" and "producer s = PIdle"
  shows "sys_inv (s\<lparr>producer := PLoad dat\<rparr>)"
  using assms by (simp add: sys_inv_def frame producer_ok_def)

lemma loaded_pin: "sys_inv s \<Longrightarrow> loaded_ok s (pin (ff s))"
  by (auto simp: sys_inv_def loaded_ok_def cursors_ok_def buffer_ok_def)

lemma inv_write_load_ok:
  assumes "sys_inv s" and "roomFor (ff s) (pin (ff s)) (poutCache (ff s)) dat"
  shows "sys_inv (s\<lparr>producer := PCopy (pin (ff s)) dat 0\<rparr>)"
proof -
  have gen: "genIn s = generationOf (poutCache (ff s))" using assms(2) by (rule roomFor_generation)
  then have same: "genOut s = genIn s"
    using assms(1) by (auto simp: sys_inv_def caches_ok_def cursors_ok_def)
  then obtain c where c: "c \<le> took s" "posIdx (poutCache (ff s)) = c mod fsize (ff s)"
      "wrote s < c + fsize (ff s)"
    using assms(1) gen by (auto simp: sys_inv_def caches_ok_def)
  have "wrote s + length dat < c + fsize (ff s)"
    using assms c gen same roomFor_counters [of s "pin (ff s)" "wrote s" "poutCache (ff s)" c dat]
    by (auto simp: sys_inv_def cursors_ok_def)
  then have "producer_ok (s\<lparr>producer := PCopy (pin (ff s)) dat 0\<rparr>)"
    using c gen same loaded_pin [OF assms(1)] by (auto simp: producer_ok_def frame)
  then show ?thesis using assms(1) by (simp add: sys_inv_def frame)
qed

lemma inv_write_load_stale:
  assumes "sys_inv s"
  shows "sys_inv (s\<lparr>producer := PCheck (pin (ff s)) dat\<rparr>)"
  using assms loaded_pin [OF assms] by (simp add: sys_inv_def frame producer_ok_def)

lemma inv_write_reload:
  assumes "sys_inv s" and "producer s = PCheck p dat"
  shows "roomFor (ff s) p (pout (ff s)) dat \<Longrightarrow>
      sys_inv (s\<lparr>ff := (ff s)\<lparr>poutCache := pout (ff s)\<rparr>, producer := PCopy p dat 0\<rparr>)"
    and "sys_inv (s\<lparr>ff := (ff s)\<lparr>poutCache := pout (ff s)\<rparr>, producer := PIdle\<rparr>)"
proof -
  have ld: "loaded_ok s p" using assms by (simp add: sys_inv_def producer_ok_def)
  have cur: "posIdx (pout (ff s)) = took s mod fsize (ff s)" "took s \<le> wrote s" "wrote s < took s + fsize (ff s)"
    using assms(1) by (simp_all add: sys_inv_def cursors_ok_def)
  have "caches_ok (s\<lparr>ff := (ff s)\<lparr>poutCache := pout (ff s)\<rparr>\<rparr>)"
    using assms(1) cur by (auto simp: sys_inv_def caches_ok_def)
  with assms show "sys_inv (s\<lparr>ff := (ff s)\<lparr>poutCache := pout (ff s)\<rparr>, producer := PIdle\<rparr>)"
    by (simp add: sys_inv_def frame producer_ok_def)
  assume room: "roomFor (ff s) p (pout (ff s)) dat"
  then have gen: "generationOf p = genOut s" by (rule roomFor_generation)
  then have "posIdx p = wrote s mod fsize (ff s)" using ld by (simp add: loaded_ok_def)
  then have "wrote s + length dat < took s + fsize (ff s)"
    using assms(1) room cur gen roomFor_counters [of s p "wrote s" "pout (ff s)" "took s" dat]
    by (simp add: sys_inv_def)
  then show "sys_inv (s\<lparr>ff := (ff s)\<lparr>poutCache := pout (ff s)\<rparr>, producer := PCopy p dat 0\<rparr>)"
    using assms cur gen ld \<open>caches_ok _\<close> by (auto simp: sys_inv_def frame producer_ok_def)
qed

lemma inv_write_copy:
  assumes "sys_inv s" and "producer s = PCopy p dat k" and "k < length dat"
  shows "sys_inv (s\<lparr>ff := (ff s)\<lparr>buf := (buf (ff s))[(posIdx p + k) mod fsize (ff s) := dat ! k]\<rparr>,
                    producer := PCopy p dat (Suc k)\<rparr>)" (is "sys_inv ?t")
proof -
  let ?n = "fsize (ff s)"
  have P: "loaded_ok s p" "generationOf p \<le> genOut s" "posIdx p < ?n"
    using assms(1,2) by (auto simp: sys_inv_def producer_ok_def loaded_ok_def)
  have B: "0 < ?n" "length (buf (ff s)) = ?n" using assms(1) by (auto simp: sys_inv_def buffer_ok_def)
  have same_gen: "posIdx p = wrote s mod ?n \<and> wrote s + length dat < took s + ?n \<and> took s \<le> wrote s"
    if "generationOf p = genOut s"
    using assms(1,2) that P by (auto simp: sys_inv_def producer_ok_def loaded_ok_def cursors_ok_def)
  have old: "(posIdx p + k) mod ?n \<noteq> j mod ?n" if "took s \<le> j" "j < wrote s" for j
  proof (cases "generationOf p = genOut s")
    case True
    have "(posIdx p + k) mod ?n = (wrote s + k) mod ?n" using same_gen [OF True] by (simp add: mod_add_left_eq)
    then show ?thesis using counters_distinct [of j "wrote s + k" ?n] that same_gen [OF True] assms(3) by auto
  next
    case False
    then show ?thesis using P that by (auto simp: loaded_ok_def)
  qed
  have "buffer_ok ?t"
    using assms(1) old by (auto simp: sys_inv_def buffer_ok_def frame)
  moreover have "producer_ok ?t"
  proof -
    have "buf (ff ?t) ! ((wrote s + j) mod ?n) = dat ! j" if g: "generationOf p = genOut s" and j: "j < Suc k" for j
    proof -
      have idx: "(posIdx p + k) mod ?n = (wrote s + k) mod ?n" using same_gen [OF g] by (simp add: mod_add_left_eq)
      show ?thesis
      proof (cases "j = k")
        case True
        then show ?thesis using B idx by simp
      next
        case False
        then have "(wrote s + j) mod ?n \<noteq> (wrote s + k) mod ?n"
          using counters_distinct [of "wrote s + j" "wrote s + k" ?n] j same_gen [OF g] assms(3) by simp
        then show ?thesis
          using assms(1,2) False j g idx by (simp add: sys_inv_def producer_ok_def)
      qed
    qed
    then show ?thesis using assms P by (auto simp: sys_inv_def producer_ok_def frame)
  qed
  ultimately show ?thesis using assms(1) by (simp add: sys_inv_def frame)
qed

lemma writeEnd_pos:
  assumes "buffer_ok s" and "posIdx p < fsize (ff s)" and "length dat < fsize (ff s)"
  shows "generationOf (writeEnd (ff s) p dat) = generationOf p"
    and "posIdx (writeEnd (ff s) p dat) = (posIdx p + length dat) mod fsize (ff s)"
  using assms writeBlock_eq(2) [of "indexOf p" "fsize (ff s)" "nelem (ff s)" "int (length dat)" _ _ dat]
  by (simp_all add: writeEnd_def buffer_ok_def posIdx_def)

lemma readEnd_pos:
  assumes "buffer_ok s" and "posIdx p < fsize (ff s)" and "0 \<le> len" and "len < nelem (ff s)"
  shows "generationOf (readEnd (ff s) p len) = generationOf p"
    and "posIdx (readEnd (ff s) p len) = (posIdx p + nat len) mod fsize (ff s)"
  using assms readBlock_eq(2) [of "indexOf p" "fsize (ff s)" "nelem (ff s)" len "buf (ff s)"]
  by (simp_all add: readEnd_def buffer_ok_def posIdx_def)

lemma inv_write_commit:
  assumes inv: "sys_inv s" and pc: "producer s = PCopy p dat (length dat)" and cas: "pin (ff s) = p"
  shows "sys_inv (s\<lparr>ff := (ff s)\<lparr>pin := writeEnd (ff s) p dat\<rparr>, producer := PIdle,
                    sent := (sent s)(generationOf p := sent s (generationOf p) @ dat)\<rparr>)" (is "sys_inv ?t")
proof -
  let ?n = "fsize (ff s)"
  have B: "buffer_ok s" and C: "cursors_ok s" and K: "caches_ok s"
    using inv by (simp_all add: sys_inv_def)
  have gen: "generationOf p = genOut s" "genIn s = genOut s" and P: "loaded_ok s p"
    using inv pc cas C by (auto simp: sys_inv_def producer_ok_def cursors_ok_def)
  obtain c where c: "c \<le> took s" "posIdx (poutCache (ff s)) = c mod ?n"
      "wrote s + length dat < c + ?n" and pc_gen: "generationOf (poutCache (ff s)) = genOut s"
      and filled: "\<forall>j < length dat. buf (ff s) ! ((wrote s + j) mod ?n) = dat ! j"
    using inv pc gen by (auto simp: sys_inv_def producer_ok_def)
  have took: "took s \<le> wrote s" using C by (simp add: cursors_ok_def)
  have small: "length dat < ?n" using c took by simp
  have idx: "posIdx p < ?n" "posIdx p = wrote s mod ?n" using P gen by (auto simp: loaded_ok_def)
  note E = writeEnd_pos [OF B idx(1) small]
  have t: "genIn ?t = genOut s" "genOut ?t = genOut s" "sent ?t (genOut s) = sent s (genOut s) @ dat"
    "fsize (ff ?t) = ?n" "received ?t = received s"
    using E gen by simp_all
  have "buffer_ok ?t"
  proof -
    have "buf (ff s) ! (j mod ?n) = (sent s (genOut s) @ dat) ! j" if "took s \<le> j" "j < wrote s + length dat" for j
      using that B filled [rule_format, of "j - wrote s"] by (cases "j < wrote s") (auto simp: buffer_ok_def nth_append)
    then show ?thesis using B gen by (simp add: buffer_ok_def)
  qed
  moreover have "cursors_ok ?t"
  proof -
    have "posIdx (writeEnd (ff s) p dat) = (wrote s + length dat) mod ?n"
      using E idx by (simp add: mod_add_left_eq)
    moreover have "take (took s) (sent s (genOut s) @ dat) = received s (genOut s)"
      using C took by (simp add: cursors_ok_def)
    ultimately show ?thesis using C gen c E by (auto simp: cursors_ok_def)
  qed
  moreover have "resetter_ok ?t"
  proof -
    have "resetter_ok s" using inv by (simp add: sys_inv_def)
    then show ?thesis using gen E(1) by (cases "resetter s") (simp_all add: resetter_ok_def)
  qed
  moreover have "caches_ok ?t"
  proof -
    have "\<exists>d \<le> wrote s + length dat. posIdx (pinCache (ff s)) = d mod ?n \<and> took s \<le> d"
      if "generationOf (pinCache (ff s)) = genOut s"
      using K that by (auto simp: caches_ok_def intro: trans_le_add1)
    then show ?thesis using K gen c pc_gen E t by (auto simp: caches_ok_def)
  qed
  moreover have "consumer_ok ?t"
  proof -
    have mono: "\<exists>d \<le> wrote s + length dat. posIdx (pinCache (ff s)) = d mod ?n \<and> took s + nat len \<le> d"
      if "\<exists>d \<le> wrote s. posIdx (pinCache (ff s)) = d mod ?n \<and> took s + nat len \<le> d" for len
      using that by (auto intro: trans_le_add1)
    have pre: "take (length acc) (drop (took s) (sent s (genOut s) @ dat)) = acc"
      if "take (length acc) (drop (took s) (sent s (genOut s))) = acc" for acc :: "'a list"
    proof -
      have "length acc \<le> wrote s - took s" using arg_cong [OF that, of length] by simp
      then show ?thesis using that by simp
    qed
    show ?thesis using inv gen E mono pre
      by (auto simp: sys_inv_def consumer_ok_def split: consumer.splits)
  qed
  ultimately show ?thesis by (simp add: sys_inv_def producer_ok_def)
qed

lemma sys_pout:
  assumes "sys_inv s"
  shows "posIdx (pout (ff s)) = took s mod fsize (ff s)" and "posIdx (pout (ff s)) < fsize (ff s)"
    and "took s \<le> wrote s" and "wrote s < took s + fsize (ff s)"
  using assms by (auto simp: sys_inv_def cursors_ok_def buffer_ok_def)

lemma inv_read_call:
  assumes "sys_inv s" and "0 \<le> len" and "len < 2 ^ 31"
  shows "sys_inv (s\<lparr>consumer := CLoad len\<rparr>)"
  using assms by (simp add: sys_inv_def frame consumer_ok_def)

lemma inv_read_load_ok:
  assumes "sys_inv s" and "consumer s = CLoad len" and "dataFor (ff s) (pinCache (ff s)) (pout (ff s)) len"
  shows "sys_inv (s\<lparr>consumer := CCopy (pout (ff s)) len []\<rparr>)"
proof -
  have len: "0 \<le> len" "len < 2 ^ 31" using assms(1,2) by (simp_all add: sys_inv_def consumer_ok_def)
  have gen: "generationOf (pinCache (ff s)) = genOut s" using assms(3) by (rule dataFor_generation)
  then obtain d where d: "d \<le> wrote s" "posIdx (pinCache (ff s)) = d mod fsize (ff s)" "took s \<le> d"
    using assms(1) by (auto simp: sys_inv_def caches_ok_def)
  have "took s + nat len \<le> d"
    using dataFor_counters [of s "pinCache (ff s)" d "pout (ff s)" "took s" len] d gen len assms(1,3)
      sys_pout [OF assms(1)] by (simp add: sys_inv_def)
  then have "consumer_ok (s\<lparr>consumer := CCopy (pout (ff s)) len []\<rparr>)"
    using d gen len by (auto simp: consumer_ok_def)
  then show ?thesis using assms(1) by (simp add: sys_inv_def frame)
qed

lemma inv_read_load_stale:
  assumes "sys_inv s" and "consumer s = CLoad len"
  shows "sys_inv (s\<lparr>consumer := CCheck (pout (ff s)) len\<rparr>)"
  using assms sys_pout [OF assms(1)] by (simp add: sys_inv_def frame consumer_ok_def)

lemma caches_reload_pin:
  assumes "sys_inv s"
  shows "caches_ok (s\<lparr>ff := (ff s)\<lparr>pinCache := pin (ff s)\<rparr>\<rparr>)"
proof -
  have R: "resetter_ok s" and C: "cursors_ok s" and K: "caches_ok s" using assms by (simp_all add: sys_inv_def)
  have "genOut s < genIn s \<Longrightarrow> sent s (genIn s) = []"
    using R by (cases "resetter s") (simp_all add: resetter_ok_def)
  then show ?thesis using C K by (auto simp: caches_ok_def cursors_ok_def)
qed

lemma inv_read_reload:
  assumes "sys_inv s" and "consumer s = CCheck p len"
  shows "dataFor (ff s) (pin (ff s)) p len \<Longrightarrow>
      sys_inv (s\<lparr>ff := (ff s)\<lparr>pinCache := pin (ff s)\<rparr>, consumer := CCopy p len []\<rparr>)"
    and "sys_inv (s\<lparr>ff := (ff s)\<lparr>pinCache := pin (ff s)\<rparr>, consumer := CIdle\<rparr>)"
proof -
  show "sys_inv (s\<lparr>ff := (ff s)\<lparr>pinCache := pin (ff s)\<rparr>, consumer := CIdle\<rparr>)"
    using assms caches_reload_pin [OF assms(1)] by (simp add: sys_inv_def frame consumer_ok_def)
  assume dat: "dataFor (ff s) (pin (ff s)) p len"
  have P: "0 \<le> len" "len < 2 ^ 31" "generationOf p \<le> genOut s"
      "generationOf p = genOut s \<longrightarrow> pout (ff s) = p"
    using assms by (simp_all add: sys_inv_def consumer_ok_def)
  have C: "genOut s \<le> genIn s" "posIdx (pin (ff s)) = length (sent s (genIn s)) mod fsize (ff s)"
    using assms(1) by (simp_all add: sys_inv_def cursors_ok_def)
  have gen: "genIn s = genOut s" "generationOf p = genOut s"
    using dataFor_generation [OF dat] P C by auto
  have "dataFor (ff s) (pin (ff s)) p len \<longleftrightarrow> took s + nat len \<le> wrote s"
  proof (rule dataFor_counters)
    show "buffer_ok s" using assms(1) by (simp add: sys_inv_def)
    show "posIdx (pin (ff s)) = wrote s mod fsize (ff s)" using C(2) gen(1) by simp
    show "posIdx p = took s mod fsize (ff s)" using P(4) gen(2) sys_pout(1) [OF assms(1)] by blast
    show "genIn s = generationOf p" using gen by metis
  qed (use P(1,2) sys_pout(3,4) [OF assms(1)] in simp_all)
  then have "took s + nat len \<le> wrote s" using dat by blast
  moreover have "p = pout (ff s)" using P(4) gen(2) by blast
  ultimately have "consumer_ok (s\<lparr>ff := (ff s)\<lparr>pinCache := pin (ff s)\<rparr>, consumer := CCopy p len []\<rparr>)"
    using P(1) C(2) gen(1) by (auto simp: consumer_ok_def)
  then show "sys_inv (s\<lparr>ff := (ff s)\<lparr>pinCache := pin (ff s)\<rparr>, consumer := CCopy p len []\<rparr>)"
    using assms(1) caches_reload_pin [OF assms(1)] by (simp add: sys_inv_def frame)
qed

lemma inv_read_copy:
  assumes "sys_inv s" and "consumer s = CCopy p len acc" and "int (length acc) < len"
  shows "sys_inv (s\<lparr>consumer := CCopy p len (acc @ [buf (ff s) ! ((posIdx p + length acc) mod fsize (ff s))])\<rparr>)"
proof -
  let ?x = "buf (ff s) ! ((posIdx p + length acc) mod fsize (ff s))"
  have Q: "0 \<le> len" "generationOf p \<le> genOut s"
    "generationOf p = genOut s \<longrightarrow> pout (ff s) = p \<and> generationOf (pinCache (ff s)) = generationOf p \<and>
       (\<exists>d \<le> wrote s. posIdx (pinCache (ff s)) = d mod fsize (ff s) \<and> took s + nat len \<le> d) \<and>
       take (length acc) (drop (took s) (sent s (genOut s))) = acc \<and> length acc \<le> nat len"
    using assms(1,2) by (simp_all add: sys_inv_def consumer_ok_def)
  have "take (Suc (length acc)) (drop (took s) (sent s (genOut s))) = acc @ [?x]"
    if g: "generationOf p = genOut s"
  proof -
    obtain d where d: "d \<le> wrote s" "took s + nat len \<le> d" and p: "pout (ff s) = p"
        and acc: "take (length acc) (drop (took s) (sent s (genOut s))) = acc"
      using Q(3) g by blast
    have "(posIdx p + length acc) mod fsize (ff s) = (took s + length acc) mod fsize (ff s)"
      using sys_pout(1) [OF assms(1)] p by (simp add: mod_add_left_eq)
    moreover have "took s + length acc < wrote s" using d assms(3) by linarith
    ultimately have "?x = sent s (genOut s) ! (took s + length acc)"
      using assms(1) by (simp add: sys_inv_def buffer_ok_def)
    then show ?thesis using acc \<open>took s + length acc < wrote s\<close>
      by (simp add: take_Suc_conv_app_nth)
  qed
  then have "consumer_ok (s\<lparr>consumer := CCopy p len (acc @ [?x])\<rparr>)"
    using Q assms(3) by (simp add: consumer_ok_def) linarith
  then show ?thesis using assms(1) by (simp add: sys_inv_def frame)
qed

lemma inv_read_commit:
  assumes inv: "sys_inv s" and pc: "consumer s = CCopy p len acc" and full: "int (length acc) = len"
    and cas: "pout (ff s) = p"
  shows "sys_inv (s\<lparr>ff := (ff s)\<lparr>pout := readEnd (ff s) p len\<rparr>, consumer := CIdle,
                    received := (received s)(generationOf p := received s (generationOf p) @ acc)\<rparr>)"
    (is "sys_inv ?t")
proof -
  let ?n = "fsize (ff s)" and ?g = "genOut s" and ?k = "length acc"
  have B: "buffer_ok s" and C: "cursors_ok s" and K: "caches_ok s" and R: "resetter_ok s"
    and P: "producer_ok s"
    using inv by (simp_all add: sys_inv_def)
  have g: "generationOf p = ?g" using cas by simp
  have Q: "generationOf (pinCache (ff s)) = ?g \<and>
       (\<exists>d \<le> wrote s. posIdx (pinCache (ff s)) = d mod ?n \<and> took s + ?k \<le> d) \<and>
       take ?k (drop (took s) (sent s ?g)) = acc"
    using inv pc full cas by (auto simp: sys_inv_def consumer_ok_def)
  then obtain d where d: "d \<le> wrote s" "posIdx (pinCache (ff s)) = d mod ?n" "took s + ?k \<le> d" by blast
  note pout = sys_pout [OF inv]
  have "len < nelem (ff s)" using d(1,3) pout(3,4) full B by (simp add: buffer_ok_def)
  note E = readEnd_pos [OF B pout(2) _ this]
  have end_pos: "generationOf (readEnd (ff s) p len) = ?g" "posIdx (readEnd (ff s) p len) = (took s + ?k) mod ?n"
    using E full cas pout(1) by (auto simp: mod_add_left_eq)
  have t: "genIn ?t = genIn s" "genOut ?t = ?g" "sent ?t = sent s" "fsize (ff ?t) = ?n"
    "received ?t ?g = received s ?g @ acc" "buf (ff ?t) = buf (ff s)" "nelem (ff ?t) = nelem (ff s)"
    using end_pos(1) g by simp_all
  have "buffer_ok ?t" using B end_pos(1) g by (simp add: buffer_ok_def)
  moreover have "cursors_ok ?t"
  proof -
    have "take (took s + ?k) (sent s ?g) = received s ?g @ acc"
      using C Q by (simp add: cursors_ok_def take_add)
    then show ?thesis using C end_pos g d by (auto simp: cursors_ok_def)
  qed
  moreover have "resetter_ok ?t"
    using R end_pos(1) by (cases "resetter s") (simp_all add: resetter_ok_def)
  moreover have "caches_ok ?t"
  proof -
    have "\<exists>c \<le> took s + ?k. posIdx (poutCache (ff s)) = c mod ?n \<and> wrote s < c + ?n"
      if "generationOf (poutCache (ff s)) = ?g"
      using K that by (auto simp: caches_ok_def intro: trans_le_add1)
    then show ?thesis using K end_pos(1) g d by (auto simp: caches_ok_def)
  qed
  moreover have "producer_ok ?t"
  proof -
    define u where "u = ?t"
    have u: "producer u = producer s" "genIn u = genIn s" "genOut u = ?g" "sent u = sent s"
      "length (received u ?g) = took s + ?k" "fsize (ff u) = ?n" "poutCache (ff u) = poutCache (ff s)" "buf (ff u) = buf (ff s)"
      using end_pos(1) g by (simp_all add: u_def)
    have ld: "loaded_ok u q = loaded_ok s q" for q using end_pos(1) by (simp add: u_def loaded_ok_def)
    have mono: "\<exists>c \<le> took s + ?k. posIdx (poutCache (ff s)) = c mod ?n \<and> wrote s + m < c + ?n"
      if "\<exists>c \<le> took s. posIdx (poutCache (ff s)) = c mod ?n \<and> wrote s + m < c + ?n" for m
      using that by (auto intro: trans_le_add1)
    have "producer_ok u" using P mono unfolding producer_ok_def u ld
      by (cases "producer s") auto
    then show ?thesis by (simp add: u_def)
  qed
  ultimately show ?thesis by (simp add: sys_inv_def consumer_ok_def)
qed

lemma inv_reset_pin:
  assumes "sys_inv s" and "resetter s = RLoaded p"
  shows "sys_inv (s\<lparr>ff := (ff s)\<lparr>pin := p\<rparr>, resetter := RPin p\<rparr>)" (is "sys_inv ?t")
proof -
  have B: "buffer_ok s" and C: "cursors_ok s" and K: "caches_ok s" and P: "producer_ok s"
    and Q: "consumer_ok s"
    using assms(1) by (simp_all add: sys_inv_def)
  have r: "genOut s = genIn s" "genIn s < generationOf p" "posIdx p = 0"
    using assms by (simp_all add: sys_inv_def resetter_ok_def)
  then have empty: "sent s (generationOf p) = []" using C by (simp add: cursors_ok_def)
  have "buffer_ok ?t" using B by (simp add: buffer_ok_def)
  moreover have "cursors_ok ?t" using C r empty by (auto simp: cursors_ok_def)
  moreover have "resetter_ok ?t" using r empty by (simp add: resetter_ok_def)
  moreover have "caches_ok ?t" using K r by (auto simp: caches_ok_def)
  moreover have "producer_ok ?t"
  proof -
    have "loaded_ok s q \<Longrightarrow> loaded_ok ?t q" for q using r empty by (auto simp: loaded_ok_def)
    then show ?thesis using P by (cases "producer s") (simp_all add: producer_ok_def)
  qed
  moreover have "consumer_ok ?t" using Q by (simp add: consumer_ok_def split: consumer.splits)
  ultimately show ?thesis by (simp add: sys_inv_def)
qed

lemma inv_reset_pout:
  assumes "sys_inv s" and "resetter s = RPin p"
  shows "sys_inv (s\<lparr>ff := (ff s)\<lparr>pout := p\<rparr>, resetter := RPout\<rparr>)" (is "sys_inv ?t")
proof -
  have B: "buffer_ok s" and C: "cursors_ok s" and K: "caches_ok s" and P: "producer_ok s"
    and Q: "consumer_ok s"
    using assms(1) by (simp_all add: sys_inv_def)
  have r: "genOut s < genIn s" "generationOf p = genIn s" "posIdx p = 0" "sent s (genIn s) = []"
    using assms by (simp_all add: sys_inv_def resetter_ok_def)
  then have empty: "received s (genIn s) = []" using C by (simp add: cursors_ok_def)
  have n: "0 < fsize (ff s)" using B by (simp add: buffer_ok_def)
  have "buffer_ok ?t" using B r by (simp add: buffer_ok_def)
  moreover have "cursors_ok ?t" using C r empty n by (auto simp: cursors_ok_def)
  moreover have "resetter_ok ?t" using r by (simp add: resetter_ok_def)
  moreover have "caches_ok ?t" using K r empty n by (auto simp: caches_ok_def)
  moreover have "producer_ok ?t"
  proof -
    have "loaded_ok s q \<Longrightarrow> loaded_ok ?t q" for q
      using r C by (auto simp: loaded_ok_def cursors_ok_def)
    then show ?thesis using P r by (cases "producer s") (auto simp: producer_ok_def)
  qed
  moreover have "consumer_ok ?t" using Q r by (auto simp: consumer_ok_def split: consumer.splits)
  ultimately show ?thesis by (simp add: sys_inv_def)
qed

lemma inv_reset_lock:
  assumes "sys_inv s"
  shows "resetter s = RIdle \<Longrightarrow> sys_inv (s\<lparr>ff := (ff s)\<lparr>resetting := True\<rparr>, resetter := RLocked\<rparr>)"
    and "resetter s = RPout \<Longrightarrow> sys_inv (s\<lparr>ff := (ff s)\<lparr>resetting := False\<rparr>, resetter := RIdle\<rparr>)"
  using assms by (simp_all add: sys_inv_def frame resetter_ok_def)

lemma inv_reset_load:
  assumes "sys_inv s" and "resetter s = RLocked" and "genIn s \<noteq> -1"
  shows "sys_inv (s\<lparr>resetter := RLoaded (makePos (genIn s + 1) 0)\<rparr>)"
proof -
  have "genIn s < genIn s + 1" using assms(3) inc_less_eq_self_iff_eq [of "genIn s"] by fastforce
  then show ?thesis using assms by (simp add: sys_inv_def frame resetter_ok_def)
qed

lemma inv_abandon:
  assumes "sys_inv s"
  shows "sys_inv (s\<lparr>producer := PIdle\<rparr>)" and "sys_inv (s\<lparr>consumer := CIdle\<rparr>)"
proof -
  show "sys_inv (s\<lparr>producer := PIdle\<rparr>)" using assms by (simp add: sys_inv_def frame producer_ok_def)
  show "sys_inv (s\<lparr>consumer := CIdle\<rparr>)" using assms by (simp add: sys_inv_def frame consumer_ok_def)
qed

theorem fifo_step_inv: "fifo_step s t \<Longrightarrow> sys_inv s \<Longrightarrow> sys_inv t"
  by (induction rule: fifo_step.induct)
    (blast intro: inv_write_call inv_write_load_ok inv_write_load_stale inv_write_reload inv_write_copy
      inv_write_commit inv_abandon inv_read_call inv_read_load_ok inv_read_load_stale inv_read_reload
      inv_read_copy inv_read_commit inv_reset_lock inv_reset_load inv_reset_pin inv_reset_pout)+

lemma fifo_reach_inv:
  assumes "fifo_reach (fifo_new len inBuf fresh) s" and "0 < len" and "len < 2 ^ 31"
    and "length (case inBuf of Some b \<Rightarrow> b | None \<Rightarrow> fresh len) = nat len"
  shows "sys_inv s"
  using assms(1)
proof (induction rule: fifo_reach.induct)
  case start
  have "fifo_inv (fifo_new len inBuf fresh)" using assms(2-4) by (rule fifo_new_inv(1))
  then show ?case by (rule sys_inv_init) (simp_all add: fifo_new_def)
next
  case (step s t)
  then show ?case by (blast intro: fifo_step_inv)
qed

subsection \<open>Properties\<close>

text \<open>
  C4: Under every interleaving of one writer, one reader and any number of resets, at the level of
  single atomic accesses and single copied elements, what successful reads returned in a generation
  is a prefix of what successful writes stored in that generation: no sample is lost, duplicated,
  reordered or torn, and no sample from before a reset is delivered after it as if it were new.
\<close>

theorem fifo_concurrent_reads_are_prefix:
  assumes "fifo_reach (fifo_new len inBuf fresh) s" and "0 < len" and "len < 2 ^ 31"
    and "length (case inBuf of Some b \<Rightarrow> b | None \<Rightarrow> fresh len) = nat len"
  shows "\<exists>rest. sent s g = received s g @ rest"
proof -
  have "take (length (received s g)) (sent s g) = received s g"
    using fifo_reach_inv [OF assms] by (simp add: sys_inv_def cursors_ok_def)
  then show ?thesis by (metis append_take_drop_id)
qed


text \<open>
  A concrete interleaving: 7 is written into a FIFO of three elements and read back. \<open>demo_fifo\<close>
  is the FIFO, \<open>demo_end\<close> the state at the end of the run.
\<close>

definition demo_fifo :: "int fifo" where
  "demo_fifo = fifo_new 3 None (\<lambda>_. [0, 0, 0])"

definition demo_end :: "int fifo_sys" where
  "demo_end = \<lparr>ff = demo_fifo\<lparr>buf := [7, 0, 0], pin := makePos 0 1, pinCache := makePos 0 1, pout := makePos 0 1\<rparr>,
     producer = PIdle, consumer = CIdle, resetter = RIdle,
     sent = (\<lambda>_. [])(0 := [7]), received = (\<lambda>_. [])(0 := [7])\<rparr>"

lemma three_not_le_one: "\<not> (3 :: u32) \<le> 1"
  by (simp add: word_le_nat_alt)

lemmas demo_simps = three_not_le_one demo_fifo_def fifo_new_def sys_init_def lacksRoom_def lacksData_def computeUsed_def
  writeEnd_def readEnd_def writeBlock_def readBlock_def blockLen_def fsize_def splice_at_def Let_def

lemma demo_write:
  "fifo_reach demo_fifo (sys_init (demo_fifo\<lparr>buf := [7, 0, 0], pin := makePos 0 1\<rparr>)
     \<lparr>sent := (\<lambda>_. [])(0 := [7])\<rparr>)" (is "fifo_reach _ ?w")
proof -
  let ?s0 = "sys_init demo_fifo"
  let ?s1 = "?s0\<lparr>producer := PLoad [7]\<rparr>"
  let ?s2 = "?s0\<lparr>producer := PCopy (makePos 0 0) [7] 0\<rparr>"
  let ?s3 = "?s0\<lparr>ff := demo_fifo\<lparr>buf := [7, 0, 0]\<rparr>, producer := PCopy (makePos 0 0) [7] 1\<rparr>"
  have 1: "fifo_step ?s0 ?s1" by (rule write_call) (simp_all add: demo_simps)
  have 2: "fifo_step ?s1 ?s2" using write_load_ok [of ?s1 "[7]"] by (simp add: demo_simps)
  have 3: "fifo_step ?s2 ?s3" using write_copy [of ?s2 "makePos 0 0" "[7]" 0] by (simp add: demo_simps)
  have 4: "fifo_step ?s3 ?w" using write_commit [of ?s3 "makePos 0 0" "[7]"] by (simp add: demo_simps)
  show ?thesis using fifo_reach.start fifo_reach.step 1 2 3 4 by meson
qed

lemma demo_run: "fifo_reach demo_fifo demo_end"
proof -
  let ?f = "demo_fifo\<lparr>buf := [7, 0, 0], pin := makePos 0 1\<rparr>"
  let ?w = "sys_init ?f\<lparr>sent := (\<lambda>_. [])(0 := [7])\<rparr>"
  let ?s1 = "?w\<lparr>consumer := CLoad 1\<rparr>"
  let ?s2 = "?w\<lparr>consumer := CCheck (makePos 0 0) 1\<rparr>"
  let ?s3 = "?w\<lparr>ff := ?f\<lparr>pinCache := makePos 0 1\<rparr>, consumer := CCopy (makePos 0 0) 1 []\<rparr>"
  let ?s4 = "?w\<lparr>ff := ?f\<lparr>pinCache := makePos 0 1\<rparr>, consumer := CCopy (makePos 0 0) 1 [7]\<rparr>"
  have 1: "fifo_step ?w ?s1" by (rule read_call) (simp_all add: demo_simps)
  have 2: "fifo_step ?s1 ?s2" using read_load_stale [of ?s1 1] by (simp add: demo_simps)
  have 3: "fifo_step ?s2 ?s3" using read_reload_ok [of ?s2 "makePos 0 0" 1] by (simp add: demo_simps)
  have 4: "fifo_step ?s3 ?s4" using read_copy [of ?s3 "makePos 0 0" 1 "[]"] by (simp add: demo_simps)
  have 5: "fifo_step ?s4 demo_end"
    using read_commit [of ?s4 "makePos 0 0" 1 "[7]"] by (simp add: demo_simps demo_end_def)
  show ?thesis using demo_write fifo_reach.step 1 2 3 4 5 by meson
qed

theorem fifo_concurrent_reads_are_prefix_witness:
  "received demo_end 0 = [7] \<and> (\<exists>rest. sent demo_end 0 = received demo_end 0 @ rest)"
  using fifo_concurrent_reads_are_prefix [OF demo_run [unfolded demo_fifo_def]]
  by (simp add: demo_end_def)


end
