(* ===== verification/Sample_Blocks.thy ===== *)
theory Sample_Blocks
  imports FDV_Prelude
begin

text \<open>
  Cutting a stream of samples into blocks, the reference that the block loops of the pipeline steps are
  compared with: \<open>chunks\<close> cuts everything (the last block may be short), \<open>frames\<close> cuts full blocks and
  leaves \<open>leftover\<close> for the next call.
\<close>

type_synonym short = "16 word"

function chunks :: "nat \<Rightarrow> 'a list \<Rightarrow> 'a list list" where
  "chunks k xs = (if k = 0 \<or> xs = [] then [] else take k xs # chunks k (drop k xs))"
  by auto
termination by (relation "measure (\<lambda>(k, xs). length xs)") auto

function frames :: "nat \<Rightarrow> 'a list \<Rightarrow> 'a list list" where
  "frames k xs = (if k = 0 \<or> length xs < k then [] else take k xs # frames k (drop k xs))"
  by auto
termination by (relation "measure (\<lambda>(k, xs). length xs)") auto

definition leftover :: "nat \<Rightarrow> 'a list \<Rightarrow> 'a list" where
  "leftover k xs = drop (k * (length xs div k)) xs"

declare chunks.simps [simp del] frames.simps [simp del]

lemma chunks_Nil [simp]: "chunks k [] = []" "chunks 0 xs = []"
  by (simp_all add: chunks.simps)

lemma chunks_step: "0 < k \<Longrightarrow> xs \<noteq> [] \<Longrightarrow> chunks k xs = take k xs # chunks k (drop k xs)"
  by (subst chunks.simps) simp

lemma concat_chunks: "0 < k \<Longrightarrow> concat (chunks k xs) = xs"
proof (induction k xs rule: chunks.induct)
  case (1 k xs)
  then show ?case by (cases "xs = []") (simp_all add: chunks_step)
qed

lemma chunks_block: "b \<in> set (chunks k xs) \<Longrightarrow> b \<noteq> [] \<and> length b \<le> k"
proof (induction k xs rule: chunks.induct)
  case (1 k xs)
  then show ?case by (cases "k = 0 \<or> xs = []") (auto simp: chunks_step)
qed

lemma length_chunks: "0 < k \<Longrightarrow> length (chunks k xs) = (length xs + k - 1) div k"
proof (induction k xs rule: chunks.induct)
  case (1 k xs)
  show ?case
  proof (cases "xs = []")
    case False
    then have IH: "length (chunks k xs) = Suc ((length xs - k + k - 1) div k)" using 1 by (simp add: chunks_step)
    show ?thesis
    proof (cases "k \<le> length xs")
      case True
      then have eq: "length xs + k - 1 = (length xs - k + k - 1) + k" using 1(2) by simp
      have "(length xs - k + k - 1 + k) div k = Suc ((length xs - k + k - 1) div k)" using 1(2) by (simp only: div_add_self2)
      then show ?thesis unfolding IH eq by (simp only:)
    next
      case short: False
      have eq: "length xs + k - 1 = (length xs - 1) + k" using False by (cases xs) auto
      have "(length xs - 1 + k) div k = Suc ((length xs - 1) div k)" using 1(2) by (simp only: div_add_self2)
      then show ?thesis unfolding IH eq using 1(2) short by simp
    qed
  qed (use 1 in simp)
qed

lemma frames_short: "length xs < k \<Longrightarrow> frames k xs = []"
  by (simp add: frames.simps)

lemma frames_step: "0 < k \<Longrightarrow> k \<le> length xs \<Longrightarrow> frames k xs = take k xs # frames k (drop k xs)"
  by (subst frames.simps) simp

lemma frames_exact: "0 < k \<Longrightarrow> length xs = k \<Longrightarrow> frames k xs = [xs]"
  by (simp add: frames_step frames_short)

lemma leftover_short: "length xs < k \<Longrightarrow> leftover k xs = xs"
  by (simp add: leftover_def)

lemma leftover_step: "0 < k \<Longrightarrow> k \<le> length xs \<Longrightarrow> leftover k xs = leftover k (drop k xs)"
  by (simp add: leftover_def le_div_geq add.commute)

lemma length_leftover: "0 < k \<Longrightarrow> length (leftover k xs) < k"
  by (simp add: leftover_def minus_mult_div_eq_mod)

lemma frames_block: "b \<in> set (frames k xs) \<Longrightarrow> length b = k"
proof (induction k xs rule: frames.induct)
  case (1 k xs)
  then show ?case by (cases "k = 0 \<or> length xs < k") (auto simp: frames_step frames.simps [of 0] frames_short)
qed

lemma concat_frames: "0 < k \<Longrightarrow> concat (frames k xs) @ leftover k xs = xs"
proof (induction k xs rule: frames.induct)
  case (1 k xs)
  then show ?case by (cases "length xs < k") (simp_all add: frames_short leftover_short frames_step leftover_step)
qed

lemma frames_append:
  "0 < k \<Longrightarrow> frames k (xs @ ys) = frames k xs @ frames k (leftover k xs @ ys) \<and> leftover k (xs @ ys) = leftover k (leftover k xs @ ys)"
proof (induction k xs rule: frames.induct)
  case (1 k xs)
  then show ?case
    by (cases "length xs < k") (simp_all add: frames_short leftover_short frames_step leftover_step)
qed

lemma length_frames: "0 < k \<Longrightarrow> length (frames k xs) = length xs div k"
proof (induction k xs rule: frames.induct)
  case (1 k xs)
  then show ?case by (cases "length xs < k") (simp_all add: frames_short frames_step le_div_geq)
qed

subsection \<open>Stateful processing of blocks\<close>

text \<open>A processor with a state is applied to the blocks in order; its outputs are joined.\<close>

fun flow :: "('s \<Rightarrow> 'a \<Rightarrow> 'b list \<times> 's) \<Rightarrow> 's \<Rightarrow> 'a list \<Rightarrow> 'b list \<times> 's" where
  "flow f s [] = ([], s)"
| "flow f s (x # xs) = (let (u, s1) = f s x; (v, s2) = flow f s1 xs in (u @ v, s2))"

lemma flow_append:
  "flow f s (xs @ ys) = (let (u, s1) = flow f s xs; (v, s2) = flow f s1 ys in (u @ v, s2))"
  by (induction xs arbitrary: s) (simp_all add: Let_def case_prod_unfold)

lemma flow_length_le:
  "(\<And>s x. x \<in> set xs \<Longrightarrow> length (fst (f s x)) \<le> n) \<Longrightarrow> length (fst (flow f s xs)) \<le> length xs * n"
proof (induction xs arbitrary: s)
  case (Cons x xs)
  have "length (fst (f s x)) \<le> n" "length (fst (flow f (snd (f s x)) xs)) \<le> length xs * n"
    using Cons.prems Cons.IH by (auto intro: Cons.IH)
  then show ?case by (simp add: Let_def case_prod_unfold)
qed simp

lemma flow_length:
  "(\<And>s x. x \<in> set xs \<Longrightarrow> length (fst (f s x)) = n) \<Longrightarrow> length (fst (flow f s xs)) = length xs * n"
  by (induction xs arbitrary: s) (simp_all add: Let_def case_prod_unfold)

end
