(* ===== verification/Audio_Pipeline.thy ===== *)
theory Audio_Pipeline
  imports Sample_Blocks
begin

text \<open>
  \<^verbatim>\<open>src/src/pipeline/ResampleStep.cpp\<close> and \<^verbatim>\<open>src/src/pipeline/AudioPipeline.cpp\<close>. The library libsamplerate
  is a parameter, the record \<open>src_api\<close>. A pipeline step is its state with the record \<open>step_ops\<close> of the
  virtual functions of \<^verbatim>\<open>IPipelineStep\<close>; a pointer and a sample count are a list. \<open>None\<close> is a failed
  assertion or a call that does not return.
\<close>

subsection \<open>ResampleStep\<close>

text \<open>
  \<open>src_process st ratio_out ratio_in data output_frames\<close> returns the error code, the frames generated and
  the new state.
\<close>

record ('f, 'src) src_api =
  src_new :: "bool \<Rightarrow> 'src"
  src_short_to_float :: "short list \<Rightarrow> 'f list"
  src_process :: "'src \<Rightarrow> int \<Rightarrow> int \<Rightarrow> 'f list \<Rightarrow> int \<Rightarrow> int \<times> 'f list \<times> 'src"
  src_float_to_short :: "'f list \<Rightarrow> short list"
  src_reset :: "'src \<Rightarrow> 'src"

record 'src resample_step =
  rsInputSampleRate :: int
  rsOutputSampleRate :: int
  resampleState :: 'src

definition resample_new :: "('f, 'src) src_api \<Rightarrow> int \<Rightarrow> int \<Rightarrow> 'src resample_step" where
  "resample_new api inRate outRate =
     \<lparr>rsInputSampleRate = inRate, rsOutputSampleRate = outRate, resampleState = src_new api False\<rparr>"

partial_function (option) resampleLoop ::
  "('f, 'src) src_api \<Rightarrow> 'src resample_step \<Rightarrow> short list \<Rightarrow> short list \<Rightarrow> (short list \<times> 'src resample_step) option" where
  "resampleLoop api rs inp out =
     (if inp \<noteq> [] then
        let inputSize = min (int (length inp)) (c_div (rsInputSampleRate rs * 10) 1000);
            outputSize = c_div (rsOutputSampleRate rs * 20) 1000;
            data_in = src_short_to_float api (take (nat inputSize) inp);
            (ret, gen, st) = src_process api (resampleState rs) (rsOutputSampleRate rs) (rsInputSampleRate rs) data_in outputSize
        in if ret \<noteq> 0 \<or> int (length gen) > outputSize then None
           else resampleLoop api (rs\<lparr>resampleState := st\<rparr>) (drop (nat inputSize) inp) (out @ src_float_to_short api gen)
      else Some (out, rs))"

definition resample_execute ::
  "('f, 'src) src_api \<Rightarrow> 'src resample_step \<Rightarrow> short list \<Rightarrow> (short list \<times> 'src resample_step) option" where
  "resample_execute api rs inp =
     (if inp = [] then Some (inp, rs)
      else if rsInputSampleRate rs = rsOutputSampleRate rs then Some (inp, rs)
      else resampleLoop api rs inp [])"

definition resample_reset :: "('f, 'src) src_api \<Rightarrow> 'src resample_step \<Rightarrow> 'src resample_step" where
  "resample_reset api rs = rs\<lparr>resampleState := src_reset api (resampleState rs)\<rparr>"

subsection \<open>AudioPipeline\<close>

record 's step_ops =
  getInputSampleRate :: "'s \<Rightarrow> int"
  getOutputSampleRate :: "'s \<Rightarrow> int"
  step_execute :: "'s \<Rightarrow> short list \<Rightarrow> (short list \<times> 's) option"
  step_reset :: "'s \<Rightarrow> 's option"

record ('s, 'src) audio_pipeline =
  apInputSampleRate :: int
  apOutputSampleRate :: int
  pipelineSteps :: "'s list"
  resamplers :: "'src resample_step option list"
  resultSampler :: "'src resample_step option"

definition reloadResultResampler :: "('f, 'src) src_api \<Rightarrow> 's step_ops \<Rightarrow> ('s, 'src) audio_pipeline \<Rightarrow> ('s, 'src) audio_pipeline" where
  "reloadResultResampler api ops p =
     (let createResampler =
            (case resultSampler p of
               None \<Rightarrow> True
             | Some r \<Rightarrow>
                 (pipelineSteps p = [] \<and>
                    (rsInputSampleRate r \<noteq> apInputSampleRate p \<or> rsOutputSampleRate r \<noteq> apOutputSampleRate p)) \<or>
                 (pipelineSteps p \<noteq> [] \<and> rsInputSampleRate r \<noteq> getOutputSampleRate ops (last (pipelineSteps p))))
      in if createResampler then
           let lastOutputSampleRate =
                 (if pipelineSteps p \<noteq> [] then getOutputSampleRate ops (last (pipelineSteps p)) else apInputSampleRate p)
           in if lastOutputSampleRate \<noteq> apOutputSampleRate p
              then p\<lparr>resultSampler := Some (resample_new api lastOutputSampleRate (apOutputSampleRate p))\<rparr>
              else p\<lparr>resultSampler := None\<rparr>
         else p)"

definition pipeline_new :: "('f, 'src) src_api \<Rightarrow> 's step_ops \<Rightarrow> int \<Rightarrow> int \<Rightarrow> ('s, 'src) audio_pipeline" where
  "pipeline_new api ops inRate outRate =
     (let p = \<lparr>apInputSampleRate = inRate, apOutputSampleRate = outRate, pipelineSteps = [], resamplers = [],
               resultSampler = None\<rparr>
      in if inRate \<noteq> outRate then reloadResultResampler api ops p else p)"

definition reloadResampler :: "('f, 'src) src_api \<Rightarrow> 's step_ops \<Rightarrow> ('s, 'src) audio_pipeline \<Rightarrow> nat \<Rightarrow> ('s, 'src) audio_pipeline" where
  "reloadResampler api ops p index =
     (let steps = pipelineSteps p;
          resampleStep = resamplers p ! index;
          create0 = (case resampleStep of None \<Rightarrow> True
                     | Some r \<Rightarrow> rsOutputSampleRate r = getInputSampleRate ops (steps ! index));
          createResampler =
            (if index \<noteq> 0 \<and> \<not> create0
             then (case resampleStep of None \<Rightarrow> create0
                   | Some r \<Rightarrow> create0 \<or> rsInputSampleRate r \<noteq> getOutputSampleRate ops (steps ! (index - 1)))
             else create0);
          resampleStep' =
            (if createResampler then
               if index = 0 then
                 if getInputSampleRate ops (steps ! 0) \<noteq> apInputSampleRate p
                 then Some (resample_new api (apInputSampleRate p) (getInputSampleRate ops (steps ! 0)))
                 else None
               else
                 let prevOutputSampleRate = getOutputSampleRate ops (steps ! (index - 1)) in
                 if getInputSampleRate ops (steps ! index) \<noteq> prevOutputSampleRate
                 then Some (resample_new api prevOutputSampleRate (getInputSampleRate ops (steps ! index)))
                 else None
             else resampleStep)
      in p\<lparr>resamplers := (resamplers p)[index := resampleStep']\<rparr>)"

definition appendPipelineStep :: "('f, 'src) src_api \<Rightarrow> 's step_ops \<Rightarrow> ('s, 'src) audio_pipeline \<Rightarrow> 's \<Rightarrow> ('s, 'src) audio_pipeline" where
  "appendPipelineStep api ops p step =
     (let p1 = p\<lparr>pipelineSteps := pipelineSteps p @ [step], resamplers := resamplers p @ [None]\<rparr>;
          p2 = reloadResampler api ops p1 (length (pipelineSteps p1) - 1)
      in reloadResultResampler api ops p2)"

text \<open>The loop of \<open>execute\<close> over the steps and their resamplers; it returns both lists updated.\<close>

fun executeSteps :: "('f, 'src) src_api \<Rightarrow> 's step_ops \<Rightarrow> 'src resample_step option list \<Rightarrow> 's list \<Rightarrow> short list \<Rightarrow>
    (short list \<times> 'src resample_step option list \<times> 's list) option" where
  "executeSteps api ops rs [] inp = Some (inp, rs, [])"
| "executeSteps api ops [] (s # ss) inp = None"
| "executeSteps api ops (r # rs) (s # ss) inp =
     Option.bind
       (case r of
          None \<Rightarrow> Some (inp, None)
        | Some r \<Rightarrow>
            if rsOutputSampleRate r = getInputSampleRate ops s
            then map_option (\<lambda>(x, r'). (x, Some r')) (resample_execute api r inp)
            else None)
       (\<lambda>(x, r'). Option.bind (step_execute ops s x)
       (\<lambda>(y, s'). Option.bind (executeSteps api ops rs ss y)
       (\<lambda>(z, rs', ss'). Some (z, r' # rs', s' # ss'))))"

definition pipeline_execute :: "('f, 'src) src_api \<Rightarrow> 's step_ops \<Rightarrow> ('s, 'src) audio_pipeline \<Rightarrow> short list \<Rightarrow>
    (short list \<times> ('s, 'src) audio_pipeline) option" where
  "pipeline_execute api ops p inp =
     Option.bind (executeSteps api ops (resamplers p) (pipelineSteps p) inp)
       (\<lambda>(x, rs, ss).
          let p1 = p\<lparr>resamplers := rs, pipelineSteps := ss\<rparr> in
          case resultSampler p of
            None \<Rightarrow> Some (x, p1)
          | Some r \<Rightarrow> map_option (\<lambda>(y, r'). (y, p1\<lparr>resultSampler := Some r'\<rparr>)) (resample_execute api r x))"

fun resetSteps :: "'s step_ops \<Rightarrow> 's list \<Rightarrow> 's list option" where
  "resetSteps ops [] = Some []"
| "resetSteps ops (s # ss) = Option.bind (step_reset ops s) (\<lambda>s'. map_option ((#) s') (resetSteps ops ss))"

definition pipeline_reset :: "('f, 'src) src_api \<Rightarrow> 's step_ops \<Rightarrow> ('s, 'src) audio_pipeline \<Rightarrow> ('s, 'src) audio_pipeline option" where
  "pipeline_reset api ops p =
     map_option (\<lambda>ss. p\<lparr>pipelineSteps := ss,
         resamplers := map (map_option (resample_reset api)) (resamplers p),
         resultSampler := map_option (resample_reset api) (resultSampler p)\<rparr>)
       (resetSteps ops (pipelineSteps p))"

subsection \<open>The resampling loop is a fold over 10 ms blocks\<close>

text \<open>
  What the code relies on of libsamplerate: a call succeeds and never generates more frames than the
  output buffer it was given holds, and the conversion to integers keeps the number of samples.
\<close>

definition src_ok :: "('f, 'src) src_api \<Rightarrow> bool" where
  "src_ok api \<longleftrightarrow>
     (\<forall>st o_rate i_rate x n. fst (src_process api st o_rate i_rate x n) = 0 \<and>
        (0 \<le> n \<longrightarrow> int (length (fst (snd (src_process api st o_rate i_rate x n)))) \<le> n)) \<and>
     (\<forall>x. length (src_float_to_short api x) = length x)"

definition resampleBlock :: "('f, 'src) src_api \<Rightarrow> short list \<times> 'src resample_step \<Rightarrow> short list \<Rightarrow> short list \<times> 'src resample_step" where
  "resampleBlock api acc blk =
     (case acc of (out, rs) \<Rightarrow>
        (case src_process api (resampleState rs) (rsOutputSampleRate rs) (rsInputSampleRate rs)
                (src_short_to_float api blk) (rsOutputSampleRate rs * 20 div 1000) of
           (ret, gen, st) \<Rightarrow> (out @ src_float_to_short api gen, rs\<lparr>resampleState := st\<rparr>)))"

lemma resampleBlock_rates [simp]:
  "rsInputSampleRate (snd (resampleBlock api acc b)) = rsInputSampleRate (snd acc)"
  "rsOutputSampleRate (snd (resampleBlock api acc b)) = rsOutputSampleRate (snd acc)"
  by (simp_all add: resampleBlock_def split: prod.split)

lemma resampleLoop_eq:
  assumes "src_ok api"
  shows "k = nat (rsInputSampleRate rs * 10 div 1000) \<Longrightarrow> 0 < k \<Longrightarrow> 0 \<le> rsOutputSampleRate rs \<Longrightarrow>
    resampleLoop api rs inp out = Some (foldl (resampleBlock api) (out, rs) (chunks k inp))"
proof (induction k inp arbitrary: out rs rule: chunks.induct)
  case (1 k inp)
  show ?case
  proof (cases "inp = []")
    case False
    let ?call = "src_process api (resampleState rs) (rsOutputSampleRate rs) (rsInputSampleRate rs)
        (src_short_to_float api (take k inp)) (rsOutputSampleRate rs * 20 div 1000)"
    have rate: "0 \<le> rsInputSampleRate rs" using 1(2,3) by (cases "0 \<le> rsInputSampleRate rs") (auto simp: div_neg_pos_less0)
    have blk: "take (nat (min (int (length inp)) (int k))) inp = take k inp" "drop (nat (min (int (length inp)) (int k))) inp = drop k inp"
      by (simp_all add: min_def)
    have size: "c_div (rsInputSampleRate rs * 10) 1000 = int k" "c_div (rsOutputSampleRate rs * 20) 1000 = rsOutputSampleRate rs * 20 div 1000"
      using 1(2,3,4) rate by simp_all
    obtain gen st where call: "?call = (0, gen, st)"
      using assms by (cases ?call) (auto simp: src_ok_def, metis fst_conv)
    have "int (length gen) \<le> rsOutputSampleRate rs * 20 div 1000"
      using assms 1(4) call unfolding src_ok_def by (metis fst_conv snd_conv div_int_pos_iff mult_nonneg_nonneg zero_le_numeral)
    then have "resampleLoop api rs inp out =
        resampleLoop api (rs\<lparr>resampleState := st\<rparr>) (drop k inp) (out @ src_float_to_short api gen)"
      using False by (subst resampleLoop.simps) (simp add: Let_def size blk call [simplified])
    also have "\<dots> = Some (foldl (resampleBlock api) (out @ src_float_to_short api gen, rs\<lparr>resampleState := st\<rparr>) (chunks k (drop k inp)))"
      using 1(2-4) False by (intro 1(1)) simp_all
    finally have loop: "resampleLoop api rs inp out =
        Some (foldl (resampleBlock api) (out @ src_float_to_short api gen, rs\<lparr>resampleState := st\<rparr>) (chunks k (drop k inp)))" .
    have "resampleBlock api (out, rs) (take k inp) = (out @ src_float_to_short api gen, rs\<lparr>resampleState := st\<rparr>)"
      unfolding resampleBlock_def using call by simp
    then show ?thesis using False 1(3) by (simp add: loop chunks_step)
  qed (simp add: resampleLoop.simps)
qed

lemma resample_blocks_bound:
  assumes "src_ok api" and "0 \<le> rsOutputSampleRate rs"
  shows "int (length (fst (foldl (resampleBlock api) (out, rs) bs))) \<le> int (length out) + int (length bs) * (rsOutputSampleRate rs * 20 div 1000)"
  using assms(2)
proof (induction bs arbitrary: out rs)
  case (Cons b bs)
  obtain out1 rs1 where b: "resampleBlock api (out, rs) b = (out1, rs1)" by fastforce
  have "rsOutputSampleRate rs1 = rsOutputSampleRate rs" using resampleBlock_rates(2) [of api "(out, rs)" b] b by simp
  moreover have "int (length out1) \<le> int (length out) + (rsOutputSampleRate rs * 20 div 1000)"
    using b assms(1) Cons.prems by (auto simp: resampleBlock_def src_ok_def split: prod.splits) (metis fst_conv snd_conv div_int_pos_iff zero_le_numeral)
  ultimately show ?case using Cons.IH [of rs1 out1] Cons.prems b by (simp add: distrib_right)
qed simp

subsection \<open>The sample rate of every link of a pipeline\<close>

text \<open>
  A link from rate \<open>a\<close> to rate \<open>b\<close> is right when it has no resampler and the rates agree, or has a
  resampler from \<open>a\<close> to \<open>b\<close>. A pipeline is right when every link from its input rate through its
  steps to its output rate is.
\<close>

definition link_ok :: "int \<Rightarrow> 'src resample_step option \<Rightarrow> int \<Rightarrow> bool" where
  "link_ok a r b = (case r of None \<Rightarrow> a = b | Some s \<Rightarrow> a \<noteq> b \<and> rsInputSampleRate s = a \<and> rsOutputSampleRate s = b)"

definition rateBefore :: "'s step_ops \<Rightarrow> int \<Rightarrow> 's list \<Rightarrow> nat \<Rightarrow> int" where
  "rateBefore ops inRate steps i = (if i = 0 then inRate else getOutputSampleRate ops (steps ! (i - 1)))"

definition rates_ok :: "'s step_ops \<Rightarrow> ('s, 'src) audio_pipeline \<Rightarrow> bool" where
  "rates_ok ops p \<longleftrightarrow> length (resamplers p) = length (pipelineSteps p) \<and>
     (\<forall>i < length (pipelineSteps p).
        link_ok (rateBefore ops (apInputSampleRate p) (pipelineSteps p) i) (resamplers p ! i)
          (getInputSampleRate ops (pipelineSteps p ! i))) \<and>
     link_ok (rateBefore ops (apInputSampleRate p) (pipelineSteps p) (length (pipelineSteps p))) (resultSampler p)
       (apOutputSampleRate p)"

lemma link_ok_new: "link_ok a (if a \<noteq> b then Some (resample_new api a b) else None) b"
  by (simp add: link_ok_def resample_new_def)

lemma reloadResult_keeps [simp]:
  "pipelineSteps (reloadResultResampler api ops p) = pipelineSteps p" "resamplers (reloadResultResampler api ops p) = resamplers p"
  "apInputSampleRate (reloadResultResampler api ops p) = apInputSampleRate p"
  "apOutputSampleRate (reloadResultResampler api ops p) = apOutputSampleRate p"
  by (simp_all add: reloadResultResampler_def Let_def split: option.split)

lemma reloadResult_link:
  assumes "\<forall>r. resultSampler p = Some r \<longrightarrow> rsOutputSampleRate r = apOutputSampleRate p \<and> rsInputSampleRate r \<noteq> apOutputSampleRate p"
  shows "link_ok (rateBefore ops (apInputSampleRate p) (pipelineSteps p) (length (pipelineSteps p)))
    (resultSampler (reloadResultResampler api ops p)) (apOutputSampleRate p)"
  using assms by (cases "resultSampler p") (auto simp: reloadResultResampler_def Let_def link_ok_def rateBefore_def resample_new_def last_conv_nth)

lemma reloadResampler_fresh:
  assumes "resamplers p ! index = None" and "index < length (pipelineSteps p)"
  shows "reloadResampler api ops p index = p\<lparr>resamplers := (resamplers p)[index :=
    (let a = rateBefore ops (apInputSampleRate p) (pipelineSteps p) index; b = getInputSampleRate ops (pipelineSteps p ! index)
     in if a \<noteq> b then Some (resample_new api a b) else None)]\<rparr>"
  using assms by (cases index) (auto simp: reloadResampler_def Let_def rateBefore_def)

lemma rates_ok_new: "rates_ok ops (pipeline_new api ops inRate outRate)"
  using reloadResult_link [where p = "\<lparr>apInputSampleRate = inRate, apOutputSampleRate = outRate, pipelineSteps = [], resamplers = [],
      resultSampler = None\<rparr>" and ops = ops and api = api]
  by (auto simp: pipeline_new_def Let_def rates_ok_def rateBefore_def link_ok_def split: option.splits)

lemma rates_ok_append:
  assumes "rates_ok ops p"
  shows "rates_ok ops (appendPipelineStep api ops p s)"
proof -
  let ?n = "length (pipelineSteps p)"
  let ?a = "rateBefore ops (apInputSampleRate p) (pipelineSteps p) ?n" and ?b = "getInputSampleRate ops s"
  define p1 where "p1 = p\<lparr>pipelineSteps := pipelineSteps p @ [s], resamplers := resamplers p @ [None]\<rparr>"
  define p2 where "p2 = reloadResampler api ops p1 ?n"
  have len: "length (resamplers p) = ?n" using assms by (simp add: rates_ok_def)
  have before: "i \<le> ?n \<Longrightarrow> rateBefore ops inRate (pipelineSteps p @ [s]) i = rateBefore ops inRate (pipelineSteps p) i" for i inRate
    by (cases i) (simp_all add: rateBefore_def nth_append)
  have "p2 = p1\<lparr>resamplers := resamplers p @ [if ?a \<noteq> ?b then Some (resample_new api ?a ?b) else None]\<rparr>"
    using reloadResampler_fresh [of p1 ?n api ops] len
    by (simp add: p2_def p1_def nth_append list_update_append Let_def before [OF order_refl])
  then have f: "pipelineSteps p2 = pipelineSteps p @ [s]" "apInputSampleRate p2 = apInputSampleRate p" "apOutputSampleRate p2 = apOutputSampleRate p"
    "resultSampler p2 = resultSampler p" "resamplers p2 = resamplers p @ [if ?a \<noteq> ?b then Some (resample_new api ?a ?b) else None]"
    by (simp_all add: p1_def)
  have out: "appendPipelineStep api ops p s = reloadResultResampler api ops p2"
    by (simp add: appendPipelineStep_def Let_def p1_def [symmetric] p2_def) (simp add: p1_def)
  have result: "\<forall>r. resultSampler p = Some r \<longrightarrow> rsOutputSampleRate r = apOutputSampleRate p \<and> rsInputSampleRate r \<noteq> apOutputSampleRate p"
    using assms by (auto simp: rates_ok_def link_ok_def split: option.splits)
  have "link_ok (rateBefore ops (apInputSampleRate p) (pipelineSteps p @ [s]) i) (resamplers p2 ! i) (getInputSampleRate ops ((pipelineSteps p @ [s]) ! i))"
    if "i < Suc ?n" for i
  proof (cases "i = ?n")
    case True
    then show ?thesis using len by (simp add: f nth_append before link_ok_new)
  next
    case False
    then have "i < ?n" using that by simp
    then show ?thesis using assms len by (simp add: f nth_append before rates_ok_def)
  qed
  then show ?thesis using reloadResult_link [of p2 ops api] result len by (simp add: out rates_ok_def f)
qed

lemma pipeline_chain:
  "let p = foldl (appendPipelineStep api ops) (pipeline_new api ops inRate outRate) steps
   in rates_ok ops p \<and> pipelineSteps p = steps \<and> apInputSampleRate p = inRate \<and> apOutputSampleRate p = outRate"
proof -
  have keep: "pipelineSteps (appendPipelineStep api ops p s) = pipelineSteps p @ [s] \<and>
      apInputSampleRate (appendPipelineStep api ops p s) = apInputSampleRate p \<and>
      apOutputSampleRate (appendPipelineStep api ops p s) = apOutputSampleRate p" for p s
    by (simp add: appendPipelineStep_def reloadResampler_def Let_def)
  show ?thesis
  proof (induction steps rule: rev_induct)
    case Nil
    show ?case using rates_ok_new [of ops api inRate outRate] by (simp add: pipeline_new_def Let_def)
  next
    case (snoc s steps)
    then show ?case by (simp add: Let_def rates_ok_append keep)
  qed
qed

subsection \<open>The contract of a pipeline step\<close>

text \<open>
  What a pipeline relies on of its steps: a call returns and does not change the sample rates, which
  are at least 100 Hz.
\<close>

definition rates_of :: "'s step_ops \<Rightarrow> 's \<Rightarrow> int \<times> int" where
  "rates_of ops s = (getInputSampleRate ops s, getOutputSampleRate ops s)"

definition pipelineInv :: "'s step_ops \<Rightarrow> ('s \<Rightarrow> bool) \<Rightarrow> ('s, 'src) audio_pipeline \<Rightarrow> bool" where
  "pipelineInv ops stepInv p \<longleftrightarrow> rates_ok ops p \<and> (\<forall>s \<in> set (pipelineSteps p). stepInv s) \<and>
     100 \<le> apInputSampleRate p \<and> 100 \<le> apOutputSampleRate p"

abbreviation resampler_rates :: "'src resample_step option \<Rightarrow> (int \<times> int) option" where
  "resampler_rates \<equiv> map_option (\<lambda>r. (rsInputSampleRate r, rsOutputSampleRate r))"

text \<open>Rightness of the links only depends on the rates.\<close>

lemma link_ok_cong: "resampler_rates r = resampler_rates r' \<Longrightarrow> link_ok a r b = link_ok a r' b"
  by (cases r; cases r') (auto simp: link_ok_def)

lemma rates_ok_cong:
  assumes "map (rates_of ops) (pipelineSteps p') = map (rates_of ops) (pipelineSteps p)"
    and "map resampler_rates (resamplers p') = map resampler_rates (resamplers p)"
    and "resampler_rates (resultSampler p') = resampler_rates (resultSampler p)"
    and "apInputSampleRate p' = apInputSampleRate p" and "apOutputSampleRate p' = apOutputSampleRate p"
  shows "rates_ok ops p' \<longleftrightarrow> rates_ok ops p"
proof -
  have len: "length (pipelineSteps p') = length (pipelineSteps p)" "length (resamplers p') = length (resamplers p)"
    using assms(1,2) by (metis length_map)+
  have steps: "i < length (pipelineSteps p) \<Longrightarrow> getInputSampleRate ops (pipelineSteps p' ! i) = getInputSampleRate ops (pipelineSteps p ! i) \<and>
      getOutputSampleRate ops (pipelineSteps p' ! i) = getOutputSampleRate ops (pipelineSteps p ! i)" for i
    using arg_cong [OF assms(1), of "\<lambda>l. l ! i"] len(1) by (simp add: rates_of_def)
  have links: "i < length (resamplers p) \<Longrightarrow> resampler_rates (resamplers p' ! i) = resampler_rates (resamplers p ! i)" for i
    using arg_cong [OF assms(2), of "\<lambda>l. l ! i"] len(2) by simp
  have before: "i \<le> length (pipelineSteps p) \<Longrightarrow>
      rateBefore ops (apInputSampleRate p') (pipelineSteps p') i = rateBefore ops (apInputSampleRate p) (pipelineSteps p) i" for i
    using steps [of "i - 1"] assms(4) by (cases i) (auto simp: rateBefore_def)
  have "i < length (pipelineSteps p) \<Longrightarrow> length (resamplers p) = length (pipelineSteps p) \<Longrightarrow>
      link_ok a (resamplers p' ! i) b = link_ok a (resamplers p ! i) b" for i a b
    by (rule link_ok_cong) (simp add: links)
  moreover have "link_ok a (resultSampler p') b = link_ok a (resultSampler p) b" for a b by (rule link_ok_cong) (rule assms(3))
  ultimately show ?thesis using before steps by (auto simp: rates_ok_def len assms(5))
qed

lemma resampler_returns:
  assumes "src_ok api" and "100 \<le> rsInputSampleRate r" and "0 \<le> rsOutputSampleRate r"
  shows "\<exists>out r'. resample_execute api r inp = Some (out, r') \<and>
    rsInputSampleRate r' = rsInputSampleRate r \<and> rsOutputSampleRate r' = rsOutputSampleRate r"
proof -
  have k: "0 < nat (rsInputSampleRate r * 10 div 1000)" using assms(2) by simp
  have "rsInputSampleRate (snd (foldl (resampleBlock api) (out, r) bs)) = rsInputSampleRate r \<and>
      rsOutputSampleRate (snd (foldl (resampleBlock api) (out, r) bs)) = rsOutputSampleRate r" for out bs
  proof (induction bs arbitrary: out rule: rev_induct)
    case (snoc b bs)
    then show ?case by simp
  qed simp
  then show ?thesis
    using resampleLoop_eq [OF assms(1) refl k assms(3), of inp "[]"]
    by (auto simp: resample_execute_def) (metis prod.collapse)
qed

locale step_contract =
  fixes ops :: "'s step_ops" and stepInv :: "'s \<Rightarrow> bool"
  assumes execute_returns: "stepInv s \<Longrightarrow> \<exists>out s'. step_execute ops s inp = Some (out, s') \<and> stepInv s' \<and> rates_of ops s' = rates_of ops s"
    and rates_audio: "stepInv s \<Longrightarrow> 100 \<le> getInputSampleRate ops s \<and> 100 \<le> getOutputSampleRate ops s"
begin

text \<open>The loop over the steps: the rates of each link are the ones the link was built for.\<close>

lemma executeSteps_returns:
  assumes "src_ok api" and "length rs = length ss" and "\<forall>s \<in> set ss. stepInv s"
    and "\<forall>i < length ss. \<forall>r. rs ! i = Some r \<longrightarrow> 100 \<le> rsInputSampleRate r \<and> rsOutputSampleRate r = getInputSampleRate ops (ss ! i)"
  shows "\<exists>out rs' ss'. executeSteps api ops rs ss inp = Some (out, rs', ss') \<and> length ss' = length ss \<and> length rs' = length rs \<and>
    (\<forall>s \<in> set ss'. stepInv s) \<and> map (rates_of ops) ss' = map (rates_of ops) ss \<and>
    map resampler_rates rs' =
      map resampler_rates rs"
  using assms(2-4)
proof (induction ss arbitrary: rs inp)
  case (Cons s ss)
  then obtain r rs1 where rs: "rs = r # rs1" by (cases rs) auto
  have r: "\<exists>x r'. (case r of None \<Rightarrow> Some (inp, None)
      | Some r \<Rightarrow> if rsOutputSampleRate r = getInputSampleRate ops s
          then map_option (\<lambda>(x, r'). (x, Some r')) (resample_execute api r inp) else None) = Some (x, r') \<and>
      resampler_rates r' = resampler_rates r"
  proof (cases r)
    case (Some r0)
    then have "100 \<le> rsInputSampleRate r0" "rsOutputSampleRate r0 = getInputSampleRate ops s"
      using Cons.prems(3) rs by force+
    moreover have "0 \<le> getInputSampleRate ops s" using rates_audio [of s] Cons.prems(2) by simp
    ultimately show ?thesis using resampler_returns [OF assms(1), of r0 inp] Some by auto
  qed simp
  then obtain x r' where x: "(case r of None \<Rightarrow> Some (inp, None)
      | Some r \<Rightarrow> if rsOutputSampleRate r = getInputSampleRate ops s
          then map_option (\<lambda>(x, r'). (x, Some r')) (resample_execute api r inp) else None) = Some (x, r')"
    "resampler_rates r' = resampler_rates r"
    by blast
  obtain y s' where y: "step_execute ops s x = Some (y, s')" "stepInv s'" "rates_of ops s' = rates_of ops s"
    using execute_returns [of s x] Cons.prems(2) by auto
  have "\<forall>i < length ss. \<forall>r. rs1 ! i = Some r \<longrightarrow> 100 \<le> rsInputSampleRate r \<and> rsOutputSampleRate r = getInputSampleRate ops (ss ! i)"
    using Cons.prems(3) unfolding rs by (metis Suc_less_eq length_Cons nth_Cons_Suc)
  from Cons.IH [OF _ _ this] obtain z rs2 ss2 where z: "executeSteps api ops rs1 ss y = Some (z, rs2, ss2)" "length ss2 = length ss"
    "length rs2 = length rs1" "\<forall>s \<in> set ss2. stepInv s" "map (rates_of ops) ss2 = map (rates_of ops) ss"
    "map resampler_rates rs2 =
      map resampler_rates rs1"
    using Cons.prems(1,2) rs by fastforce
  show ?case using x(2) y(2,3) z by (simp add: rs x(1) y(1))
qed simp

lemma pipeline_execute_returns:
  assumes "src_ok api" and "pipelineInv ops stepInv p"
  shows "\<exists>out p'. pipeline_execute api ops p inp = Some (out, p') \<and> pipelineInv ops stepInv p'"
proof -
  have inv: "length (resamplers p) = length (pipelineSteps p)" "\<forall>s \<in> set (pipelineSteps p). stepInv s" "rates_ok ops p"
    "100 \<le> apInputSampleRate p" "100 \<le> apOutputSampleRate p"
    using assms(2) by (auto simp: pipelineInv_def rates_ok_def)
  have before: "i \<le> length (pipelineSteps p) \<Longrightarrow> 100 \<le> rateBefore ops (apInputSampleRate p) (pipelineSteps p) i" for i
    using inv(2,4) rates_audio by (cases i) (auto simp: rateBefore_def)
  have "\<forall>i < length (pipelineSteps p). \<forall>r. resamplers p ! i = Some r \<longrightarrow>
      100 \<le> rsInputSampleRate r \<and> rsOutputSampleRate r = getInputSampleRate ops (pipelineSteps p ! i)"
  proof (intro allI impI)
    fix i r assume i: "i < length (pipelineSteps p)" and r: "resamplers p ! i = Some r"
    have "link_ok (rateBefore ops (apInputSampleRate p) (pipelineSteps p) i) (Some r) (getInputSampleRate ops (pipelineSteps p ! i))"
      using inv(3) i r by (auto simp: rates_ok_def)
    then show "100 \<le> rsInputSampleRate r \<and> rsOutputSampleRate r = getInputSampleRate ops (pipelineSteps p ! i)"
      using before [of i] i by (simp add: link_ok_def)
  qed
  from executeSteps_returns [OF assms(1) inv(1,2) this, of inp] obtain x rs ss where run:
    "executeSteps api ops (resamplers p) (pipelineSteps p) inp = Some (x, rs, ss)" "\<forall>s \<in> set ss. stepInv s"
    "map (rates_of ops) ss = map (rates_of ops) (pipelineSteps p)" "map resampler_rates rs = map resampler_rates (resamplers p)"
    by blast
  let ?p = "p\<lparr>resamplers := rs, pipelineSteps := ss\<rparr>"
  have keep: "pipelineInv ops stepInv (?p\<lparr>resultSampler := r\<rparr>)" if "resampler_rates r = resampler_rates (resultSampler p)" for r
    using inv run(2) rates_ok_cong [of ops "?p\<lparr>resultSampler := r\<rparr>" p] that run(3,4) by (auto simp: pipelineInv_def)
  show ?thesis
  proof (cases "resultSampler p")
    case None
    then have "?p\<lparr>resultSampler := None\<rparr> = ?p" by (cases p) simp
    then have "pipelineInv ops stepInv ?p" using keep [of None] None by (simp only: option.map)
    then show ?thesis using None by (simp add: pipeline_execute_def run(1))
  next
    case (Some r)
    then have "100 \<le> rsInputSampleRate r" "0 \<le> rsOutputSampleRate r"
      using inv(3,5) before [of "length (pipelineSteps p)"] by (auto simp: rates_ok_def link_ok_def)
    then obtain y r' where "resample_execute api r x = Some (y, r')" "resampler_rates (Some r') = resampler_rates (Some r)"
      using resampler_returns [OF assms(1), of r x] by auto
    then show ?thesis using keep [of "Some r'"] Some by (simp add: pipeline_execute_def run(1))
  qed
qed

end

subsection \<open>Properties\<close>

text \<open>
  However a pipeline is assembled, the sample rate of every link is right: each step is fed at its own
  input rate, directly when the rate before it is the same and through a resampler between exactly these
  two rates otherwise, and the output leaves at the pipeline's output rate.
\<close>

theorem pipeline_rates_chain:
  "let p = foldl (appendPipelineStep api ops) (pipeline_new api ops inRate outRate) steps
   in rates_ok ops p \<and> pipelineSteps p = steps \<and> apInputSampleRate p = inRate \<and> apOutputSampleRate p = outRate"
  by (rule pipeline_chain)


definition demo_src :: "(short, unit) src_api" where
  "demo_src = \<lparr>src_new = (\<lambda>_. ()), src_short_to_float = id,
     src_process = (\<lambda>st o_rate i_rate x n. (0, take (nat n) (rev x), st)), src_float_to_short = id, src_reset = id\<rparr>"

lemma demo_src_ok: "src_ok demo_src"
  by (auto simp: src_ok_def demo_src_def min_def)


end
