(* ===== verification/Fpu.thy ===== *)
theory Fpu
  imports FDV_Prelude Complex_Main
begin

text \<open>
  Floating point. The rounding behaviour of \<^verbatim>\<open>float\<close> (\<open>'f\<close>) and \<^verbatim>\<open>double\<close> (\<open>'d\<close>), NaN included, is
  a parameter of the model: the record holds the operations the sources use, and every theorem about
  code with floating point holds for every choice of them. The literal \<open>m \<cdot> 10\<^sup>e\<close> of the source is
  \<open>flit m e\<close> (or \<open>dlit m e\<close>). \<open>fmax\<close>, \<open>fmin\<close> and \<open>fclamp\<close> are \<^verbatim>\<open>std::max\<close>, \<^verbatim>\<open>std::min\<close> and \<^verbatim>\<open>std::clamp\<close>, which the C++
  standard defines by comparisons.
\<close>

record ('f, 'd) fpu =
  flit :: "int \<Rightarrow> int \<Rightarrow> 'f"
  fadd :: "'f \<Rightarrow> 'f \<Rightarrow> 'f"
  fsub :: "'f \<Rightarrow> 'f \<Rightarrow> 'f"
  fmul :: "'f \<Rightarrow> 'f \<Rightarrow> 'f"
  fdiv :: "'f \<Rightarrow> 'f \<Rightarrow> 'f"
  fneg :: "'f \<Rightarrow> 'f"
  fabs :: "'f \<Rightarrow> 'f"
  fsqrt :: "'f \<Rightarrow> 'f"
  flt :: "'f \<Rightarrow> 'f \<Rightarrow> bool"
  fle :: "'f \<Rightarrow> 'f \<Rightarrow> bool"
  ftrunc :: "'f \<Rightarrow> int"
  dlit :: "int \<Rightarrow> int \<Rightarrow> 'd"
  dadd :: "'d \<Rightarrow> 'd \<Rightarrow> 'd"
  dsub :: "'d \<Rightarrow> 'd \<Rightarrow> 'd"
  dmul :: "'d \<Rightarrow> 'd \<Rightarrow> 'd"
  ddiv :: "'d \<Rightarrow> 'd \<Rightarrow> 'd"
  dneg :: "'d \<Rightarrow> 'd"
  dexp :: "'d \<Rightarrow> 'd"
  dlog :: "'d \<Rightarrow> 'd"
  dpow :: "'d \<Rightarrow> 'd \<Rightarrow> 'd"
  dlt :: "'d \<Rightarrow> 'd \<Rightarrow> bool"
  dle :: "'d \<Rightarrow> 'd \<Rightarrow> bool"
  f2d :: "'f \<Rightarrow> 'd"
  d2f :: "'d \<Rightarrow> 'f"

text \<open>\<open>f0\<close> and \<open>i2f\<close>: the float zero and the conversion of a small \<^verbatim>\<open>int\<close>.\<close>

definition i2f :: "('f, 'd, 'x) fpu_scheme \<Rightarrow> int \<Rightarrow> 'f" where
  "i2f fp n = flit fp n 0"

abbreviation f0 :: "('f, 'd, 'x) fpu_scheme \<Rightarrow> 'f" where
  "f0 fp \<equiv> i2f fp 0"

definition fmax :: "('f, 'd, 'x) fpu_scheme \<Rightarrow> 'f \<Rightarrow> 'f \<Rightarrow> 'f" where
  "fmax fp a b = (if flt fp a b then b else a)"

definition fmin :: "('f, 'd, 'x) fpu_scheme \<Rightarrow> 'f \<Rightarrow> 'f \<Rightarrow> 'f" where
  "fmin fp a b = (if flt fp b a then b else a)"

definition fclamp :: "('f, 'd, 'x) fpu_scheme \<Rightarrow> 'f \<Rightarrow> 'f \<Rightarrow> 'f \<Rightarrow> 'f" where
  "fclamp fp v lo hi = (if flt fp v lo then lo else if flt fp hi v then hi else v)"

text \<open>Integer arithmetic as an instance, for evaluating code on concrete inputs.\<close>

definition int_lit :: "int \<Rightarrow> int \<Rightarrow> int" where
  "int_lit m e = (if 0 \<le> e then m * 10 ^ nat e else c_div m (10 ^ nat (- e)))"

definition int_fpu :: "(int, int) fpu" where
  "int_fpu = \<lparr>flit = int_lit, fadd = (+), fsub = (-), fmul = (*), fdiv = c_div, fneg = uminus, fabs = abs,
     fsqrt = id, flt = (<), fle = (\<le>), ftrunc = id, dlit = int_lit, dadd = (+), dsub = (-), dmul = (*),
     ddiv = c_div, dneg = uminus, dexp = id, dlog = id, dpow = (\<lambda>x y. x ^ nat y), dlt = (<), dle = (\<le>), f2d = id, d2f = id\<rparr>"

text \<open>Exact real arithmetic, the arithmetic that the floating-point code approximates.\<close>

definition real_lit :: "int \<Rightarrow> int \<Rightarrow> real" where
  "real_lit m e = (if 0 \<le> e then of_int m * 10 ^ nat e else of_int m / 10 ^ nat (- e))"

definition real_fpu :: "(real, real) fpu" where
  "real_fpu = \<lparr>flit = real_lit, fadd = (+), fsub = (-), fmul = (*), fdiv = (/), fneg = uminus, fabs = abs,
     fsqrt = sqrt, flt = (<), fle = (\<le>), ftrunc = (\<lambda>x. if 0 \<le> x then \<lfloor>x\<rfloor> else \<lceil>x\<rceil>), dlit = real_lit,
     dadd = (+), dsub = (-), dmul = (*), ddiv = (/), dneg = uminus, dexp = exp, dlog = ln,
     dpow = (\<lambda>x y. x ^ nat \<lfloor>y\<rfloor>), dlt = (<), dle = (\<le>), f2d = id, d2f = id\<rparr>"

lemma real_fpu_sel [simp]:
  "flit real_fpu = real_lit" "fadd real_fpu = (+)" "fsub real_fpu = (-)" "fmul real_fpu = (*)" "fdiv real_fpu = (/)"
  "fneg real_fpu = uminus" "fabs real_fpu = abs" "fsqrt real_fpu = sqrt" "flt real_fpu = (<)" "fle real_fpu = (\<le>)"
  "dlit real_fpu = real_lit" "dadd real_fpu = (+)" "dsub real_fpu = (-)" "dmul real_fpu = (*)" "ddiv real_fpu = (/)"
  "dneg real_fpu = uminus" "dexp real_fpu = exp" "dlog real_fpu = ln" "dpow real_fpu = (\<lambda>x y. x ^ nat \<lfloor>y\<rfloor>)"
  "dlt real_fpu = (<)" "dle real_fpu = (\<le>)" "f2d real_fpu = id" "d2f real_fpu = id" "i2f real_fpu n = of_int n"
  by (simp_all add: real_fpu_def i2f_def real_lit_def)

lemma fmax_real [simp]: "fmax real_fpu x y = max x y"
  by (simp add: fmax_def max_def)

lemma fclamp_real_sign:
  "0 \<le> hi \<Longrightarrow> 0 \<le> s * v \<Longrightarrow> 0 \<le> s * fclamp real_fpu v (- hi) hi" if "s = 1 \<or> s = - 1" for s :: real
  using that by (auto simp: fclamp_def)

end
