(* ===== verification/Simple_Steps.thy ===== *)
theory Simple_Steps
  imports Audio_Pipeline Fpu
begin

text \<open>
  The sample conversions of \<^verbatim>\<open>src/src/pipeline/IPipelineStep.h\<close> and the steps that keep no samples between
  calls: \<^verbatim>\<open>MuteStep\<close>, \<^verbatim>\<open>LevelAdjustStep\<close> and \<^verbatim>\<open>ToneInterfererStep\<close>. The values that a step gets from the
  application through a function pointer (scale factor, tone) are arguments of its \<open>execute\<close>. The
  output buffers hold one second; the results here are the samples written, and the bounds are
  theorems about their number.
\<close>

subsection \<open>Sample conversions\<close>

text \<open>
  The template parameter of the conversions: \<open>UnitScale\<close> is \<^verbatim>\<open>SampleDivisor == 1\<close>, \<open>FullScale\<close> the default
  \<^verbatim>\<open>numeric_limits<short>::max()\<close>. The single-sample conversion to float compares the divisor with the
  largest value of the float type, so it divides by 32767 where the array version divides by 32768.
\<close>

datatype sample_scale = UnitScale | FullScale

definition ConvertSingleSampleToFloat :: "('f, 'd, 'x) fpu_scheme \<Rightarrow> sample_scale \<Rightarrow> short \<Rightarrow> 'f" where
  "ConvertSingleSampleToFloat fp sc s =
     (case sc of
        UnitScale \<Rightarrow> i2f fp (sint s)
      | FullScale \<Rightarrow> fmul fp (i2f fp (sint s)) (fdiv fp (flit fp 1 0) (i2f fp 32767)))"

definition ConvertToFloatSampleType :: "('f, 'd, 'x) fpu_scheme \<Rightarrow> sample_scale \<Rightarrow> short list \<Rightarrow> 'f list" where
  "ConvertToFloatSampleType fp sc xs =
     (case sc of
        UnitScale \<Rightarrow> map (\<lambda>s. i2f fp (sint s)) xs
      | FullScale \<Rightarrow> map (\<lambda>s. fmul fp (i2f fp (sint s)) (fdiv fp (flit fp 1 0) (i2f fp 32768))) xs)"

definition ConvertSingleSampleToInt :: "('f, 'd, 'x) fpu_scheme \<Rightarrow> sample_scale \<Rightarrow> 'f \<Rightarrow> short" where
  "ConvertSingleSampleToInt fp sc x =
     (case sc of
        UnitScale \<Rightarrow> word_of_int (ftrunc fp x)
      | FullScale \<Rightarrow>
          let temp = fmul fp x (i2f fp 32768) in
          if fle fp temp (i2f fp (- 32768)) then word_of_int (- 32768)
          else if fle fp (i2f fp 32767) temp then word_of_int 32767
          else word_of_int (ftrunc fp temp))"

definition ConvertToIntSampleType :: "('f, 'd, 'x) fpu_scheme \<Rightarrow> sample_scale \<Rightarrow> 'f list \<Rightarrow> short list" where
  "ConvertToIntSampleType fp sc xs = map (ConvertSingleSampleToInt fp sc) xs"

subsection \<open>MuteStep\<close>

record mute_step =
  muteInputSampleRate :: int
  muteOutputSampleRate :: int
  muteSamples :: "short list"

definition mute_new :: "int \<Rightarrow> int \<Rightarrow> mute_step" where
  "mute_new inRate outRate =
     \<lparr>muteInputSampleRate = inRate, muteOutputSampleRate = outRate, muteSamples = replicate (nat outRate) 0\<rparr>"

definition mute_execute :: "mute_step \<Rightarrow> short list \<Rightarrow> short list" where
  "mute_execute s inp =
     (let n = c_div (int (length inp) * muteOutputSampleRate s) (muteInputSampleRate s)
      in if n > 0 then take (nat n) (muteSamples s) else [])"

subsection \<open>LevelAdjustStep\<close>

partial_function (option) levelLoop :: "('f, 'd, 'x) fpu_scheme \<Rightarrow> int \<Rightarrow> 'f \<Rightarrow> short list \<Rightarrow> short list \<Rightarrow> short list option" where
  "levelLoop fp sampleRate scaleFactor inp out =
     (if inp \<noteq> [] then
        let samplesToRead = nat (min (int (length inp)) (c_div sampleRate 100));
            tmp = ConvertToFloatSampleType fp FullScale (take samplesToRead inp);
            scaled = map (\<lambda>x. fmul fp x scaleFactor) tmp
        in levelLoop fp sampleRate scaleFactor (drop samplesToRead inp) (out @ ConvertToIntSampleType fp FullScale scaled)
      else Some out)"

definition level_execute :: "('f, 'd, 'x) fpu_scheme \<Rightarrow> int \<Rightarrow> 'f \<Rightarrow> short list \<Rightarrow> short list option" where
  "level_execute fp sampleRate scaleFactor inp = levelLoop fp sampleRate scaleFactor inp []"

subsection \<open>ToneInterfererStep\<close>

text \<open>
  \<open>cosf\<close>, \<open>floor\<close> and the constant \<open>M_PI\<close> are arguments; \<open>phase\<close> is the atomic that \<open>tonePhaseFn_\<close> points to.
  \<^verbatim>\<open>2.0 * M_PI * toneFrequency / sampleRate_\<close> is computed in double.
\<close>

record ('f, 'd) tone_math =
  cosf :: "'f \<Rightarrow> 'f"
  dfloor :: "'d \<Rightarrow> 'd"
  M_PI :: 'd

definition tone_clip :: "int \<Rightarrow> int" where
  "tone_clip mixed = (if mixed < - 32768 then - 32768 else if 32767 < mixed then 32767 else mixed)"

fun toneLoop :: "('f, 'd, 'x) fpu_scheme \<Rightarrow> ('f, 'd) tone_math \<Rightarrow> 'f \<Rightarrow> 'f \<Rightarrow> 'f \<Rightarrow> short list \<Rightarrow> short list \<times> 'f" where
  "toneLoop fp tm amp w phase [] = ([], phase)"
| "toneLoop fp tm amp w phase (x # xs) =
     (let s = fmul fp amp (cosf tm phase);
          mixed = sint x + ftrunc fp s;
          (ys, phase') = toneLoop fp tm amp w (fadd fp phase w) xs
      in (word_of_int (tone_clip mixed) # ys, phase'))"

definition toneStep :: "('f, 'd, 'x) fpu_scheme \<Rightarrow> ('f, 'd) tone_math \<Rightarrow> int \<Rightarrow> 'f \<Rightarrow> 'f" where
  "toneStep fp tm sampleRate toneFrequency =
     d2f fp (ddiv fp (dmul fp (dmul fp (dlit fp 2 0) (M_PI tm)) (f2d fp toneFrequency)) (f2d fp (i2f fp sampleRate)))"

definition tone_execute :: "('f, 'd, 'x) fpu_scheme \<Rightarrow> ('f, 'd) tone_math \<Rightarrow> int \<Rightarrow> 'f \<Rightarrow> 'f \<Rightarrow> 'f \<Rightarrow> short list \<Rightarrow> short list \<times> 'f" where
  "tone_execute fp tm sampleRate toneFrequency toneAmplitude phase inp =
     (let two_pi = dmul fp (dlit fp 2 0) (M_PI tm);
          w = toneStep fp tm sampleRate toneFrequency;
          (out, phase1) = toneLoop fp tm toneAmplitude w phase inp;
          phase2 = d2f fp (dsub fp (f2d fp phase1) (dmul fp two_pi (dfloor tm (ddiv fp (f2d fp phase1) two_pi))))
      in (out, phase2))"

subsection \<open>Lemmas\<close>

lemma mute_zero: "list_all (\<lambda>x. x = 0) (mute_execute (mute_new inRate outRate) inp)"
  by (auto simp: mute_execute_def mute_new_def list_all_iff Let_def dest: in_set_takeD)

lemma length_mute:
  assumes "0 < inRate" and "0 \<le> outRate" and "int (length inp) \<le> inRate"
  shows "int (length (mute_execute (mute_new inRate outRate) inp)) = int (length inp) * outRate div inRate"
proof -
  have "int (length inp) * outRate div inRate \<le> inRate * outRate div inRate"
    using assms by (intro zdiv_mono1 mult_right_mono) auto
  then have "int (length inp) * outRate div inRate \<le> outRate" using assms(1) by simp
  moreover have "0 \<le> int (length inp) * outRate div inRate" using assms by (simp add: pos_imp_zdiv_nonneg_iff)
  ultimately show ?thesis using assms by (auto simp: mute_execute_def mute_new_def Let_def min_def not_less)
qed

definition level_sample :: "('f, 'd, 'x) fpu_scheme \<Rightarrow> 'f \<Rightarrow> short \<Rightarrow> short" where
  "level_sample fp f s = ConvertSingleSampleToInt fp FullScale
     (fmul fp (fmul fp (i2f fp (sint s)) (fdiv fp (flit fp 1 0) (i2f fp 32768))) f)"

lemma levelLoop_eq:
  "k = nat (sampleRate div 100) \<Longrightarrow> 100 \<le> sampleRate \<Longrightarrow> levelLoop fp sampleRate f inp out = Some (out @ map (level_sample fp f) inp)"
proof (induction k inp arbitrary: out rule: chunks.induct)
  case (1 k inp)
  have k: "0 < k" "c_div sampleRate 100 = int k" using 1(2,3) by auto
  show ?case
  proof (cases "inp = []")
    case False
    have "nat (min (int (length inp)) (int k)) = min (length inp) k" by (simp add: min_def)
    then have n: "nat (min (int (length inp)) (c_div sampleRate 100)) = min (length inp) k" by (simp only: k(2))
    have blk: "take (min (length inp) k) inp = take k inp" "drop (min (length inp) k) inp = drop k inp" by (simp_all add: min_def)
    have "levelLoop fp sampleRate f inp out = levelLoop fp sampleRate f (drop k inp) (out @ map (level_sample fp f) (take k inp))"
      using False by (subst levelLoop.simps)
        (simp only: Let_def n blk if_True not_False_eq_True ConvertToFloatSampleType_def ConvertToIntSampleType_def
          sample_scale.case map_map comp_def level_sample_def [abs_def])
    also have "\<dots> = Some ((out @ map (level_sample fp f) (take k inp)) @ map (level_sample fp f) (drop k inp))"
      using k(1) False 1(2,3) by (intro 1(1)) auto
    finally show ?thesis by (simp flip: map_append)
  qed (simp add: levelLoop.simps)
qed

lemma sint_short: "- 32768 \<le> sint (s :: short)" "sint (s :: short) \<le> 32767"
  using sint_greater_eq [of s] sint_less [of s] by auto

lemma sint_short_of_int: "- 32768 \<le> k \<Longrightarrow> k \<le> 32767 \<Longrightarrow> sint (word_of_int k :: short) = k"
  by (simp add: sint_sbintrunc' signed_take_bit_int_eq_self)

text \<open>The integer a real sample value becomes: truncated towards zero, saturating.\<close>

definition saturate :: "real \<Rightarrow> int" where
  "saturate x = (if x \<le> - 32768 then - 32768 else if 32767 \<le> x then 32767 else (if 0 \<le> x then \<lfloor>x\<rfloor> else \<lceil>x\<rceil>))"

lemma saturate_range: "- 32768 \<le> saturate x \<and> saturate x \<le> 32767"
  by (auto simp: saturate_def floor_le_iff le_floor_iff ceiling_le_iff le_ceiling_iff)

lemma ConvertSingle_real: "sint (ConvertSingleSampleToInt real_fpu FullScale x) = saturate (x * 32768)"
proof -
  have "ConvertSingleSampleToInt real_fpu FullScale x = word_of_int (saturate (x * 32768))"
    by (auto simp: ConvertSingleSampleToInt_def Let_def saturate_def real_fpu_def i2f_def real_lit_def)
  then show ?thesis using saturate_range [of "x * 32768"] by (simp add: sint_short_of_int)
qed

lemma toneLoop_length: "length (fst (toneLoop fp tm amp w phase xs)) = length xs"
  by (induction xs arbitrary: phase) (simp_all add: Let_def case_prod_unfold)

text \<open>The tone that is mixed into \<open>n\<close> samples, as integers.\<close>

fun toneSamples :: "('f, 'd, 'x) fpu_scheme \<Rightarrow> ('f, 'd) tone_math \<Rightarrow> 'f \<Rightarrow> 'f \<Rightarrow> 'f \<Rightarrow> nat \<Rightarrow> int list" where
  "toneSamples fp tm amp w phase 0 = []"
| "toneSamples fp tm amp w phase (Suc n) = ftrunc fp (fmul fp amp (cosf tm phase)) # toneSamples fp tm amp w (fadd fp phase w) n"

lemma sint_tone_clip: "sint (word_of_int (tone_clip k) :: short) = tone_clip k"
  by (rule sint_short_of_int) (auto simp: tone_clip_def)

lemma toneLoop_mix:
  "map sint (fst (toneLoop fp tm amp w phase xs)) =
   map tone_clip (map2 (+) (map sint xs) (toneSamples fp tm amp w phase (length xs)))"
  by (induction xs arbitrary: phase) (simp_all add: Let_def case_prod_unfold sint_tone_clip)

subsection \<open>Properties\<close>

text \<open>
  In exact arithmetic a level adjustment by \<open>f\<close> multiplies every sample by \<open>f\<close>, truncates it towards
  zero and saturates at the limits of 16 bits: it never wraps around, whatever the factor, and the
  processing in 10 ms blocks is not observable.
\<close>

theorem level_adjust_exact:
  assumes "100 \<le> sampleRate"
  shows "\<exists>out. level_execute real_fpu sampleRate f inp = Some out \<and>
    map sint out = map (\<lambda>s. saturate (of_int (sint s) * f)) inp"
proof -
  have "level_sample real_fpu f s = ConvertSingleSampleToInt real_fpu FullScale (of_int (sint s) * f / 32768)" for s
    by (simp add: level_sample_def real_lit_def)
  then have "sint (level_sample real_fpu f s) = saturate (of_int (sint s) * f)" for s
    by (simp add: ConvertSingle_real)
  then show ?thesis using levelLoop_eq [OF refl assms, of real_fpu f inp "[]"] by (simp add: level_execute_def)
qed

theorem level_adjust_exact_witness:
  "\<exists>out. level_execute real_fpu 8000 2 [16384, - 20000, 5, - 1] = Some out \<and> map sint out = [32767, - 32768, 10, - 2]"
  using level_adjust_exact [of 8000 2 "[16384, - 20000, 5, - 1]"] by (simp add: saturate_def)

text \<open>
  The tone interferer adds its tone to the samples and clips the sum to 16 bits, for every
  floating-point implementation: each output is the clipped integer sum, never a wrapped one.
\<close>

theorem tone_mix_saturates:
  "map sint (fst (tone_execute fp tm sampleRate freq amp phase inp)) =
     map tone_clip (map2 (+) (map sint inp) (toneSamples fp tm amp (toneStep fp tm sampleRate freq) phase (length inp))) \<and>
   length (fst (tone_execute fp tm sampleRate freq amp phase inp)) = length inp"
  using toneLoop_mix [of fp tm amp _ phase inp] toneLoop_length [of fp tm amp _ phase inp]
  by (auto simp: tone_execute_def Let_def case_prod_unfold)

text \<open>
  The muting step returns silence, as many samples as the input lasts at the output rate, and never
  more than its buffer holds for up to one second of input.
\<close>

theorem mute_silence:
  assumes "0 < inRate" and "0 \<le> outRate" and "int (length inp) \<le> inRate"
  shows "list_all (\<lambda>x. x = 0) (mute_execute (mute_new inRate outRate) inp) \<and>
    int (length (mute_execute (mute_new inRate outRate) inp)) = int (length inp) * outRate div inRate \<and>
    length (mute_execute (mute_new inRate outRate) inp) \<le> length (muteSamples (mute_new inRate outRate))"
proof -
  have "length (mute_execute (mute_new inRate outRate) inp) \<le> length (muteSamples (mute_new inRate outRate))"
    by (simp add: mute_execute_def Let_def)
  then show ?thesis using mute_zero length_mute [OF assms] by blast
qed

theorem mute_silence_witness:
  "length (mute_execute (mute_new 8000 16000) [7, 8, 9]) = 6"
  using mute_silence [of 8000 16000 "[7, 8, 9]"] by simp

text \<open>
  The gain control converts one sample at a time; its conversion to float divides by 32767 where the
  conversion of arrays divides by 32768, so a gain of one is not the identity there.
\<close>

theorem single_sample_conversion_not_inverse:
  "sint (ConvertSingleSampleToInt real_fpu FullScale (ConvertSingleSampleToFloat real_fpu FullScale (- 32767))) = - 32768 \<and>
   map sint (ConvertToIntSampleType real_fpu FullScale (ConvertToFloatSampleType real_fpu FullScale [- 32767])) = [- 32767]"
  by (simp add: ConvertToIntSampleType_def ConvertSingle_real ConvertSingleSampleToFloat_def ConvertToFloatSampleType_def
      saturate_def real_lit_def)

end
