(* ===== verification/Block_Steps.thy ===== *)
theory Block_Steps
  imports Simple_Steps Generic_FIFO
begin

text \<open>
  The steps that collect samples in a FIFO and process them in blocks of a fixed size: \<^verbatim>\<open>AgcStep\<close>,
  \<^verbatim>\<open>RNNoiseStep\<close> and \<^verbatim>\<open>BandwidthExpandStep\<close>. The signal-processing libraries are parameters. The
  loops are \<open>partial_function\<close>s, \<open>None\<close> when they do not end; the lemmas show that they always end, and
  that cutting the input into calls is not observable: a step processes the full blocks of the
  whole stream, in order.
\<close>

subsection \<open>The block loops\<close>

text \<open>
  The inner loop of all three steps: while a block is buffered, read and process it. \<open>proc\<close> is the
  body of the loop, on the part \<open>st\<close> of the step's state that it changes.
\<close>

partial_function (option) drainBlocks :: "int \<Rightarrow> ('s \<Rightarrow> 'a list \<Rightarrow> 's) \<Rightarrow> 's \<Rightarrow> 'a fifo \<Rightarrow> ('s \<times> 'a fifo) option" where
  "drainBlocks block proc st f =
     (if numUsed f \<ge> block then
        (case fifo_read f block of (r, blk, f') \<Rightarrow> drainBlocks block proc (proc st blk) f')
      else Some (st, f))"

text \<open>The outer loop of \<open>AgcStep::execute\<close> and \<open>RNNoiseStep::execute\<close>.\<close>

partial_function (option) feedBlocks :: "int \<Rightarrow> ('s \<Rightarrow> 'a list \<Rightarrow> 's) \<Rightarrow> 's \<Rightarrow> 'a fifo \<Rightarrow> 'a list \<Rightarrow> ('s \<times> 'a fifo) option" where
  "feedBlocks block proc st f inp =
     (if inp \<noteq> [] then
        let samplesToWrite = min (numFree f) (int (length inp));
            f1 = (if samplesToWrite > 0 then snd (fifo_write f inp samplesToWrite) else f);
            inp1 = (if samplesToWrite > 0 then drop (nat samplesToWrite) inp else inp)
        in if samplesToWrite = 0 \<and> numUsed f1 < block then Some (st, f1)
           else Option.bind (drainBlocks block proc st f1) (\<lambda>(st', f2). feedBlocks block proc st' f2 inp1)
      else Some (st, f))"

text \<open>The outer loop of \<open>BandwidthExpandStep::execute\<close>.\<close>

partial_function (option) feedAll :: "int \<Rightarrow> ('s \<Rightarrow> 'a list \<Rightarrow> 's) \<Rightarrow> 's \<Rightarrow> 'a fifo \<Rightarrow> 'a list \<Rightarrow> ('s \<times> 'a fifo) option" where
  "feedAll block proc st f inp =
     (if inp \<noteq> [] then
        let samplesToWrite = min (numFree f) (int (length inp));
            f1 = snd (fifo_write f inp samplesToWrite);
            inp1 = drop (nat samplesToWrite) inp
        in Option.bind (drainBlocks block proc st f1) (\<lambda>(st', f2). feedAll block proc st' f2 inp1)
      else Some (st, f))"

subsection \<open>AgcStep\<close>

text \<open>
  The libraries libebur128 (loudness; \<open>'eb\<close>) and WebRTC AGC (limiter; \<open>'ag\<close>). \<open>loudness\<close> is \<open>None\<close> when
  the call fails or the result is \<^verbatim>\<open>-HUGE_VAL\<close>; gains are \<^verbatim>\<open>float\<close> and loudness \<^verbatim>\<open>double\<close>.
\<close>

record ('f, 'd, 'eb, 'ag) agc_api =
  eb_init :: "int \<Rightarrow> 'eb"
  eb_add_frames :: "'eb \<Rightarrow> short list \<Rightarrow> 'eb"
  eb_loudness_momentary :: "'eb \<Rightarrow> 'd option"
  agc_init :: "int \<Rightarrow> 'ag"
  agc_reinit :: "'ag \<Rightarrow> int \<Rightarrow> 'ag"
  agc_process :: "'ag \<Rightarrow> short list \<Rightarrow> short list \<times> 'ag"
  expf :: "'f \<Rightarrow> 'f"
  logf :: "'f \<Rightarrow> 'f"

record ('f, 'd, 'eb, 'ag) agc_step =
  agcSampleRate :: int
  targetGainDb :: 'f
  currentGainDb :: 'f
  blocksSinceLoudnessUpdate :: int
  lastMeasurementValid :: bool
  numSamplesPerRun :: int
  agcFifo :: "short fifo"
  ebur128State :: 'eb
  agcState :: 'ag
  agcOutput :: "short list"

definition agc_rate :: "int \<Rightarrow> int" where
  "agc_rate r = (if r = 8000 \<or> r = 16000 \<or> r = 32000 \<or> r = 48000 then r else 48000)"

definition agc_new :: "('f, 'd, 'x) fpu_scheme \<Rightarrow> ('f, 'd, 'eb, 'ag) agc_api \<Rightarrow> int \<Rightarrow> ('f, 'd, 'eb, 'ag) agc_step" where
  "agc_new fp api sampleRate =
     (let rate = agc_rate sampleRate
      in \<lparr>agcSampleRate = rate, targetGainDb = flit fp 0 0, currentGainDb = flit fp 0 0, blocksSinceLoudnessUpdate = 0,
          lastMeasurementValid = False, numSamplesPerRun = min 160 (c_div rate 100),
          agcFifo = fifo_new 161 None (\<lambda>n. replicate (nat n) 0), ebur128State = eb_init api rate,
          agcState = agc_init api rate, agcOutput = []\<rparr>)"

text \<open>Loudness measurement every fifth block, and the target gain it gives.\<close>

definition agc_measure :: "('f, 'd, 'x) fpu_scheme \<Rightarrow> ('f, 'd, 'eb, 'ag) agc_api \<Rightarrow> ('f, 'd, 'eb, 'ag) agc_step \<Rightarrow> short list \<Rightarrow> ('f, 'd, 'eb, 'ag) agc_step" where
  "agc_measure fp api s blk =
     (let eb = eb_add_frames api (ebur128State s) blk;
          n = blocksSinceLoudnessUpdate s + 1;
          s1 = s\<lparr>ebur128State := eb, blocksSinceLoudnessUpdate := n\<rparr>
      in if n \<ge> 5 then
           let s2 = s1\<lparr>blocksSinceLoudnessUpdate := 0\<rparr> in
           case eb_loudness_momentary api eb of
             None \<Rightarrow> s2\<lparr>lastMeasurementValid := False\<rparr>
           | Some lufs \<Rightarrow>
               if dlt fp (f2d fp (flit fp (- 33) 0)) lufs then
                 let t0 = d2f fp (dsub fp (f2d fp (flit fp (- 23) 0)) lufs);
                     t1 = (if fle fp (flit fp 12 0) t0 then flit fp 12 0 else t0);
                     t2 = (if fle fp t1 (flit fp (- 20) 0) then flit fp (- 20) 0 else t1)
                 in s2\<lparr>lastMeasurementValid := True, targetGainDb := t2\<rparr>
               else s2\<lparr>lastMeasurementValid := False\<rparr>
         else s1)"

text \<open>The ramp of the current gain towards the target.\<close>

definition agc_ramp :: "('f, 'd, 'x) fpu_scheme \<Rightarrow> ('f, 'd, 'eb, 'ag) agc_step \<Rightarrow> ('f, 'd, 'eb, 'ag) agc_step" where
  "agc_ramp fp s =
     (if lastMeasurementValid s then
        let agcInterval = (if flt fp (targetGainDb s) (currentGainDb s) then flit fp 5 (- 1) else flit fp 6 0);
            step = fmul fp (fdiv fp (fsub fp (targetGainDb s) (currentGainDb s)) agcInterval)
                     (fdiv fp (i2f fp (numSamplesPerRun s)) (i2f fp (agcSampleRate s)))
        in s\<lparr>currentGainDb := fadd fp (currentGainDb s) step\<rparr>
      else s)"

definition agc_block :: "('f, 'd, 'x) fpu_scheme \<Rightarrow> ('f, 'd, 'eb, 'ag) agc_api \<Rightarrow> ('f, 'd, 'eb, 'ag) agc_step \<Rightarrow> short list \<Rightarrow> ('f, 'd, 'eb, 'ag) agc_step" where
  "agc_block fp api s blk =
     (let s1 = agc_ramp fp (agc_measure fp api s blk);
          scaleFactor = expf api (fmul fp (fdiv fp (currentGainDb s1) (flit fp 20 0)) (logf api (flit fp 10 0)));
          scaled = map (\<lambda>x. ConvertSingleSampleToInt fp FullScale
                     (fmul fp (ConvertSingleSampleToFloat fp FullScale x) scaleFactor)) blk;
          (out, ag) = agc_process api (agcState s1) scaled
      in s1\<lparr>agcState := ag, agcOutput := agcOutput s1 @ out\<rparr>)"

definition agc_execute :: "('f, 'd, 'x) fpu_scheme \<Rightarrow> ('f, 'd, 'eb, 'ag) agc_api \<Rightarrow> ('f, 'd, 'eb, 'ag) agc_step \<Rightarrow> short list \<Rightarrow>
    (short list \<times> ('f, 'd, 'eb, 'ag) agc_step) option" where
  "agc_execute fp api s inp =
     map_option (\<lambda>(s', f). (agcOutput s', s'\<lparr>agcFifo := f\<rparr>))
       (feedBlocks (numSamplesPerRun s) (agc_block fp api) (s\<lparr>agcOutput := []\<rparr>) (agcFifo s) inp)"

text \<open>The silence that \<open>reset\<close> feeds to the loudness meter, in blocks of at most \<open>numSamplesPerRun\<close> samples.\<close>

partial_function (option) agc_silence :: "('eb \<Rightarrow> short list \<Rightarrow> 'eb) \<Rightarrow> int \<Rightarrow> 'eb \<Rightarrow> int \<Rightarrow> 'eb option" where
  "agc_silence add block eb remaining =
     (if remaining > 0 then agc_silence add block (add eb (replicate (nat (min remaining block)) 0)) (remaining - block)
      else Some eb)"

definition agc_reset :: "('f, 'd, 'x) fpu_scheme \<Rightarrow> ('f, 'd, 'eb, 'ag) agc_api \<Rightarrow> ('f, 'd, 'eb, 'ag) agc_step \<Rightarrow> ('f, 'd, 'eb, 'ag) agc_step option" where
  "agc_reset fp api s =
     map_option (\<lambda>eb.
        s\<lparr>agcFifo := fifo_reset (agcFifo s), currentGainDb := flit fp 0 0, targetGainDb := flit fp 0 0,
          blocksSinceLoudnessUpdate := 0, lastMeasurementValid := False,
          agcState := agc_reinit api (agcState s) (agcSampleRate s), ebur128State := eb\<rparr>)
       (agc_silence (eb_add_frames api) (numSamplesPerRun s) (ebur128State s) (c_div (agcSampleRate s * 4) 10))"

subsection \<open>RNNoiseStep\<close>

record ('f, 'rn) rnnoise_api =
  rnnoise_create :: 'rn
  rnnoise_process_frame :: "'rn \<Rightarrow> 'f list \<Rightarrow> 'f list \<times> 'rn"
  rnnoise_init :: "'rn \<Rightarrow> 'rn"

record 'rn rnnoise_step =
  rnnoise :: 'rn
  firstFrame :: bool
  rnFifo :: "short fifo"
  rnOutput :: "short list"

definition rnnoise_new :: "('f, 'rn) rnnoise_api \<Rightarrow> 'rn rnnoise_step" where
  "rnnoise_new api = \<lparr>rnnoise = rnnoise_create api, firstFrame = True,
     rnFifo = fifo_new 481 None (\<lambda>n. replicate (nat n) 0), rnOutput = []\<rparr>"

definition rnnoise_block :: "('f, 'd, 'x) fpu_scheme \<Rightarrow> ('f, 'rn) rnnoise_api \<Rightarrow> 'rn rnnoise_step \<Rightarrow> short list \<Rightarrow> 'rn rnnoise_step" where
  "rnnoise_block fp api s blk =
     (let (out, rn) = rnnoise_process_frame api (rnnoise s) (ConvertToFloatSampleType fp UnitScale blk);
          s1 = (if \<not> firstFrame s then s\<lparr>rnOutput := rnOutput s @ ConvertToIntSampleType fp UnitScale out\<rparr> else s)
      in s1\<lparr>rnnoise := rn, firstFrame := False\<rparr>)"

definition rnnoise_execute :: "('f, 'd, 'x) fpu_scheme \<Rightarrow> ('f, 'rn) rnnoise_api \<Rightarrow> 'rn rnnoise_step \<Rightarrow> short list \<Rightarrow> (short list \<times> 'rn rnnoise_step) option" where
  "rnnoise_execute fp api s inp =
     map_option (\<lambda>(s', f). (rnOutput s', s'\<lparr>rnFifo := f\<rparr>))
       (feedBlocks 480 (rnnoise_block fp api) (s\<lparr>rnOutput := []\<rparr>) (rnFifo s) inp)"

definition rnnoise_reset :: "('f, 'rn) rnnoise_api \<Rightarrow> 'rn rnnoise_step \<Rightarrow> 'rn rnnoise_step" where
  "rnnoise_reset api s = s\<lparr>rnFifo := fifo_reset (rnFifo s), firstFrame := True, rnnoise := rnnoise_init api (rnnoise s)\<rparr>"

subsection \<open>BandwidthExpandStep\<close>

record 'bw bwe_api =
  bwe_create :: 'bw
  osce_bwe :: "'bw \<Rightarrow> short list \<Rightarrow> short list \<times> 'bw"
  osce_reset :: "'bw \<Rightarrow> 'bw"

record 'bw bwe_step =
  osce :: 'bw
  bweFifo :: "short fifo"
  bweOutput :: "short list"

definition bwe_reset :: "'bw bwe_api \<Rightarrow> 'bw bwe_step \<Rightarrow> 'bw bwe_step" where
  "bwe_reset api s = s\<lparr>bweFifo := fifo_reset (bweFifo s), osce := osce_reset api (osce s)\<rparr>"

definition bwe_new :: "'bw bwe_api \<Rightarrow> 'bw bwe_step" where
  "bwe_new api = bwe_reset api \<lparr>osce = bwe_create api, bweFifo = fifo_new 8000 None (\<lambda>n. replicate (nat n) 0), bweOutput = []\<rparr>"

definition bwe_block :: "'bw bwe_api \<Rightarrow> 'bw bwe_step \<Rightarrow> short list \<Rightarrow> 'bw bwe_step" where
  "bwe_block api s blk =
     (let (out, bw) = osce_bwe api (osce s) blk in s\<lparr>osce := bw, bweOutput := bweOutput s @ out\<rparr>)"

definition bwe_execute :: "'bw bwe_api \<Rightarrow> 'bw bwe_step \<Rightarrow> short list \<Rightarrow> (short list \<times> 'bw bwe_step) option" where
  "bwe_execute api s inp =
     map_option (\<lambda>(s', f). (bweOutput s', s'\<lparr>bweFifo := f\<rparr>))
       (feedAll 320 (bwe_block api) (s\<lparr>bweOutput := []\<rparr>) (bweFifo s) inp)"

subsection \<open>The block loops process the full blocks of the stream\<close>

lemma drainBlocks_eq:
  assumes "fifo_inv f" and "0 < k" and "k < 2 ^ 31"
  shows "\<exists>f'. drainBlocks (int k) proc st f = Some (foldl proc st (frames k (contents f)), f') \<and>
    fifo_inv f' \<and> contents f' = leftover k (contents f) \<and> capacity f' = capacity f"
  using assms(1)
proof (induction "length (contents f)" arbitrary: f st rule: less_induct)
  case less
  have used: "numUsed f = int (length (contents f))" using less.prems by (rule fq.used_items)
  show ?case
  proof (cases "k \<le> length (contents f)")
    case True
    obtain r blk g where rd: "fifo_read f (int k) = (r, blk, g)" by (rule prod_cases3)
    have g: "blk = take k (contents f)" "fifo_inv g" "contents g = drop k (contents f)" "capacity g = capacity f"
      using fq.read_available [OF less.prems, of "int k"] fq.cap_read [of f "int k"] True used rd by auto
    have "length (contents g) < length (contents f)" using g(3) assms(2) True by simp
    from less.hyps [OF this g(2), of "proc st blk"] show ?thesis
      using True assms(2) used g by (subst drainBlocks.simps) (simp add: rd frames_step leftover_step)
  next
    case False
    then show ?thesis using less.prems used by (subst drainBlocks.simps) (simp add: frames_short leftover_short)
  qed
qed

text \<open>What one round of an outer loop writes: something, as long as less than a block is buffered.\<close>

lemma feed_write:
  assumes "fifo_inv f" and "length (contents f) < k" and "int k \<le> capacity f" and "inp \<noteq> []"
  obtains n g where "0 < n" and "n \<le> length inp" and "min (numFree f) (int (length inp)) = int n"
    and "snd (fifo_write f inp (int n)) = g" and "fifo_inv g" and "contents g = contents f @ take n inp"
    and "capacity g = capacity f"
proof -
  let ?n = "nat (min (numFree f) (int (length inp)))"
  have free: "0 < numFree f" using fq.free_used [OF assms(1)] fq.used_items [OF assms(1)] assms(2,3) by linarith
  then have n: "0 < ?n" "?n \<le> length inp" "min (numFree f) (int (length inp)) = int ?n" using assms(4) by (auto simp: min_def)
  have "fifo_inv (snd (fifo_write f inp (int ?n))) \<and> contents (snd (fifo_write f inp (int ?n))) = contents f @ take ?n inp"
    using fq.write_fits [OF assms(1), of "int ?n" inp] n by auto
  then show thesis using that [OF n refl] fq.cap_write [of f inp "int ?n"] by simp
qed

lemma feedBlocks_eq:
  assumes "fifo_inv f" and "0 < k" and "k < 2 ^ 31" and "length (contents f) < k" and "int k \<le> capacity f"
  shows "\<exists>f'. feedBlocks (int k) proc st f inp = Some (foldl proc st (frames k (contents f @ inp)), f') \<and>
    fifo_inv f' \<and> contents f' = leftover k (contents f @ inp) \<and> capacity f' = capacity f"
  using assms(1,4,5)
proof (induction "length inp" arbitrary: f st inp rule: less_induct)
  case less
  show ?case
  proof (cases "inp = []")
    case False
    obtain n g where n: "0 < n" "n \<le> length inp" "min (numFree f) (int (length inp)) = int n"
      and g: "snd (fifo_write f inp (int n)) = g" "fifo_inv g" "contents g = contents f @ take n inp" "capacity g = capacity f"
      using feed_write [OF less.prems False] .
    obtain h where h: "drainBlocks (int k) proc st g = Some (foldl proc st (frames k (contents g)), h)"
      "fifo_inv h" "contents h = leftover k (contents g)" "capacity h = capacity g"
      using drainBlocks_eq [OF g(2) assms(2,3), of proc st] by blast
    have "length (contents h) < k" using h(3) length_leftover [OF assms(2)] by simp
    moreover have "length (drop n inp) < length inp" using n False by simp
    ultimately obtain f' where f': "feedBlocks (int k) proc (foldl proc st (frames k (contents g))) h (drop n inp) =
        Some (foldl proc (foldl proc st (frames k (contents g))) (frames k (contents h @ drop n inp)), f')"
      "fifo_inv f'" "contents f' = leftover k (contents h @ drop n inp)" "capacity f' = capacity f"
      using less.hyps [of "drop n inp" h] h(2,4) g(4) less.prems(3) by fastforce
    have "feedBlocks (int k) proc st f inp = feedBlocks (int k) proc (foldl proc st (frames k (contents g))) h (drop n inp)"
      using n g(1) False by (subst feedBlocks.simps) (simp add: Let_def h(1))
    moreover have "frames k (contents f @ inp) = frames k (contents g) @ frames k (contents h @ drop n inp) \<and>
        leftover k (contents f @ inp) = leftover k (contents h @ drop n inp)"
      using frames_append [OF assms(2), of "contents g" "drop n inp"] g(3) h(3) by simp
    ultimately show ?thesis using f' by simp
  qed (use less.prems in \<open>simp add: feedBlocks.simps frames_short leftover_short\<close>)
qed

lemma feedAll_eq:
  assumes "fifo_inv f" and "0 < k" and "k < 2 ^ 31" and "length (contents f) < k" and "int k \<le> capacity f"
  shows "feedAll (int k) proc st f inp = feedBlocks (int k) proc st f inp"
  using assms(1,4,5)
proof (induction "length inp" arbitrary: f st inp rule: less_induct)
  case less
  show ?case
  proof (cases "inp = []")
    case False
    obtain n g where n: "0 < n" "n \<le> length inp" "min (numFree f) (int (length inp)) = int n"
      and g: "snd (fifo_write f inp (int n)) = g" "fifo_inv g" "contents g = contents f @ take n inp" "capacity g = capacity f"
      using feed_write [OF less.prems False] .
    obtain h where h: "drainBlocks (int k) proc st g = Some (foldl proc st (frames k (contents g)), h)"
      "fifo_inv h" "contents h = leftover k (contents g)" "capacity h = capacity g"
      using drainBlocks_eq [OF g(2) assms(2,3), of proc st] by blast
    have "feedAll (int k) proc s h (drop n inp) = feedBlocks (int k) proc s h (drop n inp)" for s
      using less.hyps [of "drop n inp" h s] n False h length_leftover [OF assms(2), of "contents g"] g(4) less.prems(3) by simp
    then show ?thesis
      using n g(1) False by (subst feedAll.simps, subst feedBlocks.simps) (simp add: Let_def h(1))
  qed (simp add: feedAll.simps feedBlocks.simps)
qed

subsection \<open>The contract of a block step\<close>

text \<open>A sequence of calls of \<open>execute\<close>, with the outputs joined.\<close>

fun runCalls :: "('s \<Rightarrow> 'a list \<Rightarrow> ('b list \<times> 's) option) \<Rightarrow> 's \<Rightarrow> 'a list list \<Rightarrow> ('b list \<times> 's) option" where
  "runCalls ex s [] = Some ([], s)"
| "runCalls ex s (x # xs) = Option.bind (ex s x) (\<lambda>(o1, s1). map_option (\<lambda>(o2, s2). (o1 @ o2, s2)) (runCalls ex s1 xs))"

text \<open>
  A block step: its block procedure only appends to the output of the call and does not touch the
  FIFO, and its \<open>execute\<close> feeds the FIFO and drains it block by block.
\<close>

locale block_step =
  fixes proc :: "'s \<Rightarrow> 'a list \<Rightarrow> 's" and out :: "'s \<Rightarrow> 'b list" and setOut :: "'b list \<Rightarrow> 's \<Rightarrow> 's"
    and ff :: "'s \<Rightarrow> 'a fifo" and setF :: "'a fifo \<Rightarrow> 's \<Rightarrow> 's" and k :: nat and ok :: "'s \<Rightarrow> bool"
    and exec :: "'s \<Rightarrow> 'a list \<Rightarrow> ('b list \<times> 's) option"
  assumes block_size: "0 < k" "k < 2 ^ 31"
    and out_set: "out (setOut u s) = u" and set_set: "setOut u (setOut v s) = setOut u s" and set_out: "setOut (out s) s = s"
    and ff_set: "ff (setF f s) = f" and ff_setOut: "ff (setOut u s) = ff s" and ff_proc: "ff (proc s b) = ff s"
    and setF_set: "setF f (setF g s) = setF f s" and setF_setOut: "setF f (setOut u s) = setOut u (setF f s)"
    and out_setF: "out (setF f s) = out s" and proc_setF: "proc (setF f s) b = setF f (proc s b)"
    and proc_appends: "proc (setOut u s) b = setOut (u @ out (proc (setOut [] s) b)) (proc (setOut [] s) b)"
    and ok_keep: "ok s \<Longrightarrow> ok (proc s b)" "ok s \<Longrightarrow> ok (setOut u s)" "ok s \<Longrightarrow> ok (setF f s)"
    and exec_eq: "ok s \<Longrightarrow> fifo_inv (ff s) \<Longrightarrow> length (contents (ff s)) < k \<Longrightarrow> int k \<le> capacity (ff s) \<Longrightarrow>
      exec s inp = map_option (\<lambda>(s', f). (out s', setF f s')) (feedBlocks (int k) proc (setOut [] s) (ff s) inp)"
begin

lemma foldl_appends:
  "foldl proc (setOut u s) bs = setOut (u @ out (foldl proc (setOut [] s) bs)) (foldl proc (setOut [] s) bs)"
proof (induction bs rule: rev_induct)
  case Nil
  show ?case by (simp add: out_set set_set)
next
  case (snoc b bs)
  let ?S = "foldl proc (setOut [] s) bs"
  have "proc ?S b = setOut (out ?S @ out (proc (setOut [] ?S) b)) (proc (setOut [] ?S) b)"
    using proc_appends [of "out ?S" ?S b] by (simp add: set_out)
  then show ?case using snoc.IH proc_appends [of "u @ out ?S" ?S b] by (simp add: out_set set_set)
qed

lemma foldl_setF: "foldl proc (setF f s) bs = setF f (foldl proc s bs)"
  by (induction bs arbitrary: s) (simp_all add: proc_setF)

lemma foldl_ok: "ok s \<Longrightarrow> ok (foldl proc s bs)"
  by (induction bs arbitrary: s) (simp_all add: ok_keep)

text \<open>A sequence of calls processes the full blocks of the stream, in order, and keeps the rest.\<close>

lemma stream:
  assumes "ok s" and "fifo_inv (ff s)" and "length (contents (ff s)) < k" and "int k \<le> capacity (ff s)"
  shows "\<exists>s'. runCalls exec s inputs = Some (out (foldl proc (setOut [] s) (frames k (contents (ff s) @ concat inputs))), s') \<and>
    contents (ff s') = leftover k (contents (ff s) @ concat inputs) \<and>
    setOut [] (setF g s') = setOut [] (setF g (foldl proc s (frames k (contents (ff s) @ concat inputs))))"
  using assms
proof (induction inputs arbitrary: s)
  case Nil
  then show ?case by (simp add: frames_short leftover_short out_set)
next
  case (Cons x xs)
  let ?c = "contents (ff s)"
  let ?S = "foldl proc (setOut [] s) (frames k (?c @ x))"
  obtain f where f: "feedBlocks (int k) proc (setOut [] s) (ff s) x = Some (?S, f)" "fifo_inv f"
    "contents f = leftover k (?c @ x)" "capacity f = capacity (ff s)"
    using feedBlocks_eq [OF Cons.prems(2) block_size Cons.prems(3,4), of proc "setOut [] s" x] by blast
  let ?s1 = "setF f ?S"
  have ex: "exec s x = Some (out ?S, ?s1)" using exec_eq [OF Cons.prems] f(1) by simp
  have "ok ?s1" "length (contents (ff ?s1)) < k" "int k \<le> capacity (ff ?s1)" "fifo_inv (ff ?s1)"
    using Cons.prems f length_leftover [OF block_size(1), of "?c @ x"] by (simp_all add: ff_set ok_keep foldl_ok)
  from Cons.IH [OF this(1) this(4) this(2,3)] obtain s' where
    run: "runCalls exec ?s1 xs = Some (out (foldl proc (setOut [] ?s1) (frames k (leftover k (?c @ x) @ concat xs))), s')"
    and rest: "contents (ff s') = leftover k (leftover k (?c @ x) @ concat xs)"
    and core: "setOut [] (setF g s') = setOut [] (setF g (foldl proc ?s1 (frames k (leftover k (?c @ x) @ concat xs))))"
    by (auto simp: ff_set f(3))
  have fr: "frames k (?c @ x @ concat xs) = frames k (?c @ x) @ frames k (leftover k (?c @ x) @ concat xs)"
    "leftover k (?c @ x @ concat xs) = leftover k (leftover k (?c @ x) @ concat xs)"
    using frames_append [OF block_size(1), of "?c @ x" "concat xs"] by simp_all
  have S: "foldl proc s (frames k (?c @ x)) = setOut (out s @ out ?S) ?S"
    using foldl_appends [of "out s" s] by (simp add: set_out)
  have "foldl proc ?S bs = setOut (out ?S @ out (foldl proc (setOut [] ?S) bs)) (foldl proc (setOut [] ?S) bs)" for bs
    using foldl_appends [of "out ?S" ?S bs] by (simp add: set_out)
  then have outs: "out (foldl proc ?S bs) = out ?S @ out (foldl proc (setOut [] ?S) bs)" for bs by (simp add: out_set)
  have "setOut [] (foldl proc (setOut u ?S) bs) = setOut [] (foldl proc ?S bs)" for u bs
    using foldl_appends [of u ?S bs] foldl_appends [of "out ?S" ?S bs] by (simp add: set_set set_out)
  then have cores: "setOut [] (setF g (foldl proc (setOut u ?S) bs)) = setOut [] (setF g (foldl proc ?S bs))" for u bs
    by (simp only: setF_setOut [symmetric])
  have "out (foldl proc (setOut [] ?s1) bs) = out (foldl proc (setOut [] ?S) bs)" for bs
    by (simp only: setF_setOut [symmetric] foldl_setF out_setF)
  then show ?case using ex run rest core by (simp add: fr outs S foldl_setF setF_set cores)
qed

end

subsection \<open>The three steps fulfil the contract\<close>

lemma agc_measure_other:
  "agc_measure fp api (s\<lparr>agcOutput := u\<rparr>) b = (agc_measure fp api s b)\<lparr>agcOutput := u\<rparr>"
  "agc_measure fp api (s\<lparr>agcFifo := f\<rparr>) b = (agc_measure fp api s b)\<lparr>agcFifo := f\<rparr>"
  "agcOutput (agc_measure fp api s b) = agcOutput s" "agcFifo (agc_measure fp api s b) = agcFifo s"
  "numSamplesPerRun (agc_measure fp api s b) = numSamplesPerRun s" "agcSampleRate (agc_measure fp api s b) = agcSampleRate s"
  by (simp_all add: agc_measure_def Let_def split: option.split)

lemma agc_ramp_other:
  "agc_ramp fp (s\<lparr>agcOutput := u\<rparr>) = (agc_ramp fp s)\<lparr>agcOutput := u\<rparr>"
  "agc_ramp fp (s\<lparr>agcFifo := f\<rparr>) = (agc_ramp fp s)\<lparr>agcFifo := f\<rparr>"
  "agcOutput (agc_ramp fp s) = agcOutput s" "agcFifo (agc_ramp fp s) = agcFifo s"
  "numSamplesPerRun (agc_ramp fp s) = numSamplesPerRun s" "agcSampleRate (agc_ramp fp s) = agcSampleRate s"
  by (simp_all add: agc_ramp_def Let_def)

lemmas agc_other = agc_measure_other agc_ramp_other

lemma agc_block_step:
  assumes "0 < k" and "k < 2 ^ 31"
  shows "block_step (agc_block fp api) agcOutput (\<lambda>u s. s\<lparr>agcOutput := u\<rparr>) agcFifo (\<lambda>f s. s\<lparr>agcFifo := f\<rparr>) k
    (\<lambda>s. numSamplesPerRun s = int k) (agc_execute fp api)"
  by unfold_locales (use assms in \<open>simp_all add: agc_block_def agc_execute_def Let_def agc_other split: prod.split\<close>)

interpretation agc80: block_step "agc_block fp api" agcOutput "\<lambda>u s. s\<lparr>agcOutput := u\<rparr>" agcFifo "\<lambda>f s. s\<lparr>agcFifo := f\<rparr>" 80
  "\<lambda>s. numSamplesPerRun s = int 80" "agc_execute fp api" for fp api
  by (rule agc_block_step) simp_all

interpretation agc160: block_step "agc_block fp api" agcOutput "\<lambda>u s. s\<lparr>agcOutput := u\<rparr>" agcFifo "\<lambda>f s. s\<lparr>agcFifo := f\<rparr>" 160
  "\<lambda>s. numSamplesPerRun s = int 160" "agc_execute fp api" for fp api
  by (rule agc_block_step) simp_all

interpretation rn: block_step "rnnoise_block fp api" rnOutput "\<lambda>u s. s\<lparr>rnOutput := u\<rparr>" rnFifo "\<lambda>f s. s\<lparr>rnFifo := f\<rparr>" 480
  "\<lambda>_. True" "rnnoise_execute fp api" for fp api
  by unfold_locales (simp_all add: rnnoise_block_def rnnoise_execute_def Let_def split: prod.split)

interpretation bwe: block_step "bwe_block api" bweOutput "\<lambda>u s. s\<lparr>bweOutput := u\<rparr>" bweFifo "\<lambda>f s. s\<lparr>bweFifo := f\<rparr>" 320
  "\<lambda>_. True" "bwe_execute api" for api
  by unfold_locales (simp_all add: bwe_block_def bwe_execute_def feedAll_eq [of _ 320, simplified] split: prod.split)

lemma fresh_fifo:
  assumes "0 < n" and "n < 2 ^ 31"
  shows "fifo_inv (fifo_new n None (\<lambda>n. replicate (nat n) x))" "contents (fifo_new n None (\<lambda>n. replicate (nat n) x)) = []"
    "capacity (fifo_new n None (\<lambda>n. replicate (nat n) x)) = n - 1"
  using fifo_new_inv [where len = n and inBuf = None and fresh = "\<lambda>n. replicate (nat n) x"] assms by (simp_all add: capacity_def fifo_new_def)

lemma agc_new_block:
  "numSamplesPerRun (agc_new fp api rate) = int (nat (numSamplesPerRun (agc_new fp api rate)))"
  "nat (numSamplesPerRun (agc_new fp api rate)) = 80 \<or> nat (numSamplesPerRun (agc_new fp api rate)) = 160"
  "100 * numSamplesPerRun (agc_new fp api rate) \<le> agcSampleRate (agc_new fp api rate)" "agcOutput (agc_new fp api rate) = []"
  by (auto simp: agc_new_def agc_rate_def Let_def)

lemma agc_run:
  fixes g :: "short fifo"
  defines "n \<equiv> \<lambda>s. nat (numSamplesPerRun s)"
  shows "\<exists>s'. runCalls (agc_execute fp api) (agc_new fp api rate) inputs =
      Some (agcOutput (foldl (agc_block fp api) (agc_new fp api rate) (frames (n (agc_new fp api rate)) (concat inputs))), s') \<and>
    contents (agcFifo s') = leftover (n (agc_new fp api rate)) (concat inputs) \<and>
    s'\<lparr>agcFifo := g, agcOutput := []\<rparr> =
      (foldl (agc_block fp api) (agc_new fp api rate) (frames (n (agc_new fp api rate)) (concat inputs)))\<lparr>agcFifo := g, agcOutput := []\<rparr>"
proof -
  let ?s = "agc_new fp api rate"
  have f: "fifo_inv (agcFifo ?s)" "contents (agcFifo ?s) = []" "capacity (agcFifo ?s) = 160"
    using fresh_fifo [of 161 "0 :: short"] by (simp_all add: agc_new_def Let_def)
  have s: "?s\<lparr>agcOutput := []\<rparr> = ?s" by (simp add: agc_new_def Let_def)
  consider "n ?s = 80" "numSamplesPerRun ?s = 80" | "n ?s = 160" "numSamplesPerRun ?s = 160"
    using agc_new_block(1,2) [of fp api rate] by (force simp: n_def)
  then show ?thesis
    using agc80.stream [of ?s fp api inputs g] agc160.stream [of ?s fp api inputs g] f by cases (simp_all add: s)
qed

lemma bwe_new_ready:
  "fifo_inv (bweFifo (bwe_new api))" "contents (bweFifo (bwe_new api)) = []" "capacity (bweFifo (bwe_new api)) = 7999"
  "(bwe_new api)\<lparr>bweOutput := []\<rparr> = bwe_new api"
proof -
  let ?f = "fifo_new 8000 None (\<lambda>n. replicate (nat n) (0 :: short))"
  have "fifo_inv (fifo_reset ?f)" "contents (fifo_reset ?f) = []" "capacity (fifo_reset ?f) = 7999"
    using fifo_reset_inv [of ?f] fresh_fifo [of 8000 "0 :: short"] fq.reset_items [of ?f] by (simp_all add: fifo_new_def)
  then show "fifo_inv (bweFifo (bwe_new api))" "contents (bweFifo (bwe_new api)) = []" "capacity (bweFifo (bwe_new api)) = 7999"
    "(bwe_new api)\<lparr>bweOutput := []\<rparr> = bwe_new api"
    by (simp_all add: bwe_new_def bwe_reset_def)
qed

subsection \<open>The gain of the gain control\<close>

definition gains_ok :: "(real, 'd, 'eb, 'ag) agc_step \<Rightarrow> bool" where
  "gains_ok s \<longleftrightarrow> - 20 \<le> targetGainDb s \<and> targetGainDb s \<le> 12 \<and> - 20 \<le> currentGainDb s \<and> currentGainDb s \<le> 12 \<and>
     0 \<le> numSamplesPerRun s \<and> 0 < agcSampleRate s \<and> 100 * numSamplesPerRun s \<le> agcSampleRate s"

lemma ramp_between:
  fixes a c t lo hi :: real
  assumes "0 \<le> a" and "a \<le> 1" and "lo \<le> c" and "c \<le> hi" and "lo \<le> t" and "t \<le> hi"
  shows "lo \<le> c + a * (t - c)" and "c + a * (t - c) \<le> hi"
proof -
  have "c + a * (t - c) = (1 - a) * c + a * t" by (simp add: algebra_simps)
  moreover have "(1 - a) * lo + a * lo \<le> (1 - a) * c + a * t" "(1 - a) * c + a * t \<le> (1 - a) * hi + a * hi"
    using assms by (intro add_mono mult_left_mono; simp)+
  ultimately show "lo \<le> c + a * (t - c)" "c + a * (t - c) \<le> hi" by (simp_all add: algebra_simps)
qed

lemma gains_ok_measure: "gains_ok s \<Longrightarrow> gains_ok (agc_measure real_fpu api s b)"
  by (auto simp: gains_ok_def agc_measure_def Let_def real_lit_def split: option.split)

lemma gains_ok_ramp:
  assumes "gains_ok s"
  shows "gains_ok (agc_ramp real_fpu s)"
proof -
  define q where "q = real_of_int (numSamplesPerRun s) / real_of_int (agcSampleRate s)"
  have pos: "0 < real_of_int (agcSampleRate s)" "0 \<le> real_of_int (numSamplesPerRun s)"
    "100 * real_of_int (numSamplesPerRun s) \<le> real_of_int (agcSampleRate s)"
    using assms unfolding gains_ok_def by linarith+
  have q: "0 \<le> q" "q \<le> 1 / 100" using pos by (auto simp: q_def pos_divide_le_eq)
  have B: "- 20 \<le> targetGainDb s" "targetGainDb s \<le> 12" "- 20 \<le> currentGainDb s" "currentGainDb s \<le> 12"
    using assms by (auto simp: gains_ok_def)
  note fast = ramp_between [of "2 * q" "- 20" "currentGainDb s" 12 "targetGainDb s"]
    and slow = ramp_between [of "q / 6" "- 20" "currentGainDb s" 12 "targetGainDb s"]
  show ?thesis
    using assms fast slow q B
    by (auto simp: gains_ok_def agc_ramp_def Let_def real_lit_def mult_ac simp flip: q_def)
qed

lemma gains_ok_block: "gains_ok s \<Longrightarrow> gains_ok (agc_block real_fpu api s b)"
  using gains_ok_ramp [OF gains_ok_measure, of s api b]
  by (simp add: agc_block_def Let_def gains_ok_def agc_other split: prod.split)

subsection \<open>Properties\<close>

text \<open>
  The gain control always returns, and cutting its input into calls is not observable: over any
  sequence of calls it processes exactly the full blocks of the whole input, in order, and keeps
  what does not fill a block for the next call.
\<close>

theorem agc_stream:
  "\<exists>s'. runCalls (agc_execute fp api) (agc_new fp api rate) inputs =
      Some (agcOutput (foldl (agc_block fp api) (agc_new fp api rate)
        (frames (nat (numSamplesPerRun (agc_new fp api rate))) (concat inputs))), s') \<and>
    contents (agcFifo s') = leftover (nat (numSamplesPerRun (agc_new fp api rate))) (concat inputs)"
  using agc_run [of fp api rate inputs] by blast

text \<open>
  In exact arithmetic the gain never leaves the range from -20 dB to 12 dB, whatever the loudness
  meter reports and whatever the input.
\<close>

theorem agc_gain_bounded:
  "\<exists>out s'. runCalls (agc_execute real_fpu api) (agc_new real_fpu api rate) inputs = Some (out, s') \<and>
    - 20 \<le> currentGainDb s' \<and> currentGainDb s' \<le> 12"
proof -
  let ?s = "agc_new real_fpu api rate"
  have ok: "gains_ok ?s" using agc_new_block(3) [of real_fpu api rate] by (auto simp: gains_ok_def agc_new_def agc_rate_def Let_def real_lit_def)
  have fold: "gains_ok s \<Longrightarrow> gains_ok (foldl (agc_block real_fpu api) s bs)" for s bs
    by (induction bs arbitrary: s) (simp_all add: gains_ok_block)
  obtain s' where run: "runCalls (agc_execute real_fpu api) ?s inputs =
      Some (agcOutput (foldl (agc_block real_fpu api) ?s (frames (nat (numSamplesPerRun ?s)) (concat inputs))), s')"
    and core: "s'\<lparr>agcFifo := agcFifo ?s, agcOutput := []\<rparr> =
      (foldl (agc_block real_fpu api) ?s (frames (nat (numSamplesPerRun ?s)) (concat inputs)))\<lparr>agcFifo := agcFifo ?s, agcOutput := []\<rparr>"
    using agc_run [of real_fpu api rate inputs] by blast
  have "currentGainDb s' = currentGainDb (foldl (agc_block real_fpu api) ?s (frames (nat (numSamplesPerRun ?s)) (concat inputs)))"
    using arg_cong [OF core, of currentGainDb] by simp
  then show ?thesis using fold [OF ok] run by (auto simp: gains_ok_def)
qed

text \<open>
  Noise suppression over any sequence of calls outputs the suppressed frames of 480 samples of the
  whole input, in order, without the first one.
\<close>

theorem rnnoise_stream:
  "\<exists>s'. runCalls (rnnoise_execute fp api) (rnnoise_new api) inputs =
      Some (rnOutput (foldl (rnnoise_block fp api) (rnnoise_new api) (frames 480 (concat inputs))), s') \<and>
    contents (rnFifo s') = leftover 480 (concat inputs)"
proof -
  have "fifo_inv (rnFifo (rnnoise_new api))" "contents (rnFifo (rnnoise_new api)) = []" "capacity (rnFifo (rnnoise_new api)) = 480"
    "(rnnoise_new api)\<lparr>rnOutput := []\<rparr> = rnnoise_new api"
    using fresh_fifo [of 481 "0 :: short"] by (simp_all add: rnnoise_new_def)
  then show ?thesis using rn.stream [of "rnnoise_new api" fp api inputs undefined] by auto
qed

text \<open>
  Bandwidth expansion over any sequence of calls outputs the expanded frames of 320 samples of the
  whole input, in order.
\<close>

theorem bwe_stream:
  "\<exists>s'. runCalls (bwe_execute api) (bwe_new api) inputs =
      Some (bweOutput (foldl (bwe_block api) (bwe_new api) (frames 320 (concat inputs))), s') \<and>
    contents (bweFifo s') = leftover 320 (concat inputs)"
  using bwe.stream [of "bwe_new api" api inputs undefined] by (auto simp: bwe_new_ready simp del: length_contents)

end
