(* ===== verification/Link_Tap.thy ===== *)
theory Link_Tap
  imports Block_Steps
begin

text \<open>
  The two steps that hand audio to another thread or pipeline: \<^verbatim>\<open>src/src/pipeline/LinkStep.cpp\<close>, a FIFO whose
  ends are steps of two pipelines, and \<^verbatim>\<open>src/src/pipeline/TapStep.cpp\<close>, which copies the audio path to a
  thread of its own and counts what does not fit. The FIFO operations are those of \<^verbatim>\<open>GenericFIFO\<close>,
  atomic here; the theory of its concurrency shows what that rests on.
\<close>

subsection \<open>LinkStep\<close>

record link_step =
  linkSampleRate :: int
  linkFifo :: "short fifo"

definition link_new :: "int \<Rightarrow> int \<Rightarrow> link_step" where
  "link_new outputSampleRate numSamples =
     \<lparr>linkSampleRate = outputSampleRate, linkFifo = fifo_new numSamples None (\<lambda>n. replicate (nat n) 0)\<rparr>"

definition clearFifo :: "link_step \<Rightarrow> link_step" where
  "clearFifo l = l\<lparr>linkFifo := fifo_reset (linkFifo l)\<rparr>"

definition link_input_execute :: "link_step \<Rightarrow> short list \<Rightarrow> short list \<times> link_step" where
  "link_input_execute l inp =
     (if inp \<noteq> [] then ([], l\<lparr>linkFifo := snd (fifo_write (linkFifo l) inp (int (length inp)))\<rparr>) else ([], l))"

definition linkCount :: "link_step \<Rightarrow> int \<Rightarrow> int" where
  "linkCount l numInputSamples =
     min (if numInputSamples > 0 then min (numUsed (linkFifo l)) numInputSamples else numUsed (linkFifo l)) (linkSampleRate l)"

definition link_output_execute :: "link_step \<Rightarrow> int \<Rightarrow> short list \<times> link_step" where
  "link_output_execute l numInputSamples =
     (let n = linkCount l numInputSamples
      in if n > 0 then (case fifo_read (linkFifo l) n of (r, out, f) \<Rightarrow> (out, l\<lparr>linkFifo := f\<rparr>)) else ([], l))"

text \<open>The reference: a queue of bounded length that takes a block whole or not at all.\<close>

datatype link_call = LinkIn "short list" | LinkOut int

fun link_do :: "link_step \<Rightarrow> link_call \<Rightarrow> short list \<times> link_step" where
  "link_do l (LinkIn inp) = link_input_execute l inp"
| "link_do l (LinkOut n) = link_output_execute l n"

fun link_ref :: "nat \<Rightarrow> nat \<Rightarrow> short list \<Rightarrow> link_call \<Rightarrow> short list \<times> short list" where
  "link_ref cap rate q (LinkIn inp) = ([], if length q + length inp \<le> cap then q @ inp else q)"
| "link_ref cap rate q (LinkOut n) =
     (let k = min rate (if n > 0 then min (length q) (nat n) else length q) in (take k q, drop k q))"

fun runOutputs :: "('s \<Rightarrow> 'c \<Rightarrow> 'o \<times> 's) \<Rightarrow> 's \<Rightarrow> 'c list \<Rightarrow> 'o list" where
  "runOutputs f s [] = []"
| "runOutputs f s (c # cs) = fst (f s c) # runOutputs f (snd (f s c)) cs"

subsection \<open>TapStep: the audio path\<close>

record 'st tap_step =
  tapSampleRate :: int
  tapFifo :: "short fifo"
  tapStep :: 'st
  semCount :: nat
  endingTapThread :: bool
  unreportedDroppedSamples :: int
  unreportedDrops :: int
  dropping :: bool
  samplesDropped :: int

definition tap_new :: "int \<Rightarrow> int \<Rightarrow> 'st \<Rightarrow> 'st tap_step" where
  "tap_new sampleRate quarter st =
     \<lparr>tapSampleRate = sampleRate, tapFifo = fifo_new quarter None (\<lambda>n. replicate (nat n) 0), tapStep = st, semCount = 0,
      endingTapThread = False, unreportedDroppedSamples = 0, unreportedDrops = 0, dropping = False, samplesDropped = 0\<rparr>"

text \<open>The loop of \<open>execute\<close> over 10 ms blocks; it returns the samples that did not fit.\<close>

partial_function (option) tapLoop :: "int \<Rightarrow> short fifo \<Rightarrow> short list \<Rightarrow> int \<Rightarrow> (short fifo \<times> int) option" where
  "tapLoop sampleRate f inp dropped =
     (if inp \<noteq> [] then
        let samplesToRead = min (c_div sampleRate 100) (int (length inp));
            (ret, f1) = fifo_write f inp samplesToRead
        in tapLoop sampleRate f1 (drop (nat samplesToRead) inp) (if ret \<noteq> 0 then dropped + samplesToRead else dropped)
      else Some (f, dropped))"

definition tap_execute :: "'st tap_step \<Rightarrow> short list \<Rightarrow> (short list \<times> 'st tap_step) option" where
  "tap_execute t inp =
     map_option (\<lambda>(f, dropped).
        let t1 = t\<lparr>tapFifo := f\<rparr>;
            t2 = (if numUsed f \<ge> c_div (tapSampleRate t) 100 then t1\<lparr>semCount := semCount t1 + 1\<rparr> else t1);
            t3 = (if dropped > 0
                  then t2\<lparr>unreportedDroppedSamples := unreportedDroppedSamples t2 + dropped, unreportedDrops := unreportedDrops t2 + 1\<rparr>
                  else t2)
        in (inp, t3))
       (tapLoop (tapSampleRate t) (tapFifo t) inp 0)"

subsection \<open>TapStep: the tap thread\<close>

text \<open>
  \<open>processBufferedBlocks\<close> runs the tapped step \<open>tap\<close> on every full block. \<open>tapReport\<close> is \<open>reportDrops_\<close> on
  the two counters it has exchanged for zero; its log output is a list of events.
\<close>

datatype tap_log = DropsStarted int | DropsEnded int

definition processBufferedBlocks :: "('st \<Rightarrow> short list \<Rightarrow> 'st) \<Rightarrow> 'st tap_step \<Rightarrow> 'st tap_step option" where
  "processBufferedBlocks tap t =
     map_option (\<lambda>(st, f). t\<lparr>tapStep := st, tapFifo := f\<rparr>)
       (drainBlocks (c_div (tapSampleRate t) 100) tap (tapStep t) (tapFifo t))"

definition tapReport :: "int \<Rightarrow> int \<Rightarrow> 'st tap_step \<Rightarrow> tap_log list \<times> 'st tap_step" where
  "tapReport drops samples t =
     (if drops > 0 then
        ((if \<not> dropping t then [DropsStarted samples] else []),
         t\<lparr>dropping := True, samplesDropped := samplesDropped t + samples\<rparr>)
      else if dropping t then ([DropsEnded (samplesDropped t)], t\<lparr>dropping := False, samplesDropped := 0\<rparr>)
      else ([], t))"

definition reportDrops :: "'st tap_step \<Rightarrow> tap_log list \<times> 'st tap_step" where
  "reportDrops t = tapReport (unreportedDrops t) (unreportedDroppedSamples t)
     (t\<lparr>unreportedDrops := 0, unreportedDroppedSamples := 0\<rparr>)"

text \<open>One round of the thread: process, report, wait for the semaphore (taken when it can be).\<close>

definition tapThreadRound :: "('st \<Rightarrow> short list \<Rightarrow> 'st) \<Rightarrow> 'st tap_step \<Rightarrow> (tap_log list \<times> 'st tap_step) option" where
  "tapThreadRound tap t =
     map_option (\<lambda>t1. case reportDrops t1 of (l, t2) \<Rightarrow> (l, t2\<lparr>semCount := semCount t2 - 1\<rparr>)) (processBufferedBlocks tap t)"

text \<open>The destructor: stop the thread, which processes and reports once more, and report what is open.\<close>

definition tap_destroy :: "('st \<Rightarrow> short list \<Rightarrow> 'st) \<Rightarrow> 'st tap_step \<Rightarrow> (tap_log list \<times> 'st tap_step) option" where
  "tap_destroy tap t =
     map_option (\<lambda>t1. case reportDrops t1 of (l, t2) \<Rightarrow>
        (l @ (if dropping t2 then [DropsEnded (samplesDropped t2)] else []), t2))
       (processBufferedBlocks tap (t\<lparr>endingTapThread := True, semCount := semCount t + 1\<rparr>))"

subsection \<open>The link is a queue\<close>

definition link_inv :: "link_step \<Rightarrow> bool" where
  "link_inv l \<longleftrightarrow> fifo_inv (linkFifo l) \<and> 0 \<le> linkSampleRate l"

lemma link_do_ref:
  assumes "link_inv l"
  shows "fst (link_do l c) = fst (link_ref (nat (capacity (linkFifo l))) (nat (linkSampleRate l)) (contents (linkFifo l)) c) \<and>
    contents (linkFifo (snd (link_do l c))) = snd (link_ref (nat (capacity (linkFifo l))) (nat (linkSampleRate l)) (contents (linkFifo l)) c) \<and>
    link_inv (snd (link_do l c)) \<and> capacity (linkFifo (snd (link_do l c))) = capacity (linkFifo l) \<and>
    linkSampleRate (snd (link_do l c)) = linkSampleRate l"
proof -
  let ?f = "linkFifo l"
  have inv: "fifo_inv ?f" "0 \<le> linkSampleRate l" using assms by (auto simp: link_inv_def)
  have used: "numUsed ?f = int (length (contents ?f))" using inv(1) by (rule fq.used_items)
  have free: "numFree ?f = capacity ?f - numUsed ?f" "0 \<le> numFree ?f"
    using fq.free_used [OF inv(1)] fq.free_nonneg [OF inv(1)] by auto
  show ?thesis
  proof (cases c)
    case (LinkIn inp)
    show ?thesis
    proof (cases "int (length inp) \<le> numFree ?f")
      case True
      then have "length (contents ?f) + length inp \<le> nat (capacity ?f)" using free used by linarith
      then show ?thesis using fq.write_fits [OF inv(1) _ True, of inp] inv(2) LinkIn
        by (cases "inp = []") (auto simp: link_input_execute_def link_inv_def inv(1))
    next
      case False
      then have "\<not> length (contents ?f) + length inp \<le> nat (capacity ?f)" using free used by linarith
      then show ?thesis using fq.write_rejected [OF inv(1), of "int (length inp)" inp] False inv(2) LinkIn free(2)
        by (cases "inp = []") (auto simp: link_input_execute_def link_inv_def)
    qed
  next
    case (LinkOut n)
    let ?n = "linkCount l n"
    have k: "nat ?n = min (nat (linkSampleRate l)) (if n > 0 then min (length (contents ?f)) (nat n) else length (contents ?f))"
      and avail: "?n \<le> numUsed ?f"
      using used inv(2) by (auto simp: linkCount_def min_def)
    show ?thesis
    proof (cases "?n > 0")
      case True
      then show ?thesis using fq.read_available [OF inv(1), of ?n] fq.cap_read [of ?f ?n] inv(2) LinkOut avail
        by (cases "fifo_read ?f ?n") (simp add: link_output_execute_def Let_def link_inv_def flip: k)
    next
      case False
      then show ?thesis using assms LinkOut by (simp add: link_output_execute_def Let_def flip: k)
    qed
  qed
qed

lemma link_outputs:
  assumes "link_inv l"
  shows "runOutputs link_do l calls =
    runOutputs (link_ref (nat (capacity (linkFifo l))) (nat (linkSampleRate l))) (contents (linkFifo l)) calls"
  using assms
proof (induction calls arbitrary: l)
  case (Cons c calls)
  then show ?case using link_do_ref [OF Cons.prems, of c] Cons.IH [of "snd (link_do l c)"] by (simp del: link_do.simps link_ref.simps)
qed simp

subsection \<open>The tap: what is written, what is dropped\<close>

text \<open>The reference of the audio path: each block is appended whole, or dropped and counted.\<close>

fun tap_ref :: "nat \<Rightarrow> short list \<times> int \<Rightarrow> short list \<Rightarrow> short list \<times> int" where
  "tap_ref cap (q, dropped) blk = (if length q + length blk \<le> cap then (q @ blk, dropped) else (q, dropped + int (length blk)))"

lemma tapLoop_eq:
  assumes "0 < k" and "c_div sampleRate 100 = int k" and "fifo_inv f"
  shows "\<exists>f'. tapLoop sampleRate f inp dropped =
      Some (f', snd (foldl (tap_ref (nat (capacity f))) (contents f, dropped) (chunks k inp))) \<and>
    fifo_inv f' \<and> contents f' = fst (foldl (tap_ref (nat (capacity f))) (contents f, dropped) (chunks k inp)) \<and>
    capacity f' = capacity f"
  using assms
proof (induction k inp arbitrary: f dropped rule: chunks.induct)
  case (1 k inp)
  show ?case
  proof (cases "inp = []")
    case True
    then show ?thesis using 1(4) by (simp add: tapLoop.simps)
  next
    case False
    let ?blk = "take k inp"
    define n where "n = min (int k) (int (length inp))"
    obtain ret f1 where w: "fifo_write f inp n = (ret, f1)" by fastforce
    have n: "nat n = min k (length inp)" "0 \<le> n" "n \<le> int (length inp)" "int (length ?blk) = n" by (auto simp: n_def min_def)
    have blk: "take (nat n) inp = ?blk" "drop (nat n) inp = drop k inp" by (auto simp: n(1) min_def)
    have used: "numFree f = capacity f - int (length (contents f))" "0 \<le> numFree f"
      using fq.free_used [OF 1(4)] fq.used_items [OF 1(4)] fq.free_nonneg [OF 1(4)] by auto
    have f1: "fifo_inv f1" "capacity f1 = capacity f"
      "(contents f1, if ret \<noteq> 0 then dropped + n else dropped) = tap_ref (nat (capacity f)) (contents f, dropped) ?blk"
    proof -
      show "fifo_inv f1" "capacity f1 = capacity f"
        using fq.inv_write [OF 1(4) n(2,3)] fq.cap_write [of f inp n] w by auto
      have fits: "length (contents f) + length ?blk \<le> nat (capacity f) \<longleftrightarrow> n \<le> numFree f" using used n(4) by linarith
      show "(contents f1, if ret \<noteq> 0 then dropped + n else dropped) = tap_ref (nat (capacity f)) (contents f, dropped) ?blk"
        using fq.write_fits [OF 1(4) n(2) _ n(3)] fq.write_rejected [OF 1(4), of n inp] w fits
        by (cases "n \<le> numFree f") (auto simp: blk(1) n(4) simp del: length_take)
    qed
    define d where "d = (if ret \<noteq> 0 then dropped + n else dropped)"
    have loop: "tapLoop sampleRate f inp dropped = tapLoop sampleRate f1 (drop k inp) d"
      using False by (subst tapLoop.simps) (simp only: Let_def 1(3) n_def [symmetric] w blk(2) d_def prod.case if_True not_False_eq_True)
    have "foldl (tap_ref (nat (capacity f))) (contents f, dropped) (chunks k inp) =
        foldl (tap_ref (nat (capacity f1))) (contents f1, d) (chunks k (drop k inp))"
      by (simp only: chunks_step [OF 1(2) False] foldl_Cons f1(2) d_def f1(3))
    moreover have "\<not> (k = 0 \<or> inp = [])" using 1(2) False by simp
    ultimately show ?thesis using 1(1) [OF _ 1(2,3) f1(1), of d] f1(2) unfolding loop by simp
  qed
qed

lemma tap_ref_counts:
  "int (length (fst (foldl (tap_ref cap) (q, d) bs))) + snd (foldl (tap_ref cap) (q, d) bs) =
   int (length q) + d + int (length (concat bs))"
  by (induction bs arbitrary: q d) auto

text \<open>Events of a tap whose tapped step records what it is given.\<close>

datatype tap_event = TapExecute "short list" | TapRound

fun tap_do :: "short list tap_step \<Rightarrow> tap_event \<Rightarrow> (tap_log list \<times> short list tap_step) option" where
  "tap_do t (TapExecute inp) = map_option (\<lambda>(out, t'). ([], t')) (tap_execute t inp)"
| "tap_do t TapRound = tapThreadRound (@) t"

definition endedSum :: "tap_log list \<Rightarrow> int" where
  "endedSum l = sum_list (map (\<lambda>e. case e of DropsStarted n \<Rightarrow> 0 | DropsEnded n \<Rightarrow> n) l)"

definition tap_total :: "short list tap_step \<Rightarrow> int" where
  "tap_total t = int (length (tapStep t)) + int (length (contents (tapFifo t))) + unreportedDroppedSamples t + samplesDropped t"

definition tap_inv :: "short list tap_step \<Rightarrow> bool" where
  "tap_inv t \<longleftrightarrow> fifo_inv (tapFifo t) \<and> 100 \<le> tapSampleRate t \<and> tapSampleRate t < 2 ^ 31 \<and>
     0 \<le> unreportedDroppedSamples t \<and> 0 \<le> unreportedDrops t \<and>
     (unreportedDrops t = 0 \<longrightarrow> unreportedDroppedSamples t = 0) \<and> (\<not> dropping t \<longrightarrow> samplesDropped t = 0)"

lemma foldl_append_concat: "foldl (@) a bs = a @ concat bs"
  by (induction bs arbitrary: a) auto

lemma tap_block:
  assumes "tap_inv t"
  obtains k where "0 < k" and "k < 2 ^ 31" and "c_div (tapSampleRate t) 100 = int k"
proof
  show "0 < nat (tapSampleRate t div 100)" "nat (tapSampleRate t div 100) < 2 ^ 31"
    "c_div (tapSampleRate t) 100 = int (nat (tapSampleRate t div 100))"
    using assms by (auto simp: tap_inv_def)
qed

lemma tap_execute_step:
  assumes "tap_inv t"
  shows "\<exists>t'. tap_do t (TapExecute inp) = Some ([], t') \<and> tap_inv t' \<and> tap_total t' = tap_total t + int (length inp)"
proof -
  obtain k where k: "0 < k" "c_div (tapSampleRate t) 100 = int k" using tap_block [OF assms] .
  have f: "fifo_inv (tapFifo t)" using assms by (simp add: tap_inv_def)
  let ?run = "foldl (tap_ref (nat (capacity (tapFifo t)))) (contents (tapFifo t), 0) (chunks k inp)"
  obtain f' where f': "tapLoop (tapSampleRate t) (tapFifo t) inp 0 = Some (f', snd ?run)" "fifo_inv f'" "contents f' = fst ?run"
    using tapLoop_eq [OF k f, of inp 0] by blast
  have "int (length (fst ?run)) + snd ?run = int (length (contents (tapFifo t))) + int (length inp)"
    using tap_ref_counts [of "nat (capacity (tapFifo t))" "contents (tapFifo t)" 0 "chunks k inp"] concat_chunks [OF k(1), of inp] by (simp del: length_contents)
  moreover have "0 \<le> d \<Longrightarrow> 0 \<le> snd (foldl (tap_ref c) (q, d) bs)" for c q d bs by (induction bs arbitrary: q d) auto
  from this [of 0] have "0 \<le> snd ?run" by simp
  ultimately show ?thesis using assms f' by (simp add: tap_execute_def Let_def tap_inv_def tap_total_def del: length_contents)
qed

lemma reportDrops_step:
  assumes "tap_inv t"
  shows "\<exists>l t'. reportDrops t = (l, t') \<and> tap_inv t' \<and> tap_total t' + endedSum l = tap_total t"
  using assms by (auto simp: reportDrops_def tapReport_def tap_inv_def tap_total_def endedSum_def)

lemma tap_round_step:
  assumes "tap_inv t"
  shows "\<exists>l t'. tap_do t TapRound = Some (l, t') \<and> tap_inv t' \<and> tap_total t' + endedSum l = tap_total t \<and>
    tapStep t' @ contents (tapFifo t') = tapStep t @ contents (tapFifo t) \<and> numUsed (tapFifo t') < c_div (tapSampleRate t) 100"
proof -
  obtain k where k: "0 < k" "k < 2 ^ 31" "c_div (tapSampleRate t) 100 = int k" using tap_block [OF assms] .
  have f: "fifo_inv (tapFifo t)" using assms by (simp add: tap_inv_def)
  obtain f' where d: "drainBlocks (int k) (@) (tapStep t) (tapFifo t) = Some (foldl (@) (tapStep t) (frames k (contents (tapFifo t))), f')"
    and f': "fifo_inv f'" "contents f' = leftover k (contents (tapFifo t))"
    using drainBlocks_eq [OF f k(1,2), of "(@)" "tapStep t"] by blast
  define t1 where "t1 = t\<lparr>tapStep := tapStep t @ concat (frames k (contents (tapFifo t))), tapFifo := f'\<rparr>"
  have p: "processBufferedBlocks (@) t = Some t1"
    using d by (simp add: processBufferedBlocks_def k(3) t1_def foldl_append_concat)
  have t1: "tap_inv t1" "tap_total t1 = tap_total t"
    using assms f' arg_cong [OF concat_frames [OF k(1), of "contents (tapFifo t)"], of "\<lambda>l. int (length l)"]
    by (auto simp: t1_def tap_inv_def tap_total_def simp del: length_contents length_concat)
  obtain l t2 where r: "reportDrops t1 = (l, t2)" "tap_inv t2" "tap_total t2 + endedSum l = tap_total t1"
    using reportDrops_step [OF t1(1)] by blast
  have keep: "tapStep t2 = tapStep t1" "tapFifo t2 = tapFifo t1" using r(1) by (auto simp: reportDrops_def tapReport_def split: if_splits)
  have "numUsed f' < int k" using fq.used_items [OF f'(1)] f'(2) length_leftover [OF k(1), of "contents (tapFifo t)"] by simp
  then show ?thesis
    using r t1(2) p keep concat_frames [OF k(1), of "contents (tapFifo t)"] f'(2)
    by (auto simp: tapThreadRound_def tap_inv_def tap_total_def t1_def k(3) simp del: length_contents)
qed

fun tap_run :: "short list tap_step \<Rightarrow> tap_event list \<Rightarrow> (tap_log list \<times> short list tap_step) option" where
  "tap_run t [] = Some ([], t)"
| "tap_run t (e # es) = Option.bind (tap_do t e) (\<lambda>(l, t'). map_option (\<lambda>(ls, t''). (l @ ls, t'')) (tap_run t' es))"

definition tap_input :: "tap_event list \<Rightarrow> short list" where
  "tap_input es = concat (map (\<lambda>e. case e of TapExecute inp \<Rightarrow> inp | TapRound \<Rightarrow> []) es)"

lemma tap_do_step:
  assumes "tap_inv t"
  shows "\<exists>l t'. tap_do t e = Some (l, t') \<and> tap_inv t' \<and> tap_total t' + endedSum l = tap_total t + int (length (tap_input [e]))"
  using tap_execute_step [OF assms] tap_round_step [OF assms]
  by (cases e) (fastforce simp: tap_input_def endedSum_def)+

lemma tap_run_total:
  assumes "tap_inv t"
  shows "\<exists>l t'. tap_run t es = Some (l, t') \<and> tap_inv t' \<and> tap_total t' + endedSum l = tap_total t + int (length (tap_input es))"
  using assms
proof (induction es arbitrary: t)
  case Nil
  then show ?case by (simp add: endedSum_def tap_input_def)
next
  case (Cons e es)
  obtain l t1 where s: "tap_do t e = Some (l, t1)" "tap_inv t1" "tap_total t1 + endedSum l = tap_total t + int (length (tap_input [e]))"
    using tap_do_step [OF Cons.prems] by blast
  obtain ls t2 where r: "tap_run t1 es = Some (ls, t2)" "tap_inv t2" "tap_total t2 + endedSum ls = tap_total t1 + int (length (tap_input es))"
    using Cons.IH [OF s(2)] by blast
  show ?case using s r by (auto simp: endedSum_def tap_input_def)
qed

lemma tap_new_inv:
  assumes "100 \<le> rate" and "rate < 2 ^ 31" and "0 < quarter" and "quarter < 2 ^ 31"
  shows "tap_inv (tap_new rate quarter [])" and "tap_total (tap_new rate quarter []) = 0"
  using fresh_fifo [of quarter "0 :: short"] assms by (simp_all add: tap_new_def tap_inv_def tap_total_def)

subsection \<open>Properties\<close>

text \<open>
  C15: A link between two pipelines behaves as one bounded queue: over every sequence of calls of its two
  ends its outputs are those of a list that takes an input block whole if it fits and drops it whole
  otherwise, and gives back the oldest samples, never more than one second at once.
\<close>

theorem link_refines_queue:
  assumes "0 < numSamples" and "numSamples < 2 ^ 31" and "0 \<le> rate"
  shows "runOutputs link_do (link_new rate numSamples) calls = runOutputs (link_ref (nat (numSamples - 1)) (nat rate)) [] calls"
  using link_outputs [of "link_new rate numSamples" calls] fresh_fifo [OF assms(1,2), of "0 :: short"] assms(3)
  by (simp add: link_new_def link_inv_def)

theorem link_refines_queue_witness:
  "runOutputs link_do (link_new 2 6) [LinkIn [1, 2, 3, 4], LinkIn [5, 6], LinkOut 0, LinkIn [7, 8], LinkOut 1, LinkOut 9] =
   [[], [], [1, 2], [], [3], [4, 7]]"
  using link_refines_queue [of 6 2 "[LinkIn [1, 2, 3, 4], LinkIn [5, 6], LinkOut 0, LinkIn [7, 8], LinkOut 1, LinkOut 9]"] by simp



text \<open>
  The drop report can lose samples. The two counters are exchanged one after the other, while the
  audio path adds to them one after the other: when it adds the samples between the two exchanges,
  the report sees no drop and throws the samples away, and the next reports announce a drop of no
  samples and its end. The order is \<open>drops.exchange\<close>, \<open>samples.fetch_add\<close>, \<open>samples.exchange\<close>,
  \<open>drops.fetch_add\<close>.
\<close>

theorem tap_report_race:
  "let t = tap_new rate quarter st;
       t1 = t\<lparr>unreportedDroppedSamples := unreportedDroppedSamples t + n\<rparr>;
       (l1, t2) = tapReport (unreportedDrops t) (unreportedDroppedSamples t1) (t1\<lparr>unreportedDroppedSamples := 0\<rparr>);
       t3 = t2\<lparr>unreportedDrops := unreportedDrops t2 + 1\<rparr>;
       (l2, t4) = reportDrops t3;
       (l3, t5) = reportDrops t4
   in l1 @ l2 @ l3 = [DropsStarted 0, DropsEnded 0]"
  by (simp add: tapReport_def reportDrops_def tap_new_def)

end
