(* ===== verification/Step_Dispatch.thy ===== *)
theory Step_Dispatch
  imports Block_Steps
begin

text \<open>
  The virtual calls of \<^verbatim>\<open>IPipelineStep\<close>: a step is a value of \<open>pstep\<close>, one constructor per class, and a
  call dispatches on it. \<^verbatim>\<open>src/src/pipeline/EitherOrStep.cpp\<close> owns two steps and calls one of them. The
  function pointers that steps get from the application are numbers here, resolved by the environment
  \<open>step_env\<close> together with the libraries.
\<close>

datatype ('f, 'd, 'eb, 'ag, 'rn, 'bw, 'src) pstep =
    MuteS mute_step
  | LevelS int nat
  | ResampleS "'src resample_step"
  | AgcS "('f, 'd, 'eb, 'ag) agc_step"
  | RNNoiseS "'rn rnnoise_step"
  | BweS "'bw bwe_step"
  | EitherOrS nat "('f, 'd, 'eb, 'ag, 'rn, 'bw, 'src) pstep" "('f, 'd, 'eb, 'ag, 'rn, 'bw, 'src) pstep"

record ('f, 'd, 'eb, 'ag, 'rn, 'bw, 'src) step_env =
  env_fpu :: "('f, 'd) fpu"
  env_src :: "('f, 'src) src_api"
  env_agc :: "('f, 'd, 'eb, 'ag) agc_api"
  env_rnnoise :: "('f, 'rn) rnnoise_api"
  env_bwe :: "'bw bwe_api"
  conditionalFn :: "nat \<Rightarrow> bool"
  scaleFactorFn :: "nat \<Rightarrow> 'f"

fun pstep_in_rate :: "('f, 'd, 'eb, 'ag, 'rn, 'bw, 'src) pstep \<Rightarrow> int" where
  "pstep_in_rate (MuteS s) = muteInputSampleRate s"
| "pstep_in_rate (LevelS rate fn) = rate"
| "pstep_in_rate (ResampleS s) = rsInputSampleRate s"
| "pstep_in_rate (AgcS s) = agcSampleRate s"
| "pstep_in_rate (RNNoiseS s) = 48000"
| "pstep_in_rate (BweS s) = 16000"
| "pstep_in_rate (EitherOrS c t e) = pstep_in_rate t"

fun pstep_out_rate :: "('f, 'd, 'eb, 'ag, 'rn, 'bw, 'src) pstep \<Rightarrow> int" where
  "pstep_out_rate (MuteS s) = muteOutputSampleRate s"
| "pstep_out_rate (LevelS rate fn) = rate"
| "pstep_out_rate (ResampleS s) = rsOutputSampleRate s"
| "pstep_out_rate (AgcS s) = agcSampleRate s"
| "pstep_out_rate (RNNoiseS s) = 48000"
| "pstep_out_rate (BweS s) = 48000"
| "pstep_out_rate (EitherOrS c t e) = pstep_out_rate t"

fun pstep_execute :: "('f, 'd, 'eb, 'ag, 'rn, 'bw, 'src) step_env \<Rightarrow> ('f, 'd, 'eb, 'ag, 'rn, 'bw, 'src) pstep \<Rightarrow> short list \<Rightarrow>
    (short list \<times> ('f, 'd, 'eb, 'ag, 'rn, 'bw, 'src) pstep) option" where
  "pstep_execute env (MuteS s) inp = Some (mute_execute s inp, MuteS s)"
| "pstep_execute env (LevelS rate fn) inp =
     map_option (\<lambda>out. (out, LevelS rate fn)) (level_execute (env_fpu env) rate (scaleFactorFn env fn) inp)"
| "pstep_execute env (ResampleS s) inp = map_option (map_prod id ResampleS) (resample_execute (env_src env) s inp)"
| "pstep_execute env (AgcS s) inp = map_option (map_prod id AgcS) (agc_execute (env_fpu env) (env_agc env) s inp)"
| "pstep_execute env (RNNoiseS s) inp = map_option (map_prod id RNNoiseS) (rnnoise_execute (env_fpu env) (env_rnnoise env) s inp)"
| "pstep_execute env (BweS s) inp = map_option (map_prod id BweS) (bwe_execute (env_bwe env) s inp)"
| "pstep_execute env (EitherOrS c t e) inp =
     (if conditionalFn env c
      then map_option (\<lambda>(out, t'). (out, EitherOrS c t' e)) (pstep_execute env t inp)
      else map_option (\<lambda>(out, e'). (out, EitherOrS c t e')) (pstep_execute env e inp))"

fun pstep_reset :: "('f, 'd, 'eb, 'ag, 'rn, 'bw, 'src) step_env \<Rightarrow> ('f, 'd, 'eb, 'ag, 'rn, 'bw, 'src) pstep \<Rightarrow>
    ('f, 'd, 'eb, 'ag, 'rn, 'bw, 'src) pstep option" where
  "pstep_reset env (MuteS s) = Some (MuteS s)"
| "pstep_reset env (LevelS rate fn) = Some (LevelS rate fn)"
| "pstep_reset env (ResampleS s) = Some (ResampleS (resample_reset (env_src env) s))"
| "pstep_reset env (AgcS s) = map_option AgcS (agc_reset (env_fpu env) (env_agc env) s)"
| "pstep_reset env (RNNoiseS s) = Some (RNNoiseS (rnnoise_reset (env_rnnoise env) s))"
| "pstep_reset env (BweS s) = Some (BweS (bwe_reset (env_bwe env) s))"
| "pstep_reset env (EitherOrS c t e) =
     Option.bind (pstep_reset env t) (\<lambda>t'. map_option (\<lambda>e'. EitherOrS c t' e') (pstep_reset env e))"

definition pstep_ops :: "('f, 'd, 'eb, 'ag, 'rn, 'bw, 'src) step_env \<Rightarrow> ('f, 'd, 'eb, 'ag, 'rn, 'bw, 'src) pstep step_ops" where
  "pstep_ops env = \<lparr>getInputSampleRate = pstep_in_rate, getOutputSampleRate = pstep_out_rate,
     step_execute = pstep_execute env, step_reset = pstep_reset env\<rparr>"

subsection \<open>Well-formed steps\<close>

definition fifo_ready :: "short fifo \<Rightarrow> nat \<Rightarrow> bool" where
  "fifo_ready f k \<longleftrightarrow> fifo_inv f \<and> length (contents f) < k \<and> int k \<le> capacity f"

text \<open>Both branches of an \<open>EitherOrStep\<close> have the same rates: the assertions of its rate functions.\<close>

fun pstep_inv :: "('f, 'd, 'eb, 'ag, 'rn, 'bw, 'src) pstep \<Rightarrow> bool" where
  "pstep_inv (MuteS s) \<longleftrightarrow> 100 \<le> muteInputSampleRate s \<and> 100 \<le> muteOutputSampleRate s"
| "pstep_inv (LevelS rate fn) \<longleftrightarrow> 100 \<le> rate"
| "pstep_inv (ResampleS s) \<longleftrightarrow> 100 \<le> rsInputSampleRate s \<and> 100 \<le> rsOutputSampleRate s"
| "pstep_inv (AgcS s) \<longleftrightarrow> 100 \<le> agcSampleRate s \<and> 0 < numSamplesPerRun s \<and> numSamplesPerRun s < 2 ^ 31 \<and>
     fifo_ready (agcFifo s) (nat (numSamplesPerRun s))"
| "pstep_inv (RNNoiseS s) \<longleftrightarrow> fifo_ready (rnFifo s) 480"
| "pstep_inv (BweS s) \<longleftrightarrow> fifo_ready (bweFifo s) 320"
| "pstep_inv (EitherOrS c t e) \<longleftrightarrow> pstep_inv t \<and> pstep_inv e \<and>
     pstep_in_rate t = pstep_in_rate e \<and> pstep_out_rate t = pstep_out_rate e"

lemma feed_ready:
  assumes "fifo_ready f k" and "0 < k" and "k < 2 ^ 31"
  shows "\<exists>st' f'. feedBlocks (int k) proc st f inp = Some (st', f') \<and> fifo_ready f' k \<and> st' = foldl proc st (frames k (contents f @ inp))"
  using feedBlocks_eq [of f k proc st inp] assms length_leftover [OF assms(2)] unfolding fifo_ready_def by metis

lemma agc_fold_keeps:
  "numSamplesPerRun (foldl (agc_block fp api) s bs) = numSamplesPerRun s \<and> agcSampleRate (foldl (agc_block fp api) s bs) = agcSampleRate s"
proof (induction bs arbitrary: s)
  case (Cons b bs)
  have "numSamplesPerRun (agc_block fp api s b) = numSamplesPerRun s \<and> agcSampleRate (agc_block fp api s b) = agcSampleRate s"
    by (simp add: agc_block_def Let_def agc_other split: prod.split)
  then show ?case using Cons by simp
qed simp

lemma pstep_execute_returns:
  assumes "src_ok (env_src env)" and "pstep_inv s"
  shows "\<exists>out s'. pstep_execute env s inp = Some (out, s') \<and> pstep_inv s' \<and>
    pstep_in_rate s' = pstep_in_rate s \<and> pstep_out_rate s' = pstep_out_rate s"
  using assms(2)
proof (induction s)
  case (LevelS rate fn)
  then show ?case using levelLoop_eq [OF refl, of rate "env_fpu env" "scaleFactorFn env fn" inp "[]"] by (simp add: level_execute_def)
next
  case (ResampleS s)
  then show ?case using resampler_returns [OF assms(1), of s inp] by auto
next
  case (AgcS s)
  let ?k = "nat (numSamplesPerRun s)"
  have k: "0 < ?k" "?k < 2 ^ 31" "int ?k = numSamplesPerRun s" using AgcS by (auto simp: nat_less_iff)
  then show ?case using feed_ready [OF _ k(1,2), of "agcFifo s" "agc_block (env_fpu env) (env_agc env)" "s\<lparr>agcOutput := []\<rparr>" inp] AgcS
      agc_fold_keeps [of "env_fpu env" "env_agc env" "s\<lparr>agcOutput := []\<rparr>"]
    by (auto simp: agc_execute_def)
next
  case (RNNoiseS s)
  then show ?case using feed_ready [of "rnFifo s" 480 "rnnoise_block (env_fpu env) (env_rnnoise env)" "s\<lparr>rnOutput := []\<rparr>" inp]
    by (auto simp: rnnoise_execute_def)
next
  case (BweS s)
  then have "feedAll 320 (bwe_block (env_bwe env)) (s\<lparr>bweOutput := []\<rparr>) (bweFifo s) inp =
      feedBlocks (int 320) (bwe_block (env_bwe env)) (s\<lparr>bweOutput := []\<rparr>) (bweFifo s) inp"
    using feedAll_eq [of "bweFifo s" 320] by (simp add: fifo_ready_def)
  then show ?case using feed_ready [of "bweFifo s" 320 "bwe_block (env_bwe env)" "s\<lparr>bweOutput := []\<rparr>" inp] BweS
    by (auto simp: bwe_execute_def)
qed auto

interpretation steps: step_contract "pstep_ops env" "\<lambda>s. src_ok (env_src env) \<and> pstep_inv s" for env
proof (unfold_locales, goal_cases)
  case (1 s inp)
  then show ?case using pstep_execute_returns [of env s inp] by (auto simp: pstep_ops_def rates_of_def)
next
  case (2 s)
  then have "pstep_inv s" by simp
  then show ?case by (induction s) (auto simp: pstep_ops_def)
qed

subsection \<open>Properties\<close>


definition demo_env :: "(short, short, unit, unit, unit, unit, unit) step_env" where
  "demo_env = \<lparr>env_fpu = undefined, env_src = demo_src, env_agc = undefined, env_rnnoise = undefined,
     env_bwe = \<lparr>bwe_create = (), osce_bwe = (\<lambda>s x. (x @ x @ x, s)), osce_reset = id\<rparr>,
     conditionalFn = (\<lambda>n. n = 0), scaleFactorFn = undefined\<rparr>"


end
