(* ===== verification/Ldpc_Encode.thy ===== *)
theory Ldpc_Encode
  imports HRA_Matrix
begin

text \<open>
  The systematic encoder of \<^verbatim>\<open>src/src/pipeline/ldpc_encode.cpp\<close> and the syndrome test that
  \<^verbatim>\<open>ldpc_decode.cpp\<close> applies to its hard decisions. Bits are the \<^verbatim>\<open>uint8_t\<close> values 0 and 1, as
  \<open>nat\<close>; an array is a list.
\<close>

subsection \<open>Definitions\<close>

text \<open>The first loop: prepopulate the codeword with the message.\<close>

definition loadMessage :: "nat list \<Rightarrow> nat list" where
  "loadMessage s = foldl (\<lambda>c i. c[i := s ! i]) (replicate 112 0) [0..<56]"

text \<open>The inner loop over \<open>j\<close>, and one iteration of the parity loop over \<open>i\<close>.\<close>

definition parityCtr :: "nat list \<Rightarrow> nat \<Rightarrow> nat" where
  "parityCtr codeword i = foldl (\<lambda>ctr j. ctr + codeword ! j * HRA_56_56 ! i ! j) 0 [0..<56]"

definition parityStep :: "nat list \<Rightarrow> nat \<Rightarrow> nat list" where
  "parityStep codeword i =
     (if i = 0 then codeword[56 := (if parityCtr codeword i mod 2 \<noteq> 0 then 1 else 0)]
      else codeword[56 + i :=
        (if (parityCtr codeword i + codeword ! (56 + i - 1)) mod 2 \<noteq> 0 then 1 else 0)])"

definition ldpc_encode :: "nat list \<Rightarrow> nat list" where
  "ldpc_encode s = foldl parityStep (loadMessage s) [0..<56]"

text \<open>The syndrome test of the decoder: every parity check of \<open>H\<close> sums to an even number.\<close>

definition checkCtr :: "nat list \<Rightarrow> nat \<Rightarrow> nat" where
  "checkCtr message i = foldl (\<lambda>ctr j. ctr + HRA_56_56 ! i ! j * message ! j) 0 [0..<112]"

fun checksOk :: "nat list \<Rightarrow> nat list \<Rightarrow> bool" where
  "checksOk message [] = True"
| "checksOk message (i # is) =
     (let ok = (checkCtr message i mod 2 = 0) in if ok then checksOk message is else False)"

definition syndromeOk :: "nat list \<Rightarrow> bool" where
  "syndromeOk message = checksOk message [0..<56]"

definition bits :: "nat list \<Rightarrow> bool" where
  "bits xs = list_all (\<lambda>x. x = 0 \<or> x = 1) xs"

subsection \<open>Loops as sums\<close>

lemma foldl_plus_sum: "foldl (\<lambda>a j. a + f j) (z :: nat) [0..<n] = z + (\<Sum>j<n. f j)"
  by (induction n arbitrary: z) (simp_all add: add.assoc)

lemma parityCtr_sum: "parityCtr c i = (\<Sum>j<56. c ! j * HRA_56_56 ! i ! j)"
  unfolding parityCtr_def foldl_plus_sum by simp

lemma checkCtr_sum: "checkCtr c i = (\<Sum>j<112. HRA_56_56 ! i ! j * c ! j)"
  unfolding checkCtr_def foldl_plus_sum by simp

lemma checksOk_iff: "checksOk m is \<longleftrightarrow> (\<forall>i \<in> set is. even (checkCtr m i))"
  by (induction "is") (auto simp: Let_def even_iff_mod_2_eq_zero)

lemma syndromeOk_iff: "syndromeOk m \<longleftrightarrow> (\<forall>i < 56. even (checkCtr m i))"
  by (auto simp: syndromeOk_def checksOk_iff)

text \<open>
  Row \<open>i\<close> of the check is the message part plus the parity bit \<open>i\<close> and, below the first row, the one
  before it.
\<close>

lemma checkCtr_split:
  assumes "i < 56"
  shows "checkCtr c i = parityCtr c i + c ! (56 + i) + (if i = 0 then 0 else c ! (56 + i - 1))"
proof -
  have split: "(\<Sum>j<112. g j) = (\<Sum>j<56. g j) + (\<Sum>j<56. g (56 + j))" for g :: "nat \<Rightarrow> nat"
    using sum.atLeastLessThan_concat [of 0 56 112 g] sum.shift_bounds_nat_ivl [of g 0 56 56]
    by (simp add: atLeast0LessThan add.commute)
  have "(\<Sum>j<56. HRA_56_56 ! i ! (56 + j) * c ! (56 + j)) =
      (\<Sum>j<56. if j = i \<or> Suc j = i then c ! (56 + j) else 0)"
    using assms by (intro sum.cong) (auto simp: HRA_right_entry)
  also have "\<dots> = (\<Sum>j \<in> {j. j < 56 \<and> (j = i \<or> Suc j = i)}. c ! (56 + j))"
    by (simp add: sum.If_cases Int_def)
  also have "{j. j < 56 \<and> (j = i \<or> Suc j = i)} = (if i = 0 then {0} else {i - 1, i})"
    using assms by auto
  also have "(\<Sum>j \<in> (if i = 0 then {0} else {i - 1, i}). c ! (56 + j)) =
      c ! (56 + i) + (if i = 0 then 0 else c ! (56 + i - 1))"
    by simp
  finally show ?thesis
    unfolding checkCtr_sum parityCtr_sum split by (simp add: mult.commute)
qed

subsection \<open>The encoder\<close>

lemma loadMessage_prefix:
  "n \<le> 56 \<Longrightarrow> length s = 56 \<Longrightarrow>
     foldl (\<lambda>c i. c[i := s ! i]) (replicate 112 0) [0..<n] = take n s @ replicate (112 - n) 0"
proof (induction n)
  case (Suc n)
  then have "112 - n = Suc (111 - n)" by simp
  with Suc show ?case by (simp add: list_update_append take_Suc_conv_app_nth)
qed simp

lemma loadMessage_eq: "length s = 56 \<Longrightarrow> loadMessage s = s @ replicate 56 0"
  by (simp add: loadMessage_def loadMessage_prefix)

lemma parityCtr_cong: "take 56 c = take 56 c' \<Longrightarrow> length c = 112 \<Longrightarrow> length c' = 112 \<Longrightarrow> parityCtr c i = parityCtr c' i"
  unfolding parityCtr_sum by (intro sum.cong refl) (metis lessThan_iff nth_take)

lemma length_parityStep [simp]: "length (parityStep c i) = length c"
  by (simp add: parityStep_def)

lemma parityStep_nth:
  "j < length c \<Longrightarrow> j \<noteq> 56 + i \<Longrightarrow> parityStep c i ! j = c ! j"
  by (auto simp: parityStep_def)

lemma parityStep_take: "take 56 (parityStep c i) = take 56 c"
  by (simp add: parityStep_def)

text \<open>After \<open>n\<close> parity steps the message is untouched and the first \<open>n\<close> checks are even.\<close>

lemma foldl_parityStep:
  assumes "length c = 112" and "n \<le> 56"
  shows "length (foldl parityStep c [0..<n]) = 112 \<and> take 56 (foldl parityStep c [0..<n]) = take 56 c \<and>
    (\<forall>i < n. even (checkCtr (foldl parityStep c [0..<n]) i) \<and> foldl parityStep c [0..<n] ! (56 + i) \<le> 1)"
  using assms(2)
proof (induction n)
  case 0
  then show ?case using assms(1) by simp
next
  case (Suc n)
  define d where "d = foldl parityStep c [0..<n]"
  have IH: "length d = 112" "take 56 d = take 56 c" "\<forall>i < n. even (checkCtr d i) \<and> d ! (56 + i) \<le> 1"
    using Suc by (simp_all add: d_def)
  let ?e = "parityStep d n"
  have pc: "parityCtr ?e i = parityCtr d i" for i
    using IH(1) by (intro parityCtr_cong) (simp_all add: parityStep_take)
  have new: "even (checkCtr ?e n)" "?e ! (56 + n) \<le> 1"
    using Suc.prems IH(1)
    by (auto simp: checkCtr_split pc parityStep_nth) (auto simp: parityStep_def mod2_eq_if split: if_splits)
  have "even (checkCtr ?e i) \<and> ?e ! (56 + i) \<le> 1" if "i < n" for i
  proof -
    have "checkCtr ?e i = checkCtr d i"
      using that Suc.prems IH(1) by (simp add: checkCtr_split pc parityStep_nth)
    then show ?thesis using IH that Suc.prems by (simp add: parityStep_nth)
  qed
  with new have "\<forall>i < Suc n. even (checkCtr ?e i) \<and> ?e ! (56 + i) \<le> 1" by (auto simp: less_Suc_eq)
  then show ?case using IH by (simp add: d_def parityStep_take)
qed

lemma ldpc_encode_facts:
  assumes "length s = 56"
  shows "length (ldpc_encode s) = 112" and "take 56 (ldpc_encode s) = s" and "syndromeOk (ldpc_encode s)"
    and "\<forall>i < 56. ldpc_encode s ! (56 + i) \<le> 1"
  using foldl_parityStep [of "loadMessage s" 56] assms
  by (simp_all add: ldpc_encode_def loadMessage_eq syndromeOk_iff)

lemma ldpc_encode_bits:
  assumes "length s = 56" and "bits s"
  shows "bits (ldpc_encode s)"
proof -
  have "ldpc_encode s ! j = 0 \<or> ldpc_encode s ! j = 1" if "j < 112" for j
  proof (cases "j < 56")
    case True
    then have "ldpc_encode s ! j = s ! j" using ldpc_encode_facts(2) [OF assms(1)] by (metis nth_take)
    then show ?thesis using assms True by (simp add: bits_def list_all_length)
  next
    case False
    then have "ldpc_encode s ! (56 + (j - 56)) \<le> 1"
      using ldpc_encode_facts(4) [OF assms(1)] that by (metis add_less_cancel_left le_add_diff_inverse
          less_diff_conv2 not_less numeral_Bit0)
    then show ?thesis using False by (simp add: le_Suc_eq)
  qed
  then show ?thesis using ldpc_encode_facts(1) [OF assms(1)] by (simp add: bits_def list_all_length)
qed

lemma syndrome_codeword:
  assumes "length c = 112" and "bits c" and "syndromeOk c"
  shows "ldpc_encode (take 56 c) = c"
proof -
  let ?e = "ldpc_encode (take 56 c)"
  have s: "length (take 56 c) = 56" using assms(1) by simp
  note E = ldpc_encode_facts [OF s]
  have bit: "c ! j \<le> 1" if "j < 112" for j
    using assms(1,2) that by (auto simp: bits_def list_all_length)
  have pc: "parityCtr ?e i = parityCtr c i" for i
    using E assms(1) by (intro parityCtr_cong) simp_all
  have ev: "even (checkCtr ?e i)" "even (checkCtr c i)" if "i < 56" for i
    using E(3) assms(3) that by (simp_all add: syndromeOk_iff)
  have parity: "?e ! (56 + i) = c ! (56 + i)" if "i < 56" for i
    using that
  proof (induction i)
    case 0
    have "even (parityCtr c 0 + ?e ! 56)" "even (parityCtr c 0 + c ! 56)"
      using ev [of 0] by (simp_all add: checkCtr_split pc)
    then show ?case using E(4) [rule_format, of 0] bit [of 56] by (auto simp: le_Suc_eq)
  next
    case (Suc i)
    have "even (parityCtr c (Suc i) + ?e ! (56 + Suc i) + ?e ! (56 + i))"
      "even (parityCtr c (Suc i) + c ! (56 + Suc i) + c ! (56 + i))"
      using ev [of "Suc i"] Suc.prems by (simp_all add: checkCtr_split pc)
    then show ?case
      using Suc E(4) [rule_format, of "Suc i"] bit [of "56 + Suc i"] by (auto simp: le_Suc_eq)
  qed
  show ?thesis
  proof (rule nth_equalityI)
    fix j assume "j < length ?e"
    then have j: "j < 112" using E(1) by simp
    show "?e ! j = c ! j"
    proof (cases "j < 56")
      case True
      then show ?thesis using E(2) by (metis nth_take)
    next
      case False
      then show ?thesis using parity [of "j - 56"] j by simp
    qed
  qed (use E(1) assms(1) in simp)
qed

subsection \<open>Properties\<close>

text \<open>
  C6: The encoder produces codewords of the LDPC(112, 56) code: for every 56-bit message the result
  has 112 bits, starts with the message, and passes all 56 parity checks of the matrix that the
  decoder tests.
\<close>

theorem ldpc_encode_codeword:
  assumes "length s = 56" and "bits s"
  shows "length (ldpc_encode s) = 112 \<and> take 56 (ldpc_encode s) = s \<and> bits (ldpc_encode s) \<and>
    syndromeOk (ldpc_encode s)"
  using ldpc_encode_facts [OF assms(1)] ldpc_encode_bits [OF assms] by simp

theorem ldpc_encode_codeword_witness:
  "syndromeOk (ldpc_encode (replicate 55 0 @ [1])) \<and> take 56 (ldpc_encode (replicate 55 0 @ [1])) = replicate 55 0 @ [1]"
  using ldpc_encode_codeword [of "replicate 55 0 @ [1]"] by (simp add: bits_def list_all_iff)



end
