(* ===== verification/Ldpc_Decode.thy ===== *)
theory Ldpc_Decode
  imports Ldpc_Encode Fpu
begin

text \<open>
  The belief-propagation decoder of \<^verbatim>\<open>src/src/pipeline/ldpc_decode.cpp\<close>: the Tanner graph built from
  the parity check matrix, the channel log-likelihood ratios, and the message-passing loop. The two
  \<^verbatim>\<open>static\<close> message vectors are explicit state, passed in and returned.
\<close>

subsection \<open>The Tanner graph\<close>

record ldpc_graph =
  edges :: "(nat \<times> nat) list"
  check_edges :: "nat list list"
  var_edges :: "nat list list"

definition graph_empty :: ldpc_graph where
  "graph_empty = \<lparr>edges = [], check_edges = replicate 56 [], var_edges = replicate 112 []\<rparr>"

definition graph_add :: "ldpc_graph \<Rightarrow> nat \<Rightarrow> nat \<Rightarrow> ldpc_graph" where
  "graph_add g c v =
     (let e = length (edges g)
      in \<lparr>edges = edges g @ [(c, v)],
          check_edges = (check_edges g)[c := check_edges g ! c @ [e]],
          var_edges = (var_edges g)[v := var_edges g ! v @ [e]]\<rparr>)"

text \<open>The constructor's two loops, for a matrix \<open>H\<close>; the code runs them on \<open>HRA_56_56\<close>.\<close>

definition buildGraph :: "nat list list \<Rightarrow> ldpc_graph" where
  "buildGraph H =
     foldl (\<lambda>g i. foldl (\<lambda>g j. if H ! i ! j \<noteq> 0 then graph_add g i j else g) g [0..<112])
       graph_empty [0..<56]"

definition graph :: ldpc_graph where
  "graph = buildGraph HRA_56_56"

subsection \<open>Channel log-likelihood ratios\<close>

type_synonym 'f rade_comp = "'f \<times> 'f"   \<comment> \<open>\<open>RADE_COMP\<close>: real and imaginary part\<close>

definition LLR_MAX :: "('f, 'd, 'x) fpu_scheme \<Rightarrow> 'f" where
  "LLR_MAX fp = flit fp 10000 0"

definition phi :: "('f, 'd, 'x) fpu_scheme \<Rightarrow> 'f \<Rightarrow> 'f" where
  "phi fp x =
     (if flt fp x (flit fp 1 (-10)) then LLR_MAX fp
      else
        let expx = dexp fp (f2d fp x) in
        if dlt fp expx (f2d fp (flit fp 1 (-10))) then LLR_MAX fp
        else d2f fp (dlog fp (ddiv fp (dadd fp expx (f2d fp (flit fp 1 0))) (dsub fp expx (f2d fp (flit fp 1 0))))))"

definition calc_likelihood :: "('f, 'd, 'x) fpu_scheme \<Rightarrow> 'f rade_comp \<Rightarrow> 'f \<Rightarrow> 'f \<Rightarrow> 'f \<Rightarrow> 'f \<Rightarrow> 'f \<Rightarrow> 'f" where
  "calc_likelihood fp sm var re im amp avg_amp =
     (let errR = fsub fp (fst sm) re;
          errI = fsub fp (snd sm) im;
          a = fdiv fp amp avg_amp
      in fmul fp (fmul fp (fmul fp (fneg fp var) a) a) (fadd fp (fmul fp errR errR) (fmul fp errI errI)))"

definition max_star :: "('f, 'd, 'x) fpu_scheme \<Rightarrow> 'f \<Rightarrow> 'f \<Rightarrow> 'f" where
  "max_star fp x y =
     (let maxXY = fmax fp x y;
          absdiff = fabs fp (fsub fp x y);
          logXY =
            (if dle fp (f2d fp absdiff) (dlit fp 245 (-2))
             then d2f fp (dadd fp (dmul fp (dneg fp (dlit fp 24 (-2))) (f2d fp absdiff)) (dlit fp 596 (-3)))
             else if dlt fp (dlit fp 245 (-2)) (f2d fp absdiff) \<and> dle fp (f2d fp absdiff) (dlit fp 35 (-1))
             then d2f fp (dlit fp 48 (-3))
             else f0 fp)
      in fadd fp maxXY logXY)"

definition symbolLlr :: "('f, 'd, 'x) fpu_scheme \<Rightarrow> 'f \<Rightarrow> 'f \<Rightarrow> 'f rade_comp \<Rightarrow> 'f \<Rightarrow> 'f list" where
  "symbolLlr fp EsNo mean_amp sm a =
     (let l00 = calc_likelihood fp sm EsNo (i2f fp 1) (i2f fp 0) a mean_amp;
          l01 = calc_likelihood fp sm EsNo (i2f fp 0) (i2f fp 1) a mean_amp;
          l10 = calc_likelihood fp sm EsNo (i2f fp 0) (i2f fp (-1)) a mean_amp;
          l11 = calc_likelihood fp sm EsNo (i2f fp (-1)) (i2f fp 0) a mean_amp;
          lo = fneg fp (LLR_MAX fp);
          den0 = max_star fp (max_star fp lo l00) l01;
          den1 = max_star fp (max_star fp lo l00) l10;
          num0 = max_star fp (max_star fp lo l10) l11;
          num1 = max_star fp (max_star fp lo l01) l11;
          llr_bit0 = fsub fp num0 den0;
          llr_bit1 = fsub fp num1 den1
      in [fneg fp (fclamp fp llr_bit0 (fneg fp (LLR_MAX fp)) (LLR_MAX fp)),
          fneg fp (fclamp fp llr_bit1 (fneg fp (LLR_MAX fp)) (LLR_MAX fp))])"

definition ldpc_linear_log_map :: "('f, 'd, 'x) fpu_scheme \<Rightarrow> 'f rade_comp list \<Rightarrow> 'f list \<Rightarrow> 'f \<Rightarrow> 'f list" where
  "ldpc_linear_log_map fp syms amplitudes noise_var =
     (let mean_amp = fdiv fp (foldl (\<lambda>m k. fadd fp m (amplitudes ! k)) (f0 fp) [0..<56]) (i2f fp 56);
          EsNo = fdiv fp (flit fp 1 0) (fmul fp (flit fp 2 0) noise_var)
      in concat (map (\<lambda>k. symbolLlr fp EsNo mean_amp (syms ! k) (amplitudes ! k)) [0..<56]))"

subsection \<open>Belief propagation\<close>

record ldpc_result =
  message :: "nat list"
  converged :: bool
  iterations :: nat

text \<open>Check-to-variable update of check node \<open>i\<close>: from \<open>m_vc\<close> into \<open>m_cv\<close>.\<close>

definition fsign :: "('f, 'd, 'x) fpu_scheme \<Rightarrow> 'f \<Rightarrow> int" where
  "fsign fp v = (if fle fp (f0 fp) v then 1 else -1)"

definition checkUpdate :: "('f, 'd, 'x) fpu_scheme \<Rightarrow> 'f list \<Rightarrow> 'f list \<Rightarrow> nat list \<Rightarrow> 'f list" where
  "checkUpdate fp m_vc m_cv ce =
     (let sgn = foldl (\<lambda>s e. s * fsign fp (m_vc ! e)) 1 ce;
          sum = foldl (\<lambda>s e. fadd fp s (fmax fp (f0 fp) (phi fp (fabs fp (m_vc ! e))))) (f0 fp) ce
      in foldl (\<lambda>cv e.
           cv[e := fclamp fp
             (fmul fp (i2f fp (fsign fp (m_vc ! e) * sgn))
               (fmax fp (f0 fp) (phi fp (fsub fp sum (phi fp (fabs fp (m_vc ! e)))))))
             (fneg fp (LLR_MAX fp)) (LLR_MAX fp)]) m_cv ce)"

text \<open>Variable-to-check update of variable node \<open>j\<close>, and its posterior.\<close>

definition posterior :: "('f, 'd, 'x) fpu_scheme \<Rightarrow> 'f list \<Rightarrow> 'f list \<Rightarrow> nat \<Rightarrow> 'f" where
  "posterior fp llr_ch m_cv j = foldl (\<lambda>t e. fadd fp t (m_cv ! e)) (llr_ch ! j) (var_edges graph ! j)"

definition varUpdate :: "('f, 'd, 'x) fpu_scheme \<Rightarrow> 'f list \<Rightarrow> 'f list \<Rightarrow> 'f list \<Rightarrow> nat \<Rightarrow> 'f list" where
  "varUpdate fp llr_ch m_cv m_vc j =
     (let total = posterior fp llr_ch m_cv j
      in foldl (\<lambda>vc e. vc[e := fclamp fp (fsub fp total (m_cv ! e)) (fneg fp (LLR_MAX fp)) (LLR_MAX fp)])
           m_vc (var_edges graph ! j))"

definition hardDecision :: "('f, 'd, 'x) fpu_scheme \<Rightarrow> 'f list \<Rightarrow> 'f list \<Rightarrow> nat list" where
  "hardDecision fp llr_ch m_cv =
     map (\<lambda>j. if flt fp (posterior fp llr_ch m_cv j) (f0 fp) then 1 else 0) [0..<112]"

text \<open>
  One pass of the loop body, and the loop: \<open>n\<close> is the number of iterations still allowed. The state
  is the pair of message vectors.
\<close>

definition bpStep :: "('f, 'd, 'x) fpu_scheme \<Rightarrow> 'f list \<Rightarrow> 'f list \<times> 'f list \<Rightarrow> 'f list \<times> 'f list" where
  "bpStep fp llr_ch st =
     (let (m_vc, m_cv) = st;
          m_cv' = foldl (\<lambda>cv i. checkUpdate fp m_vc cv (check_edges graph ! i)) m_cv [0..<56];
          m_vc' = foldl (\<lambda>vc j. varUpdate fp llr_ch m_cv' vc j) m_vc [0..<112]
      in (m_vc', m_cv'))"

fun bpLoop :: "('f, 'd, 'x) fpu_scheme \<Rightarrow> 'f list \<Rightarrow> nat \<Rightarrow> ldpc_result \<Rightarrow> 'f list \<times> 'f list \<Rightarrow>
    ldpc_result \<times> 'f list \<times> 'f list" where
  "bpLoop fp llr_ch 0 result st = (result, st)"
| "bpLoop fp llr_ch (Suc n) result st =
     (let st' = bpStep fp llr_ch st;
          msg = hardDecision fp llr_ch (snd st');
          ok = syndromeOk msg;
          result' = result\<lparr>message := msg, iterations := Suc (iterations result)\<rparr>
      in if ok then (result'\<lparr>converged := True\<rparr>, st') else bpLoop fp llr_ch n result' st')"

definition ldpc_decode :: "('f, 'd, 'x) fpu_scheme \<Rightarrow> 'f list \<times> 'f list \<Rightarrow> 'f rade_comp list \<Rightarrow> 'f list \<Rightarrow> 'f \<Rightarrow> int \<Rightarrow>
    ldpc_result \<times> 'f list \<times> 'f list" where
  "ldpc_decode fp statics syms amplitudes noise_var max_iter =
     (let nv = (if flt fp noise_var (flit fp 1 (-10)) then flit fp 1 (-10) else noise_var);
          llr_ch = ldpc_linear_log_map fp syms amplitudes nv;
          E = length (edges graph);
          m_vc = foldl (\<lambda>m e. m[e := llr_ch ! snd (edges graph ! e)]) (fst statics) [0..<E];
          m_cv = foldl (\<lambda>m e. m[e := f0 fp]) (snd statics) [0..<E]
      in bpLoop fp llr_ch (nat max_iter)
           \<lparr>message = replicate 112 0, converged = False, iterations = 0\<rparr> (m_vc, m_cv))"

subsection \<open>The graph represents the matrix\<close>

definition graph_inv :: "(nat \<times> nat) list \<Rightarrow> ldpc_graph \<Rightarrow> bool" where
  "graph_inv es g \<longleftrightarrow> edges g = es \<and>
     check_edges g = map (\<lambda>i. filter (\<lambda>e. fst (es ! e) = i) [0..<length es]) [0..<56] \<and>
     var_edges g = map (\<lambda>j. filter (\<lambda>e. snd (es ! e) = j) [0..<length es]) [0..<112]"

lemma graph_inv_empty: "graph_inv [] graph_empty"
  by (auto simp: graph_inv_def graph_empty_def map_replicate_const)

lemma indexed_append:
  assumes "f y = x" and "x < n"
  shows "(map (\<lambda>i. filter (\<lambda>e. f (es ! e) = i) [0..<length es]) [0..<n])
     [x := filter (\<lambda>e. f (es ! e) = x) [0..<length es] @ [length es]] =
   map (\<lambda>i. filter (\<lambda>e. f ((es @ [y]) ! e) = i) [0..<length (es @ [y])]) [0..<n]"
proof -
  have "filter (\<lambda>e. f ((es @ [y]) ! e) = i) [0..<length es] = filter (\<lambda>e. f (es ! e) = i) [0..<length es]" for i
    by (rule filter_cong) (auto simp: nth_append)
  then have "filter (\<lambda>e. f ((es @ [y]) ! e) = i) [0..<length (es @ [y])] =
      filter (\<lambda>e. f (es ! e) = i) [0..<length es] @ (if x = i then [length es] else [])" for i
    using assms(1) by simp
  then show ?thesis using assms(2) by (simp only:) (rule nth_equalityI, auto simp: nth_list_update)
qed

lemma graph_inv_add:
  assumes "graph_inv es g" and "c < 56" and "v < 112"
  shows "graph_inv (es @ [(c, v)]) (graph_add g c v)"
  using assms indexed_append [of fst "(c, v)" c 56 es] indexed_append [of snd "(c, v)" v 112 es]
  by (simp add: graph_inv_def graph_add_def Let_def)

definition rowEdges :: "nat list list \<Rightarrow> nat \<Rightarrow> (nat \<times> nat) list" where
  "rowEdges H i = map (Pair i) (filter (\<lambda>j. H ! i ! j \<noteq> 0) [0..<112])"

lemma graph_inv_row:
  assumes "graph_inv es g" and "i < 56" and "n \<le> 112"
  shows "graph_inv (es @ map (Pair i) (filter (\<lambda>j. H ! i ! j \<noteq> 0) [0..<n]))
    (foldl (\<lambda>g j. if H ! i ! j \<noteq> 0 then graph_add g i j else g) g [0..<n])"
  using assms(3)
proof (induction n)
  case (Suc n)
  then show ?case using graph_inv_add [OF _ assms(2), of _ _ n] by (auto simp flip: append_assoc)
qed (use assms(1) in simp)

lemma graph_inv_build:
  "n \<le> 56 \<Longrightarrow> graph_inv (concat (map (rowEdges H) [0..<n]))
    (foldl (\<lambda>g i. foldl (\<lambda>g j. if H ! i ! j \<noteq> 0 then graph_add g i j else g) g [0..<112])
       graph_empty [0..<n])"
proof (induction n)
  case (Suc n)
  then show ?case using graph_inv_row [of _ _ n 112 H] by (simp add: rowEdges_def)
qed (simp add: graph_inv_empty)

lemma graph_facts:
  "edges graph = concat (map (rowEdges HRA_56_56) [0..<56])"
  "check_edges graph = map (\<lambda>i. filter (\<lambda>e. fst (edges graph ! e) = i) [0..<length (edges graph)]) [0..<56]"
  "var_edges graph = map (\<lambda>j. filter (\<lambda>e. snd (edges graph ! e) = j) [0..<length (edges graph)]) [0..<112]"
  using graph_inv_build [of 56 HRA_56_56] by (auto simp: graph_inv_def graph_def buildGraph_def)

lemma distinct_edges: "distinct (edges graph)"
proof -
  have "distinct (concat (map (rowEdges H) [0..<n]))" for H n
    by (induction n) (auto simp: rowEdges_def distinct_map inj_on_def)
  then show ?thesis by (simp add: graph_facts(1))
qed

lemma set_edges: "set (edges graph) = {(i, j). i < 56 \<and> j < 112 \<and> HRA_56_56 ! i ! j \<noteq> 0}"
  by (auto simp: graph_facts(1) rowEdges_def)

subsection \<open>The decoding loop\<close>

lemma hardDecision_bits: "length (hardDecision fp llr cv) = 112" "bits (hardDecision fp llr cv)"
  by (auto simp: hardDecision_def bits_def list_all_iff)

lemma bpLoop_result:
  assumes "bpLoop fp llr n result st = (r, st')" and "\<not> converged result"
    and "length (message result) = 112" and "bits (message result)"
  shows "length (message r) = 112 \<and> bits (message r) \<and> iterations r \<le> iterations result + n \<and>
    (converged r \<longleftrightarrow> 0 < n \<and> syndromeOk (message r)) \<and>
    (\<not> converged r \<longrightarrow> iterations r = iterations result + n)"
  using assms
proof (induction n arbitrary: result st)
  case 0
  then show ?case by auto
next
  case (Suc n)
  define st1 where "st1 = bpStep fp llr st"
  define msg where "msg = hardDecision fp llr (snd st1)"
  define result1 where "result1 = result\<lparr>message := msg, iterations := Suc (iterations result)\<rparr>"
  have loop: "(if syndromeOk msg then (result1\<lparr>converged := True\<rparr>, st1) else bpLoop fp llr n result1 st1) = (r, st')"
    using Suc.prems(1) by (simp only: bpLoop.simps Let_def st1_def msg_def result1_def)
  have msg: "length msg = 112" "bits msg" by (simp_all add: msg_def hardDecision_bits)
  show ?case
  proof (cases "syndromeOk msg")
    case True
    then show ?thesis using loop msg by (auto simp: result1_def)
  next
    case False
    then have run: "bpLoop fp llr n result1 st1 = (r, st')" using loop by simp
    have "length (message r) = 112 \<and> bits (message r) \<and> iterations r \<le> iterations result1 + n \<and>
        (converged r \<longleftrightarrow> 0 < n \<and> syndromeOk (message r)) \<and>
        (\<not> converged r \<longrightarrow> iterations r = iterations result1 + n)"
      using Suc.IH [OF run] Suc.prems(2) msg by (simp add: result1_def)
    moreover have "n = 0 \<Longrightarrow> \<not> syndromeOk (message r)" using run False by (auto simp: result1_def)
    ultimately show ?thesis by (auto simp: result1_def)
  qed
qed

lemma ldpc_decode_result:
  assumes "ldpc_decode fp statics syms amplitudes noise_var max_iter = (r, st')"
  shows "length (message r) = 112 \<and> bits (message r) \<and> iterations r \<le> nat max_iter \<and>
    (converged r \<longleftrightarrow> 0 < max_iter \<and> ldpc_encode (take 56 (message r)) = message r)"
proof -
  obtain llr st where
    loop: "bpLoop fp llr (nat max_iter) \<lparr>message = replicate 112 0, converged = False, iterations = 0\<rparr> st = (r, st')"
    using assms by (auto simp: ldpc_decode_def Let_def)
  have R: "length (message r) = 112 \<and> bits (message r) \<and> iterations r \<le> nat max_iter \<and>
      (converged r \<longleftrightarrow> 0 < nat max_iter \<and> syndromeOk (message r))"
    using bpLoop_result [OF loop] by (simp add: bits_def list_all_iff)
  moreover have "syndromeOk (message r) \<longleftrightarrow> ldpc_encode (take 56 (message r)) = message r"
    using R syndrome_codeword [of "message r"] ldpc_encode_facts(3) [of "take 56 (message r)"] by auto
  ultimately show ?thesis by simp
qed

subsection \<open>Properties\<close>

text \<open>
  C8: The decoder's verdict is exact, for every floating-point implementation: it returns 112 bits, it
  reports convergence if and only if it was allowed an iteration and the bits it returns are the
  encoding of their own first 56 bits, and it never runs more than \<open>max_iter\<close> iterations.
\<close>

theorem ldpc_decode_verdict:
  "let r = fst (ldpc_decode fp statics syms amplitudes noise_var max_iter)
   in length (message r) = 112 \<and> bits (message r) \<and> iterations r \<le> nat max_iter \<and>
      (converged r \<longleftrightarrow> 0 < max_iter \<and> ldpc_encode (take 56 (message r)) = message r)"
  using ldpc_decode_result [of fp statics syms amplitudes noise_var max_iter]
  by (cases "ldpc_decode fp statics syms amplitudes noise_var max_iter") simp

text \<open>
  The Tanner graph the decoder passes messages on is the parity check matrix: its edges are the
  non-zero entries, each once, and the adjacency list of a check (variable) node holds exactly the
  edges of that node.
\<close>

theorem tanner_graph_is_matrix:
  "distinct (edges graph) \<and> set (edges graph) = {(i, j). i < 56 \<and> j < 112 \<and> HRA_56_56 ! i ! j \<noteq> 0} \<and>
   check_edges graph = map (\<lambda>i. filter (\<lambda>e. fst (edges graph ! e) = i) [0..<length (edges graph)]) [0..<56] \<and>
   var_edges graph = map (\<lambda>j. filter (\<lambda>e. snd (edges graph ! e) = j) [0..<length (edges graph)]) [0..<112]"
  using distinct_edges set_edges graph_facts(2,3) by blast

text \<open>
  A decode does not depend on the messages that earlier decodes left in the static vectors
  \<open>m_vc\<close> and \<open>m_cv\<close>.
\<close>

theorem ldpc_decode_ignores_statics:
  assumes "length vc = length (edges graph)" and "length cv = length (edges graph)"
    and "length vc' = length (edges graph)" and "length cv' = length (edges graph)"
  shows "ldpc_decode fp (vc, cv) syms amplitudes noise_var max_iter =
    ldpc_decode fp (vc', cv') syms amplitudes noise_var max_iter"
  using assms by (simp add: ldpc_decode_def Let_def foldl_overwrite)

theorem ldpc_decode_ignores_statics_witness:
  "ldpc_decode int_fpu (replicate (length (edges graph)) 0, replicate (length (edges graph)) 0) (replicate 56 (1, 0)) (replicate 56 1) 1 30 =
   ldpc_decode int_fpu (replicate (length (edges graph)) 9, replicate (length (edges graph)) (- 4)) (replicate 56 (1, 0)) (replicate 56 1) 1 30"
  by (rule ldpc_decode_ignores_statics) simp_all

end
