(* ===== verification/Rade_Tx.thy ===== *)
theory Rade_Tx
  imports Block_Steps Ldpc_Decode
begin

text \<open>
  \<^verbatim>\<open>src/src/pipeline/RADETransmitStep.cpp\<close>: speech is cut into frames, each frame gives a vector of
  features, and every time enough features are collected the RADE modem turns them into a block of modem
  samples. LPCNet and the RADE library are parameters; the sizes they report are fields of \<open>rade_dims\<close>.
  The output of a sequence of calls is the modulation of the features of the whole stream, however the
  stream is cut into calls. \<open>restartVocoder\<close> queues the end-of-over signal for the next call.
\<close>

subsection \<open>State and operations\<close>

text \<open>
  The constants of the headers of LPCNet and RADE, and what the size functions \<^verbatim>\<open>rade_n_features_in_out\<close>,
  \<^verbatim>\<open>rade_n_tx_out\<close>, \<^verbatim>\<open>rade_n_tx_eoo_out\<close>, \<^verbatim>\<open>rade_nin_max\<close> and \<^verbatim>\<open>rade_n_eoo_bits\<close> return for an open modem.
\<close>

record rade_dims =
  modemRate :: int
  speechRate :: int
  frameSize :: int
  nbFeatures :: int
  nFeatures :: int
  nTxOut :: int
  nTxEooOut :: int
  ninMax :: int
  nEooBits :: int

record ('f, 'dv, 'enc) tx_api =
  rade_tx :: "'dv \<Rightarrow> 'f list \<Rightarrow> 'f rade_comp list \<times> 'dv"
  rade_tx_eoo :: "'dv \<Rightarrow> 'f rade_comp list \<times> 'dv"
  lpcnet_features :: "'enc \<Rightarrow> short list \<Rightarrow> 'f list \<times> 'enc"

text \<open>
  The fields of the class. \<open>txUt\<close> is the FIFO of the optional feature file (\<open>None\<close> when no file is
  written), \<open>txSignals\<close> counts the signals sent to the thread that writes it.
\<close>

record ('f, 'dv, 'enc) tx_step =
  txDv :: 'dv
  txEnc :: 'enc
  txInFifo :: "short fifo"
  txOutFifo :: "short fifo"
  featureList :: "'f list"
  featureListIdx :: int
  txUt :: "'f fifo option"
  txSignals :: nat

definition numSamplesSilence :: "rade_dims \<Rightarrow> int" where
  "numSamplesSilence dims = c_div (200 * modemRate dims) 1000"

definition eooLengthInSamples :: "rade_dims \<Rightarrow> int" where
  "eooLengthInSamples dims = nTxEooOut dims + numSamplesSilence dims"

definition featureFifoSize :: "rade_dims \<Rightarrow> int" where
  "featureFifoSize dims = c_div (speechRate dims) (frameSize dims) * nFeatures dims"

definition tx_new :: "('f, 'd, 'x) fpu_scheme \<Rightarrow> rade_dims \<Rightarrow> 'dv \<Rightarrow> 'enc \<Rightarrow> bool \<Rightarrow> ('f, 'dv, 'enc) tx_step" where
  "tx_new fp dims dv enc writeFile =
     \<lparr>txDv = dv, txEnc = enc,
      txInFifo = fifo_new (frameSize dims + 1) None (\<lambda>n. replicate (nat n) 0),
      txOutFifo = preAllocated_new (modemRate dims) (replicate (nat (modemRate dims)) 0),
      featureList = replicate (nat (nFeatures dims)) (f0 fp), featureListIdx = 0,
      txUt = (if writeFile then Some (fifo_new (featureFifoSize dims) None (\<lambda>n. replicate (nat n) (f0 fp))) else None),
      txSignals = 0\<rparr>"

text \<open>
  The features go to the file's FIFO when there is one; its thread is woken when the FIFO is more than
  three quarters full.
\<close>

definition ut_record :: "'f fifo option \<Rightarrow> nat \<Rightarrow> 'f list \<Rightarrow> 'f fifo option \<times> nat" where
  "ut_record ut signals features =
     (case ut of
        None \<Rightarrow> (None, signals)
      | Some f \<Rightarrow>
          let f1 = snd (fifo_write f features (int (length features)))
          in (Some f1, if 4 * numUsed f1 > 3 * capacity f1 then signals + 1 else signals))"

text \<open>The conversion of a modem sample to an integer: only the real component is sent.\<close>

definition txShort :: "('f, 'd, 'x) fpu_scheme \<Rightarrow> 'f rade_comp \<Rightarrow> short" where
  "txShort fp c = word_of_int (ftrunc fp (fmul fp (fst c) (i2f fp 16383)))"

text \<open>The body of the loop over the features of a frame, with the value of \<open>*numOutputSamples\<close>.\<close>

definition tx_feature :: "('f, 'd, 'x) fpu_scheme \<Rightarrow> rade_dims \<Rightarrow> ('f, 'dv, 'enc) tx_api \<Rightarrow> ('f, 'dv, 'enc) tx_step \<times> int \<Rightarrow> 'f \<Rightarrow>
    ('f, 'dv, 'enc) tx_step \<times> int" where
  "tx_feature fp dims api = (\<lambda>(s, numOut) x.
     let s1 = s\<lparr>featureList := (featureList s)[nat (featureListIdx s) := x], featureListIdx := featureListIdx s + 1\<rparr>
     in if featureListIdx s1 = nFeatures dims then
          let (radeOut, dv) = rade_tx api (txDv s1) (featureList s1);
              radeOutShort = map (txShort fp) radeOut;
              f = snd (fifo_write (txOutFifo s1) radeOutShort (int (length radeOutShort)))
          in (s1\<lparr>featureListIdx := 0, txDv := dv, txOutFifo := f\<rparr>, numUsed f)
        else (s1, numOut))"

partial_function (option) txLoop :: "('f, 'd, 'x) fpu_scheme \<Rightarrow> rade_dims \<Rightarrow> ('f, 'dv, 'enc) tx_api \<Rightarrow> ('f, 'dv, 'enc) tx_step \<Rightarrow>
    short list \<Rightarrow> int \<Rightarrow> (('f, 'dv, 'enc) tx_step \<times> int) option" where
  "txLoop fp dims api s inp numOut =
     (if numOut + nTxOut dims < modemRate dims then
        let samplesToWrite = min (numFree (txInFifo s)) (int (length inp));
            f1 = snd (fifo_write (txInFifo s) inp samplesToWrite);
            inp1 = drop (nat samplesToWrite) inp
        in if numFree f1 > 0 then Some (s\<lparr>txInFifo := f1\<rparr>, numOut)
           else
             (case fifo_read f1 (frameSize dims) of (r, pcm, f2) \<Rightarrow>
                let (features, enc) = lpcnet_features api (txEnc s) pcm;
                    (ut, signals) = ut_record (txUt s) (txSignals s) features;
                    (s1, numOut1) = foldl (tx_feature fp dims api)
                       (s\<lparr>txInFifo := f2, txEnc := enc, txUt := ut, txSignals := signals\<rparr>, numOut) features
                in txLoop fp dims api s1 inp1 numOut1)
      else Some (s, numOut))"

text \<open>The samples of the call: what \<open>outputSamples_\<close> holds up to \<open>*numOutputSamples\<close>.\<close>

definition tx_take :: "('f, 'dv, 'enc) tx_step \<Rightarrow> int \<Rightarrow> short list \<times> ('f, 'dv, 'enc) tx_step" where
  "tx_take s numOut =
     (if numOut > 0 then (case fifo_read (txOutFifo s) numOut of (r, out, f) \<Rightarrow> (out, s\<lparr>txOutFifo := f\<rparr>)) else ([], s))"

definition tx_execute :: "('f, 'd, 'x) fpu_scheme \<Rightarrow> rade_dims \<Rightarrow> ('f, 'dv, 'enc) tx_api \<Rightarrow> ('f, 'dv, 'enc) tx_step \<Rightarrow>
    short list \<Rightarrow> (short list \<times> ('f, 'dv, 'enc) tx_step) option" where
  "tx_execute fp dims api s inp =
     (if inp = [] then Some (tx_take s (numUsed (txOutFifo s)))
      else map_option (\<lambda>(s', numOut). tx_take s' numOut) (txLoop fp dims api s inp 0))"

text \<open>\<open>eooOutShort_\<close>: the end-of-over samples, then silence.\<close>

definition eooShort :: "('f, 'd, 'x) fpu_scheme \<Rightarrow> rade_dims \<Rightarrow> 'f rade_comp list \<Rightarrow> short list" where
  "eooShort fp dims eooOut = map (txShort fp) (take (nat (nTxEooOut dims)) eooOut) @ replicate (nat (numSamplesSilence dims)) 0"

text \<open>The result says whether the end-of-over block was queued; the code logs a warning otherwise.\<close>

definition restartVocoder :: "('f, 'd, 'x) fpu_scheme \<Rightarrow> rade_dims \<Rightarrow> ('f, 'dv, 'enc) tx_api \<Rightarrow> ('f, 'dv, 'enc) tx_step \<Rightarrow>
    bool \<times> ('f, 'dv, 'enc) tx_step" where
  "restartVocoder fp dims api s =
     (let (eooOut, dv) = rade_tx_eoo api (txDv s);
          (r, f) = fifo_write (txOutFifo s) (eooShort fp dims eooOut) (eooLengthInSamples dims)
      in (r = 0, s\<lparr>txDv := dv, txOutFifo := f\<rparr>))"

definition tx_reset :: "('f, 'dv, 'enc) tx_step \<Rightarrow> ('f, 'dv, 'enc) tx_step" where
  "tx_reset s = s\<lparr>txInFifo := fifo_reset (txInFifo s), txOutFifo := fifo_reset (txOutFifo s), featureListIdx := 0\<rparr>"

text \<open>
  The drain loop of the thread that writes the feature file (the same in \<open>RADETransmitStep\<close> and
  \<open>RADEReceiveStep\<close>): \<open>file\<close> is what was written so far.
\<close>

partial_function (option) utDrain :: "'f fifo \<Rightarrow> 'f list \<Rightarrow> ('f list \<times> 'f fifo) option" where
  "utDrain f file =
     (let numToRead = min (numUsed f) (capacity f)
      in if numToRead > 0
         then (case fifo_read f numToRead of (r, featureBuf, f1) \<Rightarrow> utDrain f1 (file @ featureBuf))
         else Some (file, f))"

subsection \<open>Specification: the modulation of a stream\<close>

definition modulate :: "('f, 'd, 'x) fpu_scheme \<Rightarrow> ('f, 'dv, 'enc) tx_api \<Rightarrow> 'dv \<Rightarrow> 'f list \<Rightarrow> short list \<times> 'dv" where
  "modulate fp api dv g = map_prod (map (txShort fp)) id (rade_tx api dv g)"

text \<open>What the step remembers between calls: the library states, the speech and the features that wait.\<close>

type_synonym ('f, 'dv, 'enc) tx_memory = "'dv \<times> 'enc \<times> short list \<times> 'f list"

definition tx_memory :: "('f, 'dv, 'enc) tx_step \<Rightarrow> ('f, 'dv, 'enc) tx_memory" where
  "tx_memory s = (txDv s, txEnc s, contents (txInFifo s), take (nat (featureListIdx s)) (featureList s))"

definition tx_spec :: "('f, 'd, 'x) fpu_scheme \<Rightarrow> rade_dims \<Rightarrow> ('f, 'dv, 'enc) tx_api \<Rightarrow> ('f, 'dv, 'enc) tx_memory \<Rightarrow> short list \<Rightarrow>
    short list \<times> ('f, 'dv, 'enc) tx_memory" where
  "tx_spec fp dims api = (\<lambda>(dv, enc, p, q) inp.
     let (fs, enc') = flow (lpcnet_features api) enc (frames (nat (frameSize dims)) (p @ inp));
         (out, dv') = flow (modulate fp api) dv (frames (nat (nFeatures dims)) (q @ fs))
     in (out, dv', enc', leftover (nat (frameSize dims)) (p @ inp), leftover (nat (nFeatures dims)) (q @ fs)))"

text \<open>The number of modem blocks that an input completes.\<close>

definition tx_groups :: "rade_dims \<Rightarrow> ('f, 'dv, 'enc) tx_api \<Rightarrow> ('f, 'dv, 'enc) tx_memory \<Rightarrow> short list \<Rightarrow> nat" where
  "tx_groups dims api = (\<lambda>(dv, enc, p, q) inp.
     length (frames (nat (nFeatures dims)) (q @ fst (flow (lpcnet_features api) enc (frames (nat (frameSize dims)) (p @ inp))))))"

definition dims_ok :: "rade_dims \<Rightarrow> bool" where
  "dims_ok dims \<longleftrightarrow> 0 < frameSize dims \<and> frameSize dims < 2 ^ 31 - 1 \<and> 0 < nFeatures dims \<and> 0 \<le> nTxOut dims \<and>
     0 \<le> nTxEooOut dims \<and> 0 < modemRate dims \<and> modemRate dims < 2 ^ 31"

text \<open>Documented of the RADE library: a call gives at most \<^verbatim>\<open>rade_n_tx_out\<close> samples.\<close>

definition tx_api_ok :: "rade_dims \<Rightarrow> ('f, 'dv, 'enc) tx_api \<Rightarrow> bool" where
  "tx_api_ok dims api \<longleftrightarrow> (\<forall>dv g. int (length (fst (rade_tx api dv g))) \<le> nTxOut dims)"

text \<open>The invariant of the step.\<close>

definition tx_ok :: "rade_dims \<Rightarrow> ('f, 'dv, 'enc) tx_step \<Rightarrow> bool" where
  "tx_ok dims s \<longleftrightarrow>
     fifo_inv (txInFifo s) \<and> capacity (txInFifo s) = frameSize dims \<and> int (length (contents (txInFifo s))) < frameSize dims \<and>
     fifo_inv (txOutFifo s) \<and> capacity (txOutFifo s) = modemRate dims - 1 \<and>
     int (length (featureList s)) = nFeatures dims \<and> 0 \<le> featureListIdx s \<and> featureListIdx s < nFeatures dims"

lemma tx_spec_append:
  assumes "dims_ok dims"
  shows "tx_spec fp dims api c (x @ y) =
    (let (u, c1) = tx_spec fp dims api c x; (v, c2) = tx_spec fp dims api c1 y in (u @ v, c2))"
proof -
  have pos: "0 < nat (frameSize dims)" "0 < nat (nFeatures dims)" using assms by (auto simp: dims_ok_def)
  obtain dv enc p q where c: "c = (dv, enc, p, q)" by (cases c)
  show ?thesis
    unfolding c tx_spec_def
    using frames_append [OF pos(1), of "p @ x" y]
      frames_append [OF pos(2), of "q @ fst (flow (lpcnet_features api) enc (frames (nat (frameSize dims)) (p @ x)))"]
    by (simp add: Let_def case_prod_unfold flow_append)
qed

lemma tx_groups_append:
  assumes "dims_ok dims"
  shows "tx_groups dims api c (x @ y) = tx_groups dims api c x + tx_groups dims api (snd (tx_spec fp dims api c x)) y"
proof -
  have pos: "0 < nat (frameSize dims)" "0 < nat (nFeatures dims)" using assms by (auto simp: dims_ok_def)
  obtain dv enc p q where c: "c = (dv, enc, p, q)" by (cases c)
  show ?thesis
    unfolding c tx_spec_def tx_groups_def
    using frames_append [OF pos(1), of "p @ x" y]
      frames_append [OF pos(2), of "q @ fst (flow (lpcnet_features api) enc (frames (nat (frameSize dims)) (p @ x)))"]
    by (simp add: Let_def case_prod_unfold flow_append)
qed

lemma tx_spec_short:
  assumes "dims_ok dims" and "int (length p + length inp) < frameSize dims" and "int (length q) < nFeatures dims"
  shows "tx_spec fp dims api (dv, enc, p, q) inp = ([], dv, enc, p @ inp, q)"
  using assms by (simp add: tx_spec_def frames_short leftover_short nat_less_iff)

subsection \<open>The loops meet the specification\<close>

declare length_contents [simp del]

lemma tx_feature_step:
  assumes ok: "tx_ok dims s" "dims_ok dims" "tx_api_ok dims api"
    and room: "featureListIdx s + 1 = nFeatures dims \<Longrightarrow> int (length (contents (txOutFifo s))) + nTxOut dims < modemRate dims"
  obtains s' where "tx_feature fp dims api (s, int (length (contents (txOutFifo s)))) x = (s', int (length (contents (txOutFifo s'))))"
    and "tx_ok dims s'" and "txInFifo s' = txInFifo s" and "txEnc s' = txEnc s"
    and "(contents (txOutFifo s'), txDv s') =
      (let (u, dv) = flow (modulate fp api) (txDv s) (frames (nat (nFeatures dims)) (take (nat (featureListIdx s)) (featureList s) @ [x]))
       in (contents (txOutFifo s) @ u, dv))"
    and "take (nat (featureListIdx s')) (featureList s') =
      leftover (nat (nFeatures dims)) (take (nat (featureListIdx s)) (featureList s) @ [x])"
proof -
  let ?i = "nat (featureListIdx s)" and ?n = "nat (nFeatures dims)"
  let ?L = "(featureList s)[?i := x]" and ?q = "take ?i (featureList s) @ [x]"
  have i: "?i < length (featureList s)" "length (featureList s) = ?n" "0 < ?n" using ok by (auto simp: tx_ok_def dims_ok_def)
  have q: "take (Suc ?i) ?L = ?q" "length ?q = Suc ?i" using i by (simp_all add: take_Suc_conv_app_nth)
  show thesis
  proof (cases "featureListIdx s + 1 = nFeatures dims")
    case True
    then have full: "Suc ?i = ?n" "?L = ?q" "length ?q = ?n" using ok q i by (auto simp: tx_ok_def)
    obtain iq dv where tx: "rade_tx api (txDv s) ?q = (iq, dv)" by (cases "rade_tx api (txDv s) ?q")
    define f where "f = snd (fifo_write (txOutFifo s) (map (txShort fp) iq) (int (length iq)))"
    have inv: "fifo_inv (txOutFifo s)" "capacity (txOutFifo s) = modemRate dims - 1" using ok by (auto simp: tx_ok_def)
    have "int (length iq) \<le> nTxOut dims" using ok(3) tx unfolding tx_api_ok_def by (metis fst_conv)
    then have "int (length (map (txShort fp) iq)) \<le> numFree (txOutFifo s)"
      using room [OF True] fq.free_used [OF inv(1)] fq.used_items [OF inv(1)] inv(2) by simp
    from fq.write_fits [OF inv(1) _ this, of "map (txShort fp) iq"]
    have f: "fifo_inv f" "contents f = contents (txOutFifo s) @ map (txShort fp) iq" "capacity f = modemRate dims - 1"
      using inv(2) by (simp_all add: f_def)
    have fr: "frames ?n ?q = [?q]" "leftover ?n ?q = []" using full i by (simp_all add: frames_step frames_short leftover_def)
    define s' where "s' = s\<lparr>featureList := ?q, featureListIdx := 0, txDv := dv, txOutFifo := f\<rparr>"
    show thesis
      using that [of s'] True full f ok i fq.used_items [OF f(1)]
      by (simp add: s'_def tx_feature_def Let_def tx f_def [symmetric] fr tx_ok_def dims_ok_def modulate_def)
  next
    case False
    then have part: "Suc ?i < ?n" using ok by (auto simp: tx_ok_def)
    define s' where "s' = s\<lparr>featureList := ?L, featureListIdx := featureListIdx s + 1\<rparr>"
    have "nat (featureListIdx s + 1) = Suc ?i" using ok by (auto simp: tx_ok_def)
    then show thesis
      using that [of s'] ok False part q by (simp add: s'_def tx_feature_def tx_ok_def frames_short leftover_short)
  qed
qed

lemma flow_modulate_length:
  assumes "tx_api_ok dims api"
  shows "int (length (fst (flow (modulate fp api) dv gs))) \<le> int (length gs) * nTxOut dims"
proof (induction gs arbitrary: dv)
  case (Cons g gs)
  have "int (length (fst (modulate fp api dv g))) \<le> nTxOut dims" using assms by (simp add: modulate_def tx_api_ok_def)
  then show ?case using Cons [of "snd (modulate fp api dv g)"] by (simp add: Let_def case_prod_unfold distrib_right)
qed simp

lemma tx_features:
  assumes "tx_ok dims s" and "dims_ok dims" and "tx_api_ok dims api"
    and "int (length (contents (txOutFifo s))) +
      int (length (frames (nat (nFeatures dims)) (take (nat (featureListIdx s)) (featureList s) @ fs))) * nTxOut dims < modemRate dims"
  shows "\<exists>s'. foldl (tx_feature fp dims api) (s, int (length (contents (txOutFifo s)))) fs = (s', int (length (contents (txOutFifo s')))) \<and>
    tx_ok dims s' \<and> txInFifo s' = txInFifo s \<and> txEnc s' = txEnc s \<and>
    (contents (txOutFifo s'), txDv s') =
      (let (u, dv) = flow (modulate fp api) (txDv s) (frames (nat (nFeatures dims)) (take (nat (featureListIdx s)) (featureList s) @ fs))
       in (contents (txOutFifo s) @ u, dv)) \<and>
    take (nat (featureListIdx s')) (featureList s') = leftover (nat (nFeatures dims)) (take (nat (featureListIdx s)) (featureList s) @ fs)"
  using assms(1,4)
proof (induction fs arbitrary: s)
  case Nil
  have "length (take (nat (featureListIdx s)) (featureList s)) < nat (nFeatures dims)" using Nil(1) by (auto simp: tx_ok_def)
  then show ?case using Nil by (simp add: frames_short leftover_short)
next
  case (Cons x fs)
  let ?n = "nat (nFeatures dims)" and ?q = "take (nat (featureListIdx s)) (featureList s)"
  have n: "0 < ?n" using assms(2) by (simp add: dims_ok_def)
  have len: "length ?q = nat (featureListIdx s)" using Cons.prems(1) by (auto simp: tx_ok_def)
  have split: "frames ?n (?q @ x # fs) = frames ?n (?q @ [x]) @ frames ?n (leftover ?n (?q @ [x]) @ fs)"
    "leftover ?n (?q @ x # fs) = leftover ?n (leftover ?n (?q @ [x]) @ fs)"
    using frames_append [OF n, of "?q @ [x]" fs] by simp_all
  have t: "0 \<le> nTxOut dims" using assms(2) by (simp add: dims_ok_def)
  have room: "int (length (contents (txOutFifo s))) + nTxOut dims < modemRate dims" if "featureListIdx s + 1 = nFeatures dims"
  proof -
    have "length (?q @ [x]) = ?n" using that len Cons.prems(1) by (auto simp: tx_ok_def)
    then have "frames ?n (?q @ [x]) = [?q @ [x]]" using n by (intro frames_exact)
    then have "nTxOut dims \<le> int (length (frames ?n (?q @ x # fs))) * nTxOut dims"
      using t unfolding split by (simp add: distrib_right)
    then show ?thesis using Cons.prems(2) by simp
  qed
  obtain s1 where s1: "tx_feature fp dims api (s, int (length (contents (txOutFifo s)))) x = (s1, int (length (contents (txOutFifo s1))))"
      "tx_ok dims s1" "txInFifo s1 = txInFifo s" "txEnc s1 = txEnc s"
    and core: "(contents (txOutFifo s1), txDv s1) =
        (let (u, dv) = flow (modulate fp api) (txDv s) (frames ?n (?q @ [x])) in (contents (txOutFifo s) @ u, dv))"
      "take (nat (featureListIdx s1)) (featureList s1) = leftover ?n (?q @ [x])"
    using tx_feature_step [OF Cons.prems(1) assms(2,3) room] by blast
  have "int (length (contents (txOutFifo s1))) \<le> int (length (contents (txOutFifo s))) + int (length (frames ?n (?q @ [x]))) * nTxOut dims"
    using core(1) flow_modulate_length [OF assms(3), of fp "txDv s" "frames ?n (?q @ [x])"] by (simp add: Let_def case_prod_unfold)
  then have "int (length (contents (txOutFifo s1))) +
      int (length (frames ?n (take (nat (featureListIdx s1)) (featureList s1) @ fs))) * nTxOut dims < modemRate dims"
    using Cons.prems(2) unfolding split core(2) by (simp add: distrib_right)
  from Cons.IH [OF s1(2) this] core s1 show ?case
    unfolding split by (simp add: Let_def case_prod_unfold flow_append)
qed

text \<open>What one round of the loop writes into the input FIFO.\<close>

lemma tx_fill:
  assumes "tx_ok dims s" and "dims_ok dims"
  defines "F \<equiv> nat (frameSize dims)" and "p \<equiv> contents (txInFifo s)"
  obtains n f1 where "min (numFree (txInFifo s)) (int (length inp)) = int n" and "n = min (F - length p) (length inp)"
    and "snd (fifo_write (txInFifo s) inp (int n)) = f1" and "fifo_inv f1" and "contents f1 = p @ take n inp"
    and "capacity f1 = frameSize dims" and "0 < numFree f1 \<longleftrightarrow> length p + length inp < F" and "length p < F"
proof -
  let ?n = "min (F - length p) (length inp)"
  let ?f = "snd (fifo_write (txInFifo s) inp (int ?n))"
  have F: "0 < F" "int F = frameSize dims" using assms(2) by (auto simp: dims_ok_def F_def)
  have inv: "fifo_inv (txInFifo s)" "capacity (txInFifo s) = int F" "length p < F"
    using assms(1) F by (auto simp: tx_ok_def p_def)
  have free: "numFree (txInFifo s) = int (F - length p)"
    using fq.free_used [OF inv(1)] fq.used_items [OF inv(1)] inv(2,3) by (simp add: p_def)
  have f: "fifo_inv ?f" "contents ?f = p @ take ?n inp" "capacity ?f = int F"
    using fq.write_fits [OF inv(1), of "int ?n" inp] free inv(2) by (simp_all add: p_def)
  have "length p + ?n \<le> F" "?n \<le> length inp" using inv(3) by simp_all
  then have "numFree ?f = int F - int (length p + ?n)"
    using fq.free_used [OF f(1)] fq.used_items [OF f(1)] f(2,3) by simp
  then have "0 < numFree ?f \<longleftrightarrow> length p + length inp < F" by linarith
  with f inv F free show thesis by (intro that [of ?n ?f]) simp_all
qed

text \<open>A round that completes a frame: its features are extracted and the modem blocks they complete are queued.\<close>

lemma tx_round:
  assumes "tx_ok dims s" and "dims_ok dims" and "tx_api_ok dims api"
    and "int (length (contents (txOutFifo s))) + (int (tx_groups dims api (tx_memory s) x) + 1) * nTxOut dims < modemRate dims"
    and "length (contents (txInFifo s) @ x) = nat (frameSize dims)" and "fifo_inv f1" and "contents f1 = contents (txInFifo s) @ x"
    and "capacity f1 = frameSize dims"
  obtains s2 where "(case fifo_read f1 (frameSize dims) of (r, pcm, f2) \<Rightarrow>
        let (features, enc) = lpcnet_features api (txEnc s) pcm; (ut, signals) = ut_record (txUt s) (txSignals s) features
        in foldl (tx_feature fp dims api) (s\<lparr>txInFifo := f2, txEnc := enc, txUt := ut, txSignals := signals\<rparr>,
             int (length (contents (txOutFifo s)))) features) = (s2, int (length (contents (txOutFifo s2))))"
    and "tx_ok dims s2" and "tx_memory s2 = snd (tx_spec fp dims api (tx_memory s) x)"
    and "contents (txOutFifo s2) = contents (txOutFifo s) @ fst (tx_spec fp dims api (tx_memory s) x)"
    and "int (length (contents (txOutFifo s2))) \<le> int (length (contents (txOutFifo s))) + int (tx_groups dims api (tx_memory s) x) * nTxOut dims"
proof -
  let ?F = "nat (frameSize dims)" and ?N = "nat (nFeatures dims)" and ?b = "contents (txInFifo s) @ x"
  let ?q = "take (nat (featureListIdx s)) (featureList s)"
  have t: "0 \<le> nTxOut dims" and F: "0 < ?F" "int ?F = frameSize dims" using assms(2) by (auto simp: dims_ok_def)
  obtain r pcm f2 where rd: "fifo_read f1 (frameSize dims) = (r, pcm, f2)" by (rule prod_cases3)
  have f2: "pcm = ?b" "fifo_inv f2" "contents f2 = []" "capacity f2 = frameSize dims"
    using fq.read_available [OF assms(6), of "frameSize dims"] fq.used_items [OF assms(6)] fq.cap_read [of f1 "frameSize dims"]
      assms(5,7,8) F rd by simp_all
  obtain fs enc where lp: "lpcnet_features api (txEnc s) ?b = (fs, enc)" by fastforce
  obtain ut sg where ut: "ut_record (txUt s) (txSignals s) fs = (ut, sg)" by fastforce
  define s1 where "s1 = s\<lparr>txInFifo := f2, txEnc := enc, txUt := ut, txSignals := sg\<rparr>"
  have ok1: "tx_ok dims s1" using assms(1) f2 F by (simp add: s1_def tx_ok_def)
  have fr: "frames ?F ?b = [?b]" "leftover ?F ?b = []"
    using frames_exact [OF F(1) assms(5)] assms(5) F(1) by (simp_all add: leftover_def)
  have spec: "tx_spec fp dims api (tx_memory s) x =
      (let (u, dv) = flow (modulate fp api) (txDv s) (frames ?N (?q @ fs)) in (u, dv, enc, [], leftover ?N (?q @ fs)))"
    by (simp add: tx_spec_def tx_memory_def fr lp case_prod_unfold Let_def)
  have grp: "tx_groups dims api (tx_memory s) x = length (frames ?N (?q @ fs))"
    by (simp add: tx_groups_def tx_memory_def fr lp)
  have "int (length (contents (txOutFifo s1))) + int (length (frames ?N (take (nat (featureListIdx s1)) (featureList s1) @ fs))) * nTxOut dims < modemRate dims"
    using assms(4) t unfolding grp by (simp add: s1_def distrib_right)
  from tx_features [OF ok1 assms(2,3) this, of fp] obtain s2 where
    s2: "foldl (tx_feature fp dims api) (s1, int (length (contents (txOutFifo s1)))) fs = (s2, int (length (contents (txOutFifo s2))))"
      "tx_ok dims s2" "txInFifo s2 = f2" "txEnc s2 = enc"
      "(contents (txOutFifo s2), txDv s2) =
        (let (u, dv) = flow (modulate fp api) (txDv s) (frames ?N (?q @ fs)) in (contents (txOutFifo s) @ u, dv))"
      "take (nat (featureListIdx s2)) (featureList s2) = leftover ?N (?q @ fs)"
    by (auto simp: s1_def)
  show thesis
  proof (rule that [OF _ s2(2)])
    show "int (length (contents (txOutFifo s2))) \<le> int (length (contents (txOutFifo s))) + int (tx_groups dims api (tx_memory s) x) * nTxOut dims"
      using flow_modulate_length [OF assms(3), of fp "txDv s" "frames ?N (?q @ fs)"] s2(5) unfolding grp
      by (simp add: Let_def case_prod_unfold)
  qed (use s2 f2(1,3) rd lp ut spec in \<open>simp_all add: tx_memory_def s1_def Let_def case_prod_unfold\<close>)
qed

lemma txLoop_eq:
  assumes "tx_ok dims s" and "dims_ok dims" and "tx_api_ok dims api"
    and "int (length (contents (txOutFifo s))) + (int (tx_groups dims api (tx_memory s) inp) + 1) * nTxOut dims < modemRate dims"
  shows "\<exists>s'. txLoop fp dims api s inp (int (length (contents (txOutFifo s)))) = Some (s', int (length (contents (txOutFifo s')))) \<and>
    tx_ok dims s' \<and> contents (txOutFifo s') = contents (txOutFifo s) @ fst (tx_spec fp dims api (tx_memory s) inp) \<and>
    tx_memory s' = snd (tx_spec fp dims api (tx_memory s) inp)"
  using assms(1,4)
proof (induction "length inp" arbitrary: s inp rule: less_induct)
  case less
  let ?F = "nat (frameSize dims)" and ?p = "contents (txInFifo s)" and ?q = "take (nat (featureListIdx s)) (featureList s)"
  have t: "0 \<le> nTxOut dims" using assms(2) by (auto simp: dims_ok_def)
  then have g0: "0 \<le> int (tx_groups dims api c x) * nTxOut dims" for c x by simp
  have guard: "int (length (contents (txOutFifo s))) + nTxOut dims < modemRate dims"
    using less.prems(2) g0 [of "tx_memory s" inp] by (simp add: distrib_right)
  obtain n f1 where n: "min (numFree (txInFifo s)) (int (length inp)) = int n" "n = min (?F - length ?p) (length inp)"
    and f1: "snd (fifo_write (txInFifo s) inp (int n)) = f1" "fifo_inv f1" "contents f1 = ?p @ take n inp" "capacity f1 = frameSize dims"
    and stop: "0 < numFree f1 \<longleftrightarrow> length ?p + length inp < ?F" and p: "length ?p < ?F"
    using tx_fill [OF less.prems(1) assms(2)] .
  have q: "int (length ?q) < nFeatures dims" using less.prems(1) by (auto simp: tx_ok_def)
  show ?case
  proof (cases "length ?p + length inp < ?F")
    case True
    then have "n = length inp" "int (length ?p + length inp) < frameSize dims" using n(2) by auto
    then show ?thesis
      using less.prems guard True f1 n(1) q stop tx_spec_short [OF assms(2), of ?p inp ?q fp api "txDv s" "txEnc s"]
      by (intro exI [of _ "s\<lparr>txInFifo := f1\<rparr>"], subst txLoop.simps) (simp add: Let_def tx_memory_def tx_ok_def)
  next
    case False
    let ?m = "snd (tx_spec fp dims api (tx_memory s) (take n inp))"
    have n1: "0 < n" "n \<le> length inp" "length (?p @ take n inp) = ?F" using False p n(2) by auto
    note ga = tx_groups_append [OF assms(2), of api "tx_memory s" "take n inp" "drop n inp" fp, simplified]
    have room: "int (length (contents (txOutFifo s))) + (int (tx_groups dims api (tx_memory s) (take n inp)) + 1) * nTxOut dims < modemRate dims"
      using less.prems(2) g0 [of ?m "drop n inp"] unfolding ga by (simp add: distrib_right)
    obtain s2 where step: "(case fifo_read f1 (frameSize dims) of (r, pcm, f2) \<Rightarrow>
        let (features, enc) = lpcnet_features api (txEnc s) pcm; (ut, signals) = ut_record (txUt s) (txSignals s) features
        in foldl (tx_feature fp dims api) (s\<lparr>txInFifo := f2, txEnc := enc, txUt := ut, txSignals := signals\<rparr>,
             int (length (contents (txOutFifo s)))) features) = (s2, int (length (contents (txOutFifo s2))))"
      and s2: "tx_ok dims s2" "tx_memory s2 = ?m"
      "contents (txOutFifo s2) = contents (txOutFifo s) @ fst (tx_spec fp dims api (tx_memory s) (take n inp))"
      "int (length (contents (txOutFifo s2))) \<le> int (length (contents (txOutFifo s))) + int (tx_groups dims api (tx_memory s) (take n inp)) * nTxOut dims"
      using tx_round [OF less.prems(1) assms(2,3) room n1(3) f1(2,3,4)] .
    have "int (length (contents (txOutFifo s2))) + (int (tx_groups dims api (tx_memory s2) (drop n inp)) + 1) * nTxOut dims < modemRate dims"
      using less.prems(2) s2(4) unfolding ga s2(2) by (simp add: distrib_right)
    moreover have "length (drop n inp) < length inp" using n1 by simp
    ultimately obtain s' where
      s': "txLoop fp dims api s2 (drop n inp) (int (length (contents (txOutFifo s2)))) = Some (s', int (length (contents (txOutFifo s'))))"
        "tx_ok dims s'" "contents (txOutFifo s') = contents (txOutFifo s2) @ fst (tx_spec fp dims api (tx_memory s2) (drop n inp))"
        "tx_memory s' = snd (tx_spec fp dims api (tx_memory s2) (drop n inp))"
      using less.hyps [OF _ s2(1)] by blast
    have "txLoop fp dims api s inp (int (length (contents (txOutFifo s)))) = txLoop fp dims api s2 (drop n inp) (int (length (contents (txOutFifo s2))))"
      using guard n(1) stop False step f1(1) by (subst txLoop.simps) (simp add: Let_def case_prod_unfold)
    then show ?thesis
      using s' tx_spec_append [OF assms(2), of fp api "tx_memory s" "take n inp" "drop n inp"] s2
      by (simp add: Let_def case_prod_unfold)
  qed
qed

subsection \<open>Calls\<close>

lemma tx_take_all:
  assumes "tx_ok dims s"
  obtains s' where "tx_take s (int (length (contents (txOutFifo s)))) = (contents (txOutFifo s), s')" and "tx_ok dims s'"
    and "contents (txOutFifo s') = []" and "tx_memory s' = tx_memory s"
proof -
  let ?n = "int (length (contents (txOutFifo s)))"
  have inv: "fifo_inv (txOutFifo s)" using assms by (simp add: tx_ok_def)
  show thesis
  proof (cases "contents (txOutFifo s) = []")
    case True
    then show thesis using that [of s] assms by (simp add: tx_take_def)
  next
    case False
    obtain r out f where rd: "fifo_read (txOutFifo s) ?n = (r, out, f)" by (rule prod_cases3)
    have "out = contents (txOutFifo s)" "fifo_inv f" "contents f = []" "capacity f = capacity (txOutFifo s)"
      using fq.read_available [OF inv, of ?n] fq.used_items [OF inv] fq.cap_read [of "txOutFifo s" ?n] rd by simp_all
    then show thesis
      using that [of "s\<lparr>txOutFifo := f\<rparr>"] assms False by (simp add: tx_take_def rd tx_ok_def tx_memory_def)
  qed
qed

lemma tx_call:
  assumes "tx_ok dims s" and "dims_ok dims" and "tx_api_ok dims api" and "contents (txOutFifo s) = []" and "inp \<noteq> []"
    and "(int (tx_groups dims api (tx_memory s) inp) + 1) * nTxOut dims < modemRate dims"
  obtains s' where "tx_execute fp dims api s inp = Some (fst (tx_spec fp dims api (tx_memory s) inp), s')" and "tx_ok dims s'"
    and "contents (txOutFifo s') = []" and "tx_memory s' = snd (tx_spec fp dims api (tx_memory s) inp)"
proof -
  obtain s1 where s1: "txLoop fp dims api s inp 0 = Some (s1, int (length (contents (txOutFifo s1))))" "tx_ok dims s1"
      "contents (txOutFifo s1) = fst (tx_spec fp dims api (tx_memory s) inp)"
      "tx_memory s1 = snd (tx_spec fp dims api (tx_memory s) inp)"
    using txLoop_eq [OF assms(1-3), of inp fp] assms(4,6) by auto
  obtain s' where "tx_take s1 (int (length (contents (txOutFifo s1)))) = (contents (txOutFifo s1), s')" "tx_ok dims s'"
      "contents (txOutFifo s') = []" "tx_memory s' = tx_memory s1"
    using tx_take_all [OF s1(2)] .
  then show thesis using that [of s'] s1 assms(5) by (simp add: tx_execute_def)
qed

text \<open>Every call is small enough for the output buffer: at most \<open>L\<close> samples.\<close>

definition tx_call_fits :: "rade_dims \<Rightarrow> nat \<Rightarrow> bool" where
  "tx_call_fits dims L \<longleftrightarrow>
     (int ((nat (nFeatures dims) + (L div nat (frameSize dims) + 1) * nat (nbFeatures dims)) div nat (nFeatures dims)) + 1) *
       nTxOut dims < modemRate dims"

lemma tx_groups_bound:
  assumes "dims_ok dims" and "\<forall>enc b. int (length (fst (lpcnet_features api enc b))) = nbFeatures dims" and "tx_ok dims s"
    and "length inp \<le> L"
  shows "tx_groups dims api (tx_memory s) inp \<le>
    (nat (nFeatures dims) + (L div nat (frameSize dims) + 1) * nat (nbFeatures dims)) div nat (nFeatures dims)"
proof -
  let ?F = "nat (frameSize dims)" and ?N = "nat (nFeatures dims)"
  let ?p = "contents (txInFifo s)" and ?q = "take (nat (featureListIdx s)) (featureList s)"
  have pos: "0 < ?F" "0 < ?N" using assms(1) by (auto simp: dims_ok_def)
  have len: "length (fst (lpcnet_features api enc b)) = nat (nbFeatures dims)" for enc b using assms(2) by (metis nat_int)
  have "length ?p < ?F" "length ?q \<le> ?N" using assms(3) by (auto simp: tx_ok_def)
  then have "length (?p @ inp) div ?F \<le> (L + ?F) div ?F" using assms(4) by (intro div_le_mono) simp
  also have "\<dots> = L div ?F + 1" using pos by simp
  finally have "length (?q @ fst (flow (lpcnet_features api) (txEnc s) (frames ?F (?p @ inp)))) \<le> ?N + (L div ?F + 1) * nat (nbFeatures dims)"
    using \<open>length ?q \<le> ?N\<close> pos by (simp add: flow_length [where n = "nat (nbFeatures dims)"] len length_frames add_mono mult_le_mono1 del: mult_Suc)
  from div_le_mono [OF this, of ?N] show ?thesis using pos(2) unfolding tx_groups_def tx_memory_def by (simp only: length_frames prod.case)
qed

lemma tx_calls:
  assumes "dims_ok dims" and "tx_api_ok dims api" and "\<forall>enc b. int (length (fst (lpcnet_features api enc b))) = nbFeatures dims"
    and "tx_call_fits dims L" and "list_all (\<lambda>x. x \<noteq> [] \<and> length x \<le> L) inputs"
    and "tx_ok dims s" and "contents (txOutFifo s) = []"
  shows "\<exists>s'. runCalls (tx_execute fp dims api) s inputs = Some (fst (tx_spec fp dims api (tx_memory s) (concat inputs)), s') \<and>
    tx_ok dims s' \<and> contents (txOutFifo s') = [] \<and> tx_memory s' = snd (tx_spec fp dims api (tx_memory s) (concat inputs))"
  using assms(5-7)
proof (induction inputs arbitrary: s)
  case Nil
  then have "tx_spec fp dims api (tx_memory s) [] = ([], tx_memory s)"
    using tx_spec_short [OF assms(1), of "contents (txInFifo s)" "[]" "take (nat (featureListIdx s)) (featureList s)"]
    by (auto simp: tx_memory_def tx_ok_def)
  then show ?case using Nil by simp
next
  case (Cons x xs)
  have x: "x \<noteq> []" "length x \<le> L" using Cons.prems(1) by auto
  have t: "0 \<le> nTxOut dims" using assms(1) by (simp add: dims_ok_def)
  have "(int (tx_groups dims api (tx_memory s) x) + 1) * nTxOut dims < modemRate dims"
    using tx_groups_bound [OF assms(1,3) Cons.prems(2) x(2)] t assms(4) unfolding tx_call_fits_def
    by (meson add_right_mono le_less_trans mult_right_mono of_nat_mono)
  from tx_call [OF Cons.prems(2) assms(1,2) Cons.prems(3) x(1) this, where fp = fp] obtain s1 where
    s1: "tx_execute fp dims api s x = Some (fst (tx_spec fp dims api (tx_memory s) x), s1)" "tx_ok dims s1"
      "contents (txOutFifo s1) = []" "tx_memory s1 = snd (tx_spec fp dims api (tx_memory s) x)" .
  have "list_all (\<lambda>x. x \<noteq> [] \<and> length x \<le> L) xs" using Cons.prems(1) by simp
  from Cons.IH [OF this s1(2,3)] s1 show ?case
    by (auto simp: tx_spec_append [OF assms(1)] Let_def case_prod_unfold)
qed

lemma tx_new_ok:
  assumes "dims_ok dims"
  shows "tx_ok dims (tx_new fp dims dv enc ut)" "contents (txOutFifo (tx_new fp dims dv enc ut)) = []"
    "tx_memory (tx_new fp dims dv enc ut) = (dv, enc, [], [])"
proof -
  have out: "fifo_inv (preAllocated_new n (replicate (nat n) x))" "contents (preAllocated_new n (replicate (nat n) x)) = []"
    "capacity (preAllocated_new n (replicate (nat n) x)) = n - 1" if "0 < n" "n < 2 ^ 31" for n and x :: short
    using fifo_new_inv [where len = n and inBuf = "Some (replicate (nat n) x)" and fresh = "\<lambda>_. []"] that
    by (simp_all add: preAllocated_new_def capacity_def fifo_new_def)
  show "tx_ok dims (tx_new fp dims dv enc ut)" "contents (txOutFifo (tx_new fp dims dv enc ut)) = []"
    "tx_memory (tx_new fp dims dv enc ut) = (dv, enc, [], [])"
    using assms fresh_fifo [of "frameSize dims + 1" "0 :: short"] out [of "modemRate dims"]
    by (simp_all add: dims_ok_def tx_ok_def tx_new_def tx_memory_def)
qed

text \<open>Queueing the end-of-over block, when there is room.\<close>

lemma restartVocoder_ok:
  assumes "tx_ok dims s" and "dims_ok dims" and "nTxEooOut dims \<le> int (length (fst (rade_tx_eoo api (txDv s))))"
    and "int (length (contents (txOutFifo s))) + eooLengthInSamples dims < modemRate dims"
  obtains s' where "restartVocoder fp dims api s = (True, s')" and "tx_ok dims s'"
    and "contents (txOutFifo s') = contents (txOutFifo s) @ eooShort fp dims (fst (rade_tx_eoo api (txDv s)))"
    and "int (length (eooShort fp dims (fst (rade_tx_eoo api (txDv s))))) = eooLengthInSamples dims"
proof -
  obtain iq dv where iq: "rade_tx_eoo api (txDv s) = (iq, dv)" by fastforce
  let ?eoo = "eooShort fp dims iq"
  have len: "int (length ?eoo) = eooLengthInSamples dims"
    using assms(2,3) iq by (simp add: eooShort_def eooLengthInSamples_def numSamplesSilence_def dims_ok_def)
  have inv: "fifo_inv (txOutFifo s)" "capacity (txOutFifo s) = modemRate dims - 1" using assms(1) by (auto simp: tx_ok_def)
  have "int (length ?eoo) \<le> numFree (txOutFifo s)"
    using assms(4) fq.free_used [OF inv(1)] fq.used_items [OF inv(1)] inv(2) len by simp
  from fq.write_fits [OF inv(1) _ this, of ?eoo] obtain f where
    f: "fifo_write (txOutFifo s) ?eoo (eooLengthInSamples dims) = (0, f)" "fifo_inv f" "contents f = contents (txOutFifo s) @ ?eoo"
      "capacity f = modemRate dims - 1"
    using len inv(2) fq.cap_write [of "txOutFifo s" ?eoo "eooLengthInSamples dims"]
    by (cases "fifo_write (txOutFifo s) ?eoo (eooLengthInSamples dims)") auto
  have r: "restartVocoder fp dims api s = (True, s\<lparr>txDv := dv, txOutFifo := f\<rparr>)"
    using f(1) by (simp add: restartVocoder_def iq)
  show thesis by (rule that [OF r]) (use assms(1) f len iq in \<open>simp_all add: tx_ok_def\<close>)
qed

lemma tx_execute_empty:
  assumes "tx_ok dims s"
  obtains s' where "tx_execute fp dims api s [] = Some (contents (txOutFifo s), s')" and "tx_ok dims s'"
    and "contents (txOutFifo s') = []" and "tx_memory s' = tx_memory s"
proof -
  have "numUsed (txOutFifo s) = int (length (contents (txOutFifo s)))" using assms fq.used_items by (auto simp: tx_ok_def)
  then show thesis using tx_take_all [OF assms] that by (metis tx_execute_def)
qed

text \<open>The file thread writes everything that is queued, in order, and ends.\<close>

lemma utDrain_all:
  assumes "fifo_inv f"
  shows "\<exists>f'. utDrain f file = Some (file @ contents f, f') \<and> fifo_inv f' \<and> contents f' = []"
proof -
  have used: "numUsed f = int (length (contents f))" using fq.used_items [OF assms] .
  have m: "min (numUsed f) (capacity f) = numUsed f"
    using fq.free_used [OF assms] fq.free_nonneg [OF assms] by simp
  obtain r xs g where rd: "fifo_read f (numUsed f) = (r, xs, g)" by (rule prod_cases3)
  have g: "xs = contents f" "fifo_inv g" "contents g = []"
    using fq.read_available [OF assms, of "numUsed f"] used rd by simp_all
  have "numUsed g = 0" using fq.used_items [OF g(2)] g(3) by simp
  then have done_g: "utDrain g h = Some (h, g)" for h by (subst utDrain.simps) (simp add: Let_def)
  show ?thesis
  proof (cases "contents f = []")
    case True
    then show ?thesis using used assms by (subst utDrain.simps) (simp add: Let_def)
  next
    case False
    then show ?thesis using used m rd g done_g by (subst utDrain.simps) (simp add: Let_def)
  qed
qed

lemma tx_reset_ok:
  assumes "tx_ok dims s" and "dims_ok dims" and "generationOf (pin (txInFifo s)) \<noteq> - 1" and "generationOf (pin (txOutFifo s)) \<noteq> - 1"
  shows "tx_ok dims (tx_reset s)" "contents (txOutFifo (tx_reset s)) = []" "tx_memory (tx_reset s) = (txDv s, txEnc s, [], [])"
  using assms fq.reset_items [of "txInFifo s"] fq.reset_items [of "txOutFifo s"]
  by (simp_all add: tx_ok_def tx_reset_def dims_ok_def tx_memory_def)

subsection \<open>Properties\<close>

text \<open>
  A small instance for evaluation: frames of two samples, two features a frame, four features a modem
  block, three modem samples a block.
\<close>

definition demo_dims :: rade_dims where
  "demo_dims = \<lparr>modemRate = 40, speechRate = 20, frameSize = 2, nbFeatures = 2, nFeatures = 4, nTxOut = 3, nTxEooOut = 2,
     ninMax = 6, nEooBits = 4\<rparr>"

definition demo_tx :: "(int, int, int) tx_api" where
  "demo_tx = \<lparr>rade_tx = (\<lambda>dv g. ([(sum_list g, 0), (hd g, 1), (dv, 2)], dv + 1)), rade_tx_eoo = (\<lambda>dv. ([(7, 0), (dv, 0)], dv)),
     lpcnet_features = (\<lambda>enc pcm. ([sint (hd pcm), sint (last pcm) + enc], enc + 1))\<rparr>"

text \<open>
  C20: RADETransmitStep::execute called on a stream cut into non-empty calls of at most \<open>L\<close> samples (an
  \<open>L\<close> for which the blocks of a call fit the output buffer) always returns, and the joined outputs are
  the modulation of the features of the consecutive speech frames of the whole stream: no sample, frame or
  feature is lost, repeated or reordered, whatever the cuts. Nothing stays in the output queue.
\<close>

theorem tx_stream:
  assumes "dims_ok dims" and "tx_api_ok dims api" and "\<forall>enc b. int (length (fst (lpcnet_features api enc b))) = nbFeatures dims"
    and "tx_call_fits dims L" and "list_all (\<lambda>x. x \<noteq> [] \<and> length x \<le> L) inputs"
  shows "\<exists>s'. runCalls (tx_execute fp dims api) (tx_new fp dims dv enc ut) inputs =
      Some (fst (flow (modulate fp api) dv (frames (nat (nFeatures dims))
        (fst (flow (lpcnet_features api) enc (frames (nat (frameSize dims)) (concat inputs)))))), s') \<and>
    contents (txOutFifo s') = []"
proof -
  have "fst (tx_spec fp dims api (dv, enc, [], []) xs) = fst (flow (modulate fp api) dv (frames (nat (nFeatures dims))
      (fst (flow (lpcnet_features api) enc (frames (nat (frameSize dims)) xs)))))" for xs
    by (simp add: tx_spec_def case_prod_unfold Let_def)
  then show ?thesis
    using tx_calls [OF assms tx_new_ok(1,2) [OF assms(1)], of fp fp dv enc ut]
    unfolding tx_new_ok(3) [OF assms(1)] by auto
qed

theorem tx_stream_witness:
  "\<exists>s'. runCalls (tx_execute int_fpu demo_dims demo_tx) (tx_new int_fpu demo_dims 5 0 True) [[1, 2, 3], [4], [5]] =
      Some ([word_of_int (11 * 16383), 16383, word_of_int (5 * 16383)], s') \<and> contents (txOutFifo s') = []"
proof -
  have eval: "fst (flow (modulate int_fpu demo_tx) 5 (frames (nat (nFeatures demo_dims))
      (fst (flow (lpcnet_features demo_tx) 0 (frames (nat (frameSize demo_dims)) (concat [[1, 2, 3], [4], [5]])))))) =
    [word_of_int (11 * 16383), 16383, word_of_int (5 * 16383)]"
    by code_simp
  show ?thesis
    using tx_stream [of demo_dims demo_tx 3 "[[1, 2, 3], [4], [5]]" int_fpu 5 0 True] unfolding eval
    by (simp add: dims_ok_def tx_api_ok_def tx_call_fits_def demo_dims_def demo_tx_def)
qed

text \<open>
  C21: After restartVocoder, the next call of execute with no input returns what was queued, followed by the
  end-of-over samples and 200 ms of silence, exactly eooLengthInSamples samples when nothing was queued;
  the call after that returns nothing, which is how MinimalTxRxThread learns that the over has ended.
\<close>

theorem tx_eoo:
  assumes "dims_ok dims" and "tx_ok dims s" and "nTxEooOut dims \<le> int (length (fst (rade_tx_eoo api (txDv s))))"
    and "int (length (contents (txOutFifo s))) + eooLengthInSamples dims < modemRate dims"
  shows "\<exists>s1 s2. tx_execute fp dims api (snd (restartVocoder fp dims api s)) [] =
      Some (contents (txOutFifo s) @ eooShort fp dims (fst (rade_tx_eoo api (txDv s))), s1) \<and>
    int (length (eooShort fp dims (fst (rade_tx_eoo api (txDv s))))) = eooLengthInSamples dims \<and>
    tx_execute fp dims api s1 [] = Some ([], s2)"
proof -
  obtain s' where r: "restartVocoder fp dims api s = (True, s')" "tx_ok dims s'"
    and c: "contents (txOutFifo s') = contents (txOutFifo s) @ eooShort fp dims (fst (rade_tx_eoo api (txDv s)))"
      "int (length (eooShort fp dims (fst (rade_tx_eoo api (txDv s))))) = eooLengthInSamples dims"
    using restartVocoder_ok [OF assms(2,1,3,4)] .
  obtain s1 where s1: "tx_execute fp dims api s' [] = Some (contents (txOutFifo s'), s1)" "tx_ok dims s1" "contents (txOutFifo s1) = []"
    using tx_execute_empty [OF r(2)] by metis
  obtain s2 where "tx_execute fp dims api s1 [] = Some ([], s2)" using tx_execute_empty [OF s1(2)] s1(3) by metis
  then show ?thesis using r s1 c by auto
qed

theorem tx_eoo_witness:
  "\<exists>s1 s2. tx_execute int_fpu demo_dims demo_tx (snd (restartVocoder int_fpu demo_dims demo_tx (tx_new int_fpu demo_dims 5 0 True))) [] =
      Some ([word_of_int (7 * 16383), word_of_int (5 * 16383), 0, 0, 0, 0, 0, 0, 0, 0], s1) \<and>
    tx_execute int_fpu demo_dims demo_tx s1 [] = Some ([], s2)"
proof -
  have ok: "dims_ok demo_dims" by (simp add: dims_ok_def demo_dims_def)
  have eval: "eooShort int_fpu demo_dims (fst (rade_tx_eoo demo_tx 5)) =
      [word_of_int (7 * 16383), word_of_int (5 * 16383), 0, 0, 0, 0, 0, 0, 0, 0]"
    by code_simp
  have len: "nTxEooOut demo_dims \<le> int (length (fst (rade_tx_eoo demo_tx 5)))" "eooLengthInSamples demo_dims < modemRate demo_dims"
    by (simp_all add: demo_dims_def demo_tx_def eooLengthInSamples_def numSamplesSilence_def)
  have dv: "txDv (tx_new int_fpu demo_dims 5 0 True) = 5" by (simp add: tx_new_def)
  show ?thesis
    using tx_eoo [OF ok tx_new_ok(1) [OF ok], of demo_tx int_fpu 5 0 True int_fpu]
    unfolding dv eval tx_new_ok(2) [OF ok] using len by auto
qed

end
