(* ===== verification/Rade_Codec.thy ===== *)
theory Rade_Codec
  imports FDV_Prelude
begin

text \<open>
  The static helpers of \<^verbatim>\<open>src/src/pipeline/rade_text.cpp\<close>: the 6-bit character set, the CRC, the
  interleaver and the packing of a text into 56 message bits. A \<^verbatim>\<open>char\<close> is its byte: every test of the
  source is against a range below 128, so the signedness of \<^verbatim>\<open>char\<close> does not matter. A buffer that the
  code fills through a pointer is the list of the bytes written, terminator included.
\<close>

subsection \<open>The 6-bit character set\<close>

text \<open>\<open>toupper\<close> is only called on a lower case letter.\<close>

definition toupper :: "u8 \<Rightarrow> u8" where
  "toupper c = (if 97 \<le> c \<and> c \<le> 122 then c - 32 else c)"

definition otaChar :: "u8 \<Rightarrow> u8 list" where
  "otaChar c =
     (if 38 \<le> c \<and> c \<le> 46 then [c - 37]
      else if c = 47 then [46]
      else if 48 \<le> c \<and> c \<le> 57 then [c - 48 + 10]
      else if 65 \<le> c \<and> c \<le> 90 then [c - 65 + 20]
      else if 97 \<le> c \<and> c \<le> 122 then [toupper c - 65 + 20]
      else [])"

definition callsignChar :: "u8 \<Rightarrow> u8 list" where
  "callsignChar c =
     (if 1 \<le> c \<and> c \<le> 9 then [c + 37]
      else if 10 \<le> c \<and> c \<le> 19 then [c - 10 + 48]
      else if 20 \<le> c \<and> c \<le> 45 then [c - 20 + 65]
      else if c = 46 then [47]
      else [])"

text \<open>The loop both conversions share: at most \<open>n\<close> input characters, stopping at a null.\<close>

fun convertLoop :: "(u8 \<Rightarrow> u8 list) \<Rightarrow> u8 list \<Rightarrow> nat \<Rightarrow> u8 list" where
  "convertLoop f input 0 = []"
| "convertLoop f [] (Suc n) = []"
| "convertLoop f (c # input) (Suc n) = (if c = 0 then [] else f c @ convertLoop f input n)"

definition convert_callsign_to_ota_string :: "u8 list \<Rightarrow> nat \<Rightarrow> u8 list" where
  "convert_callsign_to_ota_string input maxLength = convertLoop otaChar input maxLength @ [0]"

definition convert_ota_string_to_callsign :: "u8 list \<Rightarrow> nat \<Rightarrow> u8 list" where
  "convert_ota_string_to_callsign input maxLength = convertLoop callsignChar input maxLength @ [0]"

subsection \<open>The CRC\<close>

definition crcShift :: "u8 \<Rightarrow> u8" where
  "crcShift crc = (if crc AND 128 \<noteq> 0 then push_bit 1 crc XOR 29 else push_bit 1 crc)"

definition crcByte :: "u8 \<Rightarrow> u8 \<Rightarrow> u8" where
  "crcByte crc ch = (crcShift ^^ 8) (crc XOR ch)"

fun crcLoop :: "u8 \<Rightarrow> u8 list \<Rightarrow> nat \<Rightarrow> u8" where
  "crcLoop crc input 0 = crc"
| "crcLoop crc [] (Suc n) = crc"
| "crcLoop crc (ch # input) (Suc n) = (if ch = 0 then crc else crcLoop (crcByte crc ch) input n)"

definition calculateCRC8 :: "u8 list \<Rightarrow> nat \<Rightarrow> u8" where
  "calculateCRC8 input len = crcLoop 0 input len"

subsection \<open>The interleaver\<close>

definition newIndex :: "nat \<Rightarrow> nat \<Rightarrow> nat" where
  "newIndex index syms = (37 * index) mod syms"

definition deinterleave_comp :: "'c list \<Rightarrow> 'c list \<Rightarrow> nat \<Rightarrow> 'c list" where
  "deinterleave_comp out inp syms =
     foldl (\<lambda>out index. out[index := inp ! newIndex index syms]) out [0..<syms]"

definition interleave_bits :: "'b list \<Rightarrow> 'b list \<Rightarrow> nat \<Rightarrow> 'b list" where
  "interleave_bits out inp syms =
     foldl (\<lambda>out index. (out[2 * newIndex index syms := inp ! (2 * index)])
                           [2 * newIndex index syms + 1 := inp ! (2 * index + 1)]) out [0..<syms]"

text \<open>A float array read through a \<^verbatim>\<open>RADE_COMP*\<close>: its consecutive pairs.\<close>

definition pairs :: "'a list \<Rightarrow> nat \<Rightarrow> ('a \<times> 'a) list" where
  "pairs xs n = map (\<lambda>i. (xs ! (2 * i), xs ! (2 * i + 1))) [0..<n]"

subsection \<open>Packing\<close>

definition testBit :: "u8 \<Rightarrow> nat \<Rightarrow> bool" where
  "testBit w n \<longleftrightarrow> w AND push_bit n 1 \<noteq> 0"

text \<open>The message bits of the ten-byte buffer \<open>tmp\<close>: eight bits of CRC, then six of each character.\<close>

definition packBits :: "u8 list \<Rightarrow> nat list" where
  "packBits tmp =
     foldl (\<lambda>ib index. if testBit (tmp ! (1 + (index - 8) div 6)) ((index - 8) mod 6) then ib[index := 1] else ib)
       (foldl (\<lambda>ib index. if testBit (tmp ! 0) index then ib[index := 1] else ib[index := 0]) (replicate 56 0) [0..<8])
       [8..<56]"

definition unpackBits :: "nat list \<Rightarrow> u8 list \<Rightarrow> u8 list" where
  "unpackBits message dest =
     foldl (\<lambda>d index. if message ! index \<noteq> 0
               then d[1 + (index - 8) div 6 := d ! (1 + (index - 8) div 6) OR push_bit ((index - 8) mod 6) 1] else d)
       (foldl (\<lambda>d index. if message ! index \<noteq> 0 then d[0 := d ! 0 OR push_bit index 1] else d)
          (splice_at 0 (replicate 8 0) dest) [0..<8])
       [8..<56]"

subsection \<open>Character conversion\<close>

text \<open>What a conversion round trip keeps of a character: upper case, and nothing outside the set.\<close>

definition canonChar :: "u8 \<Rightarrow> u8 list" where
  "canonChar c =
     (if 38 \<le> c \<and> c \<le> 57 \<or> 65 \<le> c \<and> c \<le> 90 then [c] else if 97 \<le> c \<and> c \<le> 122 then [c - 32] else [])"

definition canonical :: "u8 list \<Rightarrow> nat \<Rightarrow> u8 list" where
  "canonical str n = concat (map canonChar (takeWhile (\<lambda>c. c \<noteq> 0) (take n str)))"

lemma convertLoop_eq: "convertLoop f input n = concat (map f (takeWhile (\<lambda>c. c \<noteq> 0) (take n input)))"
  by (induction f input n rule: convertLoop.induct) auto

text \<open>Comparisons and differences of bytes as facts about naturals.\<close>

lemmas u8_arith = word_le_nat_alt word_less_nat_alt unat_sub_if' unat_plus_if'

lemma otaChar_range: "list_all (\<lambda>d. 1 \<le> d \<and> d \<le> 46) (otaChar c) \<and> length (otaChar c) \<le> 1"
  by (auto simp: otaChar_def toupper_def u8_arith)

lemma otaChar_callsign: "concat (map callsignChar (otaChar c)) = canonChar c"
proof -
  consider "38 \<le> unat c \<and> unat c \<le> 46" | "unat c = 47" | "48 \<le> unat c \<and> unat c \<le> 57" | "65 \<le> unat c \<and> unat c \<le> 90"
    | "97 \<le> unat c \<and> unat c \<le> 122"
    | "unat c < 38 \<or> 58 \<le> unat c \<and> unat c < 65 \<or> 91 \<le> unat c \<and> unat c < 97 \<or> 123 \<le> unat c" by linarith
  then show ?thesis
  proof cases
    case 6
    then show ?thesis by (auto simp: otaChar_def canonChar_def word_le_nat_alt word_eq_iff_unsigned)
  next case 1 then show ?thesis by (auto simp: otaChar_def callsignChar_def canonChar_def u8_arith word_unat_eq_iff)
  next case 2 then show ?thesis by (auto simp: otaChar_def callsignChar_def canonChar_def u8_arith word_unat_eq_iff)
  next case 3 then show ?thesis by (auto simp: otaChar_def callsignChar_def canonChar_def u8_arith word_unat_eq_iff)
  next case 4 then show ?thesis by (auto simp: otaChar_def callsignChar_def canonChar_def u8_arith word_unat_eq_iff)
  next case 5 then show ?thesis by (auto simp: otaChar_def callsignChar_def canonChar_def toupper_def u8_arith word_unat_eq_iff)
  qed 
qed

lemma callsignChar_canon: "list_all (\<lambda>d. canonChar d = [d]) (callsignChar c) \<and> length (callsignChar c) \<le> 1"
  by (auto simp: callsignChar_def canonChar_def u8_arith)

lemma concat_map_concat: "concat (map f (concat (map g xs))) = concat (map (\<lambda>x. concat (map f (g x))) xs)"
  by (induction xs) auto

lemma takeWhile_terminated:
  "0 \<notin> set s \<Longrightarrow> length s \<le> n \<Longrightarrow> takeWhile (\<lambda>c. c \<noteq> 0) (take n (s @ 0 # rest)) = (s :: u8 list)"
  by (cases "n - length s") (auto simp: takeWhile_eq_all_conv takeWhile_append takeWhile_tail dest: in_set_takeD)

lemma convertLoop_bound:
  assumes "\<And>c. length (f c) \<le> 1"
  shows "length (convertLoop f input n) \<le> n"
proof (induction input arbitrary: n)
  case (Cons c input)
  show ?case
  proof (cases n)
    case (Suc m)
    then show ?thesis using Cons [of m] assms [of c] by auto
  qed simp
qed (case_tac n, auto)

text \<open>The characters of a transmitted text: at most \<open>n\<close>, none of them null, each of six bits.\<close>

lemma ota_text:
  fixes str :: "u8 list" and n :: nat
  defines "s \<equiv> convertLoop otaChar str n"
  shows "length s \<le> n" and "c \<in> set s \<Longrightarrow> 1 \<le> c \<and> c \<le> 46" and "0 \<notin> set s"
    and "concat (map callsignChar s) = canonical str n"
proof -
  show "length s \<le> n" using otaChar_range unfolding s_def by (intro convertLoop_bound) blast
  show r: "1 \<le> c \<and> c \<le> 46" if "c \<in> set s" for c
    using that otaChar_range by (fastforce simp: s_def convertLoop_eq list_all_iff)
  show "0 \<notin> set s" using r [of 0] by auto
  show "concat (map callsignChar s) = canonical str n"
    unfolding s_def convertLoop_eq canonical_def by (simp add: concat_map_concat otaChar_callsign)
qed

subsection \<open>The CRC step is a bijection\<close>

lemma bit_crcShift:
  "bit (crcShift x) n \<longleftrightarrow> n < 8 \<and> ((n \<noteq> 0 \<and> bit x (n - 1)) \<noteq> (bit x 7 \<and> bit (29 :: u8) n))"
proof -
  have "(x AND 128 \<noteq> 0) = bit x 7"
  proof -
    have "(128 :: u8) = push_bit 7 1" by simp
    then show ?thesis by (simp add: bit_iff_and_push_bit_not_eq_0)
  qed
  moreover have "bit (push_bit 1 x) n \<longleftrightarrow> n < 8 \<and> n \<noteq> 0 \<and> bit x (n - 1)"
    by (auto simp only: bit_push_bit_iff) (auto dest: bit_imp_le_length)
  moreover have "bit (29 :: u8) n \<Longrightarrow> n < 8" using bit_imp_le_length [of "29 :: u8" n] by simp
  ultimately show ?thesis by (auto simp: crcShift_def bit_xor_iff)
qed

lemma inj_crcShift: "inj crcShift"
proof (rule injI)
  fix x y :: u8 assume eq: "crcShift x = crcShift y"
  have "bit x 7 = bit y 7"
    using arg_cong [OF eq, of "\<lambda>w. bit w 0"] by (simp add: bit_crcShift)
  moreover have "bit x n = bit y n" if "n < 7" for n
    using arg_cong [OF eq, of "\<lambda>w. bit w (Suc n)"] that calculation by (simp add: bit_crcShift) metis
  ultimately have "bit x n = bit y n" if "n < 8" for n using that by (cases "n = 7") auto
  then show "x = y" using bit_imp_le_length [of x] bit_imp_le_length [of y] by (auto simp: bit_eq_iff)
qed

lemma xor_cancel: "a XOR c = b XOR c \<longleftrightarrow> a = (b :: u8)" "c XOR a = c XOR b \<longleftrightarrow> a = (b :: u8)"
  by (auto simp: bit_eq_iff bit_xor_iff)

lemma crcByte_inj: "crcByte c a = crcByte d b \<longleftrightarrow> c XOR a = d XOR b"
proof -
  have "inj (crcShift ^^ 8)" by (rule inj_fn [OF inj_crcShift])
  then show ?thesis by (auto simp: crcByte_def inj_def)
qed

lemma crcLoop_append:
  "0 \<notin> set pre \<Longrightarrow> length pre \<le> n \<Longrightarrow> crcLoop crc (pre @ rest) n = crcLoop (foldl crcByte crc pre) rest (n - length pre)"
proof (induction pre arbitrary: crc n)
  case (Cons c pre)
  then show ?case by (cases n) auto
qed simp

lemma crcLoop_inj:
  assumes "crcLoop crc input n = crcLoop crc' input n"
  shows "crc = crc'"
  using assms
proof (induction input arbitrary: crc crc' n)
  case (Cons c input)
  show ?case
  proof (cases n)
    case (Suc m)
    then have "c = 0 \<and> crc = crc' \<or> crcByte crc c = crcByte crc' c" using Cons.IH Cons.prems by (auto split: if_splits)
    then show ?thesis by (auto simp: crcByte_inj xor_cancel)
  qed (use Cons in simp)
qed (case_tac n, auto)

subsection \<open>The interleaver is a permutation\<close>

lemma newIndex_inj: "i < 56 \<Longrightarrow> j < 56 \<Longrightarrow> newIndex i 56 = newIndex j 56 \<longleftrightarrow> i = j"
proof -
  have "distinct (map (\<lambda>i. newIndex i 56) [0..<56])" by code_simp
  then show "i < 56 \<Longrightarrow> j < 56 \<Longrightarrow> ?thesis" by (auto simp: distinct_map inj_on_def)
qed
lemma newIndex_less [simp]: "newIndex i 56 < 56"
  by (simp add: newIndex_def)

lemma length_interleave_bits [simp]: "length (interleave_bits out inp n) = length out"
proof -
  have "length (foldl (\<lambda>out index. (out[2 * newIndex index n := inp ! (2 * index)])
      [2 * newIndex index n + 1 := inp ! (2 * index + 1)]) out is) = length out" for "is"
    by (induction "is" arbitrary: out) auto
  then show ?thesis by (simp add: interleave_bits_def)
qed

lemma nth_interleave_bits:
  assumes "length out = 112" and "i < 56"
  shows "interleave_bits out inp 56 ! (2 * newIndex i 56) = inp ! (2 * i)"
    and "interleave_bits out inp 56 ! (2 * newIndex i 56 + 1) = inp ! (2 * i + 1)"
proof -
  let ?step = "\<lambda>out index. (out[2 * newIndex index 56 := inp ! (2 * index)])
      [2 * newIndex index 56 + 1 := inp ! (2 * index + 1)]"
  have "n \<le> 56 \<Longrightarrow> length (foldl ?step out [0..<n]) = 112 \<and>
    (\<forall>i < n. foldl ?step out [0..<n] ! (2 * newIndex i 56) = inp ! (2 * i) \<and>
             foldl ?step out [0..<n] ! (2 * newIndex i 56 + 1) = inp ! (2 * i + 1))" for n
  proof (induction n)
    case (Suc n)
    define g where "g = foldl ?step out [0..<n]"
    have g: "length g = 112" "\<forall>i < n. g ! (2 * newIndex i 56) = inp ! (2 * i) \<and> g ! (2 * newIndex i 56 + 1) = inp ! (2 * i + 1)"
      using Suc by (auto simp: g_def)
    have idx: "2 * newIndex i 56 < 112" "2 * newIndex i 56 + 1 < 112" for i
      using newIndex_less [of i] by linarith+
    have fresh: "i < n \<Longrightarrow> newIndex i 56 \<noteq> newIndex n 56" for i using Suc.prems newIndex_inj [of i n] by auto
    have "?step g n ! (2 * newIndex i 56) = inp ! (2 * i) \<and> ?step g n ! (2 * newIndex i 56 + 1) = inp ! (2 * i + 1)"
      if "i < Suc n" for i
    proof (cases "i = n")
      case True
      then show ?thesis using g(1) idx [of n] by simp
    next
      case False
      then have "i < n" using that by simp
      have ne: "2 * a \<noteq> Suc (2 * b)" "Suc (2 * b) \<noteq> 2 * a" for a b :: nat by presburger+
      show ?thesis using g(2) fresh [OF \<open>i < n\<close>] \<open>i < n\<close> ne [symmetric] by (simp add: ne)
    qed
    then show ?case using g(1) by (simp add: g_def)
  qed (use assms in simp)
  from this [of 56] show "interleave_bits out inp 56 ! (2 * newIndex i 56) = inp ! (2 * i)"
    and "interleave_bits out inp 56 ! (2 * newIndex i 56 + 1) = inp ! (2 * i + 1)"
    using assms(2) by (auto simp: interleave_bits_def)
qed

lemma deinterleave_interleave:
  assumes "length out = 112" and "length out' = 56"
  shows "deinterleave_comp out' (pairs (interleave_bits out inp 56) 56) 56 = pairs inp 56"
  using nth_interleave_bits [OF assms(1)]
  by (simp add: deinterleave_comp_def foldl_overwrite [OF assms(2)] pairs_def del: upt_rec_numeral)

subsection \<open>Packing is invertible\<close>

lemma testBit_iff: "n < 8 \<Longrightarrow> testBit w n \<longleftrightarrow> bit w n"
  by (simp add: testBit_def bit_iff_and_push_bit_not_eq_0)

lemma foldl_set_bits:
  assumes "b \<le> length xs"
  shows "length (foldl (\<lambda>ib i. if P i then ib[i := 1] else ib) xs [a..<b]) = length xs \<and>
    (\<forall>i < length xs. foldl (\<lambda>ib i. if P i then ib[i := 1 :: nat] else ib) xs [a..<b] ! i =
      (if a \<le> i \<and> i < b \<and> P i then 1 else xs ! i))"
  using assms
proof (induction b)
  case (Suc b)
  then show ?case by (cases "a \<le> b") (auto simp: nth_list_update less_Suc_eq_le)
qed simp

lemma packBits_eq:
  "packBits tmp = map (\<lambda>i. of_bool (if i < 8 then bit (tmp ! 0) i else bit (tmp ! (1 + (i - 8) div 6)) ((i - 8) mod 6))) [0..<56]"
proof -
  let ?P = "\<lambda>index. testBit (tmp ! (1 + (index - 8) div 6)) ((index - 8) mod 6)"
  define c :: "nat list" where
    "c = foldl (\<lambda>ib index. if testBit (tmp ! 0) index then ib[index := 1] else ib[index := 0]) (replicate 56 0) [0..<8]"
  have c: "c = map (\<lambda>i. of_bool (bit (tmp ! 0) i)) [0..<8] @ replicate 48 0"
    by (simp add: c_def upt_conv_Cons testBit_iff numeral_eq_Suc)
  then have "length c = 56" by simp
  then have F: "length (packBits tmp) = 56 \<and> (\<forall>i < 56. packBits tmp ! i = (if 8 \<le> i \<and> i < 56 \<and> ?P i then 1 else c ! i))"
    using foldl_set_bits [of 56 c ?P 8] by (simp add: packBits_def c_def del: upt_rec_numeral)
  have P: "?P i = bit (tmp ! (1 + (i - 8) div 6)) ((i - 8) mod 6)" for i
    using mod_less_divisor [of 6 "i - 8"] by (intro testBit_iff) linarith
  show ?thesis
    using F by (intro nth_equalityI) (auto simp: c P [simplified] nth_append)
qed

lemma foldl_or_bits:
  assumes "\<forall>i \<in> {a..<b}. pos i < length d"
  shows "length (foldl (\<lambda>d i. if m i then d[pos i := d ! pos i OR push_bit (off i) 1] else d) d [a..<b]) = length d \<and>
    (\<forall>q < length d. \<forall>k. bit (foldl (\<lambda>d i. if m i then d[pos i := d ! pos i OR push_bit (off i) (1 :: u8)] else d) d [a..<b] ! q) k \<longleftrightarrow>
      bit (d ! q) k \<or> k < 8 \<and> (\<exists>i \<in> {a..<b}. m i \<and> pos i = q \<and> off i = k))"
  using assms
proof (induction b)
  case (Suc b)
  then show ?case
    by (cases "a \<le> b") (auto simp: nth_list_update less_Suc_eq bit_or_iff bit_exp_iff)
qed simp

lemma bit_unpackBits:
  assumes "length dest = 10"
  shows "length (unpackBits message dest) = 10"
    and "bit (unpackBits message dest ! 0) k \<longleftrightarrow> k < 8 \<and> message ! k \<noteq> 0"
    and "q < 8 \<Longrightarrow> bit (unpackBits message dest ! (1 + q)) k \<longleftrightarrow>
      k < 6 \<and> message ! (8 + 6 * q + k) \<noteq> 0 \<or> q = 7 \<and> bit (dest ! 8) k"
    and "unpackBits message dest ! 9 = dest ! 9"
proof -
  define d0 where "d0 = splice_at 0 (replicate 8 0) dest"
  define d1 where "d1 = foldl (\<lambda>d index. if message ! index \<noteq> 0 then d[0 := d ! 0 OR push_bit index 1] else d) d0 [0..<8]"
  have d0: "length d0 = 10" "q < 10 \<Longrightarrow> d0 ! q = (if q < 8 then 0 else dest ! q)" for q
    using assms by (auto simp: d0_def nth_splice_at)
  have d1: "length d1 = 10" "q < 10 \<Longrightarrow> bit (d1 ! q) k \<longleftrightarrow> bit (d0 ! q) k \<or> k < 8 \<and> message ! k \<noteq> 0 \<and> q = 0" for q k
    using foldl_or_bits [of 0 8 "\<lambda>_. 0" d0 "\<lambda>i. message ! i \<noteq> 0" "\<lambda>i. i"] d0(1) by (auto simp: d1_def simp del: upt_rec_numeral)
  have "\<forall>i \<in> {8..<56}. 1 + (i - 8) div 6 < length d1" using d1(1) by auto
  note F = foldl_or_bits [OF this, of "\<lambda>i. message ! i \<noteq> 0" "\<lambda>i. (i - 8) mod 6"]
  have unp: "unpackBits message dest =
      foldl (\<lambda>d index. if message ! index \<noteq> 0
               then d[1 + (index - 8) div 6 := d ! (1 + (index - 8) div 6) OR push_bit ((index - 8) mod 6) 1] else d) d1 [8..<56]"
    by (simp only: unpackBits_def d1_def d0_def)
  have u: "length (unpackBits message dest) = 10" "q < 10 \<Longrightarrow> bit (unpackBits message dest ! q) k \<longleftrightarrow>
      bit (d1 ! q) k \<or> k < 8 \<and> (\<exists>i \<in> {8..<56}. message ! i \<noteq> 0 \<and> 1 + (i - 8) div 6 = q \<and> (i - 8) mod 6 = k)" for q k
    using F d1(1) unfolding unp by (simp_all del: upt_rec_numeral)
  show "length (unpackBits message dest) = 10" by (fact u)
  show "bit (unpackBits message dest ! 0) k \<longleftrightarrow> k < 8 \<and> message ! k \<noteq> 0"
    by (simp add: u(2) d1(2) d0(2))
  show "bit (unpackBits message dest ! (1 + q)) k \<longleftrightarrow>
      k < 6 \<and> message ! (8 + 6 * q + k) \<noteq> 0 \<or> q = 7 \<and> bit (dest ! 8) k" if "q < 8"
  proof -
    have "(\<exists>i \<in> {8..<56}. message ! i \<noteq> 0 \<and> 1 + (i - 8) div 6 = 1 + q \<and> (i - 8) mod 6 = k) \<longleftrightarrow>
        k < 6 \<and> message ! (8 + 6 * q + k) \<noteq> 0" (is "?L = ?R")
    proof
      assume ?L
      then obtain i where i: "8 \<le> i" "message ! i \<noteq> 0" "(i - 8) div 6 = q" "(i - 8) mod 6 = k" by auto
      then have "i = 8 + 6 * q + k" by (metis add.assoc le_add_diff_inverse mult_div_mod_eq)
      then show ?R using i by auto
    next
      assume ?R
      then show ?L using that by (intro bexI [of _ "8 + 6 * q + k"]) auto
    qed
    then have "bit (unpackBits message dest ! (1 + q)) k \<longleftrightarrow> bit (d1 ! (1 + q)) k \<or> k < 6 \<and> message ! (8 + 6 * q + k) \<noteq> 0"
      using that u(2) [of "1 + q" k] by auto
    moreover have "bit (d1 ! (1 + q)) k \<longleftrightarrow> q = 7 \<and> bit (dest ! 8) k"
      using that by (cases "q = 7") (simp_all add: d1(2) d0(2))
    ultimately show ?thesis by blast
  qed
  show "unpackBits message dest ! 9 = dest ! 9"
    by (rule bit_eqI) (auto simp: u(2) d1(2) d0(2))
qed

lemma unpack_pack:
  assumes "length tmp = 10" and "tmp ! 9 = 0" and "\<forall>q < 8. tmp ! (1 + q) < 64" and "take 56 message = packBits tmp"
  shows "unpackBits message (replicate 10 0) = tmp"
proof (rule nth_equalityI)
  note U = bit_unpackBits [where dest = "replicate 10 0" and message = message]
  show "length (unpackBits message (replicate 10 0)) = length tmp" using U(1) assms(1) by simp
  have m: "message ! i = of_bool (if i < 8 then bit (tmp ! 0) i else bit (tmp ! (1 + (i - 8) div 6)) ((i - 8) mod 6))"
    if "i < 56" for i
    using arg_cong [OF assms(4), of "\<lambda>l. l ! i"] that by (simp add: packBits_eq)
  fix q assume "q < length (unpackBits message (replicate 10 0))"
  then consider "q = 0" | q' where "q = 1 + q'" "q' < 8" | "q = 9"
    using U(1) by (cases q) (auto simp: less_Suc_eq numeral_eq_Suc)
  then show "unpackBits message (replicate 10 0) ! q = tmp ! q"
  proof cases
    case 1
    show ?thesis unfolding 1
      by (rule bit_eqI) (simp add: U(2) m)
  next
    case (2 q')
    have "bit (tmp ! (1 + q')) k \<Longrightarrow> k < 6" for k
    proof -
      have "tmp ! (1 + q') = take_bit 6 (tmp ! (1 + q'))"
        using assms(3) 2(2) by (simp add: take_bit_eq_mod word_mod_def word_less_def)
      then show "bit (tmp ! (1 + q')) k \<Longrightarrow> k < 6" by (metis bit_take_bit_iff)
    qed
    then have "bit (unpackBits message (replicate 10 0) ! (1 + q')) k = bit (tmp ! (1 + q')) k" for k
      using 2(2) by (cases "k < 6") (auto simp: U(3) [OF _ 2(2), simplified] m)
    then show ?thesis unfolding 2(1) by (simp add: bit_eq_iff)
  qed (simp add: U(4) assms(2))
qed

subsection \<open>Properties\<close>

text \<open>
  Converting a callsign to the over-the-air character set and back keeps exactly its canonical form:
  the first \<open>n\<close> characters up to a null, lower case letters in upper case, every character outside the set
  dropped. Both conversions write at most \<open>n + 1\<close> bytes.
\<close>

theorem charset_round_trip:
  "convert_ota_string_to_callsign (convert_callsign_to_ota_string str n) n = canonical str n @ [0] \<and>
   length (convert_callsign_to_ota_string str n) \<le> n + 1 \<and> length (canonical str n) \<le> n"
proof -
  have "length (convertLoop callsignChar (convert_callsign_to_ota_string str n) n) \<le> n"
    using callsignChar_canon by (intro convertLoop_bound) blast
  moreover have "convertLoop callsignChar (convert_callsign_to_ota_string str n) n = canonical str n"
    using takeWhile_terminated [OF ota_text(3) ota_text(1), of n str "[]"] ota_text(4) [where str = str and n = n]
    by (simp only: convert_callsign_to_ota_string_def convertLoop_eq [of callsignChar])
  ultimately show ?thesis using ota_text(1) [where str = str and n = n]
    by (simp add: convert_ota_string_to_callsign_def convert_callsign_to_ota_string_def)
qed



text \<open>
  The interleaver is a permutation of the 56 symbols that the deinterleaver inverts: the symbols
  of the interleaved bits, deinterleaved, are the symbols of the original bits.
\<close>

theorem interleaver_round_trip:
  assumes "length out = 112" and "length out' = 56"
  shows "deinterleave_comp out' (pairs (interleave_bits out inp 56) 56) 56 = pairs inp 56 \<and>
    bij_betw (\<lambda>i. newIndex i 56) {..<56} {..<56}"
proof
  have "inj_on (\<lambda>i. newIndex i 56) {..<56}" by (auto simp: inj_on_def newIndex_inj)
  moreover have "(\<lambda>i. newIndex i 56) ` {..<56} \<subseteq> {..<56}" by auto
  ultimately show "bij_betw (\<lambda>i. newIndex i 56) {..<56} {..<56}" by (simp add: bij_betw_def endo_inj_surj)
qed (rule deinterleave_interleave [OF assms])

theorem interleaver_round_trip_witness:
  "deinterleave_comp (replicate 56 (0, 0)) (pairs (interleave_bits (replicate 112 0) [0..<112] 56) 56) 56 = pairs [0..<112] 56"
  using interleaver_round_trip [of "replicate 112 (0::nat)" "replicate 56 (0, 0)" "[0..<112]"] by (simp del: upt_rec_numeral)

text \<open>
  Packing eight bits of CRC and six bits of each of the eight characters into the 56 message bits
  loses nothing: unpacking any codeword that starts with these bits restores the buffer.
\<close>

theorem pack_round_trip:
  assumes "length tmp = 10" and "tmp ! 9 = 0" and "\<forall>q < 8. tmp ! (1 + q) < 64" and "take 56 message = packBits tmp"
  shows "unpackBits message (replicate 10 0) = tmp"
  using unpack_pack [OF assms] .

theorem pack_round_trip_witness:
  "unpackBits (packBits [200, 30, 16, 20, 36, 0, 0, 0, 46, 0]) (replicate 10 0) = [200, 30, 16, 20, 36, 0, 0, 0, 46, 0]"
  by (rule pack_round_trip) (simp, simp, code_simp, simp del: upt_rec_numeral add: packBits_eq)

end
