(* ===== verification/Ldpc_Convergence.thy ===== *)
theory Ldpc_Convergence
  imports Ldpc_Decode
begin

text \<open>
  Belief propagation in exact arithmetic: when the sign of every channel log-likelihood ratio is the
  transmitted bit, the first iteration already yields the codeword. The lemmas follow the decoder's
  loops: a check node keeps the signs right because the codeword has even parity on it, and a
  variable node adds messages of one sign.
\<close>

definition bitSign :: "nat \<Rightarrow> int" where
  "bitSign b = (if b = 0 then 1 else - 1)"

lemma bitSign_power: "x = 0 \<or> x = 1 \<Longrightarrow> bitSign x = (- 1) ^ x"
  by (auto simp: bitSign_def)

definition edgeVar :: "nat \<Rightarrow> nat" where
  "edgeVar e = snd (edges graph ! e)"

lemma edgeVar_less: "e < length (edges graph) \<Longrightarrow> edgeVar e < 112"
  using set_edges nth_mem [of e "edges graph"] by (cases "edges graph ! e") (auto simp: edgeVar_def)

lemma check_edges_nth:
  "i < 56 \<Longrightarrow> check_edges graph ! i = filter (\<lambda>e. fst (edges graph ! e) = i) [0..<length (edges graph)]"
  using graph_facts(2) by (simp del: upt_rec_numeral)

lemma var_edges_nth:
  "j < 112 \<Longrightarrow> var_edges graph ! j = filter (\<lambda>e. edgeVar e = j) [0..<length (edges graph)]"
  using graph_facts(3) by (simp add: edgeVar_def del: upt_rec_numeral)

lemma check_edges_bij:
  assumes "i < 56"
  shows "bij_betw edgeVar (set (check_edges graph ! i)) {j. j < 112 \<and> HRA_56_56 ! i ! j \<noteq> 0}"
proof -
  let ?S = "set (check_edges graph ! i)"
  have S: "?S = {e. e < length (edges graph) \<and> fst (edges graph ! e) = i}"
    by (auto simp: check_edges_nth [OF assms])
  have "inj_on edgeVar ?S"
  proof (rule inj_onI)
    fix x y assume xy: "x \<in> ?S" "y \<in> ?S" "edgeVar x = edgeVar y"
    then have "edges graph ! x = edges graph ! y" unfolding S by (intro prod_eqI) (auto simp: edgeVar_def)
    then show "x = y" using xy(1,2) distinct_edges unfolding S by (simp add: nth_eq_iff_index_eq)
  qed
  moreover have "edgeVar ` ?S = {j. j < 112 \<and> HRA_56_56 ! i ! j \<noteq> 0}"
  proof
    show "edgeVar ` ?S \<subseteq> {j. j < 112 \<and> HRA_56_56 ! i ! j \<noteq> 0}"
      using set_edges nth_mem [of _ "edges graph"] by (fastforce simp: S edgeVar_def)
    show "{j. j < 112 \<and> HRA_56_56 ! i ! j \<noteq> 0} \<subseteq> edgeVar ` ?S"
    proof
      fix j assume "j \<in> {j. j < 112 \<and> HRA_56_56 ! i ! j \<noteq> 0}"
      then have "(i, j) \<in> set (edges graph)" using assms set_edges by auto
      then obtain e where "e < length (edges graph)" "edges graph ! e = (i, j)" by (auto simp: in_set_conv_nth)
      then show "j \<in> edgeVar ` ?S" by (auto simp: S edgeVar_def image_iff intro!: exI [of _ e])
    qed
  qed
  ultimately show ?thesis by (simp add: bij_betw_def)
qed

text \<open>A codeword has an even number of ones on each check node, so the signs multiply to one.\<close>

lemma check_sign_product:
  assumes "i < 56" and "length c = 112" and "bits c" and "syndromeOk c"
  shows "(\<Prod>e \<leftarrow> check_edges graph ! i. bitSign (c ! edgeVar e)) = 1"
proof -
  let ?S = "set (check_edges graph ! i)" and ?J = "{j. j < 112 \<and> HRA_56_56 ! i ! j \<noteq> 0}"
  have "distinct (check_edges graph ! i)" by (simp add: check_edges_nth [OF assms(1)])
  then have "(\<Prod>e \<leftarrow> check_edges graph ! i. bitSign (c ! edgeVar e)) = (\<Prod>e \<in> ?S. bitSign (c ! edgeVar e))"
    by (simp add: prod.distinct_set_conv_list)
  also have "\<dots> = (\<Prod>j \<in> ?J. bitSign (c ! j))"
    using prod.reindex_bij_betw [OF check_edges_bij [OF assms(1)], of "\<lambda>j. bitSign (c ! j)"] .
  also have "\<dots> = (\<Prod>j \<in> ?J. (- 1) ^ (c ! j))"
    using assms(2,3) by (intro prod.cong) (auto simp: bits_def list_all_length bitSign_power)
  also have "\<dots> = (- 1) ^ (\<Sum>j \<in> ?J. c ! j)" by (simp add: power_sum)
  also have "(\<Sum>j \<in> ?J. c ! j) = checkCtr c i"
  proof -
    have one: "j < 112 \<Longrightarrow> HRA_56_56 ! i ! j \<noteq> 0 \<Longrightarrow> HRA_56_56 ! i ! j = 1" for j
      using HRA_rows assms(1) by (fastforce simp: list_all_length)
    have "(\<Sum>j<112. HRA_56_56 ! i ! j * c ! j) = (\<Sum>j \<in> ?J. HRA_56_56 ! i ! j * c ! j)"
      by (rule sum.mono_neutral_right) auto
    also have "\<dots> = (\<Sum>j \<in> ?J. c ! j)" by (rule sum.cong) (use one in auto)
    finally show ?thesis by (simp add: checkCtr_sum)
  qed
  finally show ?thesis using assms(1,4) by (simp add: syndromeOk_iff)
qed

text \<open>\<open>signed c m\<close>: no message of \<open>m\<close> contradicts the codeword \<open>c\<close>.\<close>

definition signed_msgs :: "nat list \<Rightarrow> real list \<Rightarrow> bool" where
  "signed_msgs c m \<longleftrightarrow> length m = length (edges graph) \<and>
     (\<forall>e < length (edges graph). 0 \<le> of_int (bitSign (c ! edgeVar e)) * m ! e)"

lemma foldl_inv: "P a \<Longrightarrow> (\<And>a x. x \<in> set xs \<Longrightarrow> P a \<Longrightarrow> P (f a x)) \<Longrightarrow> P (foldl f a xs)"
  by (induction xs arbitrary: a) auto

lemma foldl_times: "foldl (\<lambda>s e. s * f e) (z :: int) xs = z * (\<Prod>e \<leftarrow> xs. f e)"
  by (induction xs arbitrary: z) (auto simp: mult.assoc)

lemma fclamp_LLR_sign: "0 \<le> of_int (bitSign b) * v \<Longrightarrow> 0 \<le> of_int (bitSign b) * fclamp real_fpu v (- LLR_MAX real_fpu) (LLR_MAX real_fpu)"
  using fclamp_real_sign [of "of_int (bitSign b)" "LLR_MAX real_fpu" v] by (auto simp: bitSign_def LLR_MAX_def real_lit_def)

lemma checkUpdate_signed:
  assumes "i < 56" and "length c = 112" and "bits c" and "syndromeOk c"
    and "\<forall>e < length (edges graph). fsign real_fpu (vc ! e) = bitSign (c ! edgeVar e)" and "signed_msgs c cv"
  shows "signed_msgs c (checkUpdate real_fpu vc cv (check_edges graph ! i))"
proof -
  have sgn: "e \<in> set (check_edges graph ! i) \<Longrightarrow> e < length (edges graph) \<and> fsign real_fpu (vc ! e) = bitSign (c ! edgeVar e)" for e
    using assms(5) by (auto simp: check_edges_nth [OF assms(1)])
  have "foldl (\<lambda>s e. s * fsign real_fpu (vc ! e)) 1 (check_edges graph ! i) = 1"
    using check_sign_product [OF assms(1-4)] sgn by (simp add: foldl_times cong: map_cong)
  note prod = this
  show ?thesis
    unfolding checkUpdate_def Let_def prod
  proof (rule foldl_inv [where P = "signed_msgs c", OF assms(6)])
    fix cv e assume e: "e \<in> set (check_edges graph ! i)" and cv: "signed_msgs c cv"
    let ?s = "bitSign (c ! edgeVar e)"
    have "0 \<le> of_int ?s * (of_int ?s * max 0 y)" for y :: real by (auto simp: bitSign_def)
    then show "signed_msgs c (cv[e := fclamp real_fpu
        (fmul real_fpu (i2f real_fpu (fsign real_fpu (vc ! e) * 1))
          (fmax real_fpu (f0 real_fpu) (phi real_fpu
            (fsub real_fpu (foldl (\<lambda>s e. fadd real_fpu s (fmax real_fpu (f0 real_fpu) (phi real_fpu (fabs real_fpu (vc ! e)))))
              (f0 real_fpu) (check_edges graph ! i)) (phi real_fpu (fabs real_fpu (vc ! e)))))))
        (fneg real_fpu (LLR_MAX real_fpu)) (LLR_MAX real_fpu)])"
      using cv sgn [OF e] by (auto simp: signed_msgs_def nth_list_update intro: fclamp_LLR_sign)
  qed
qed

lemma posterior_sign:
  assumes "signed_msgs c cv" and "j < 112" and "0 < of_int (bitSign (c ! j)) * llr ! j"
  shows "0 < of_int (bitSign (c ! j)) * posterior real_fpu llr cv j"
proof -
  have step: "0 < of_int (bitSign (c ! j)) * t \<Longrightarrow> \<forall>e \<in> set es. 0 \<le> of_int (bitSign (c ! j)) * cv ! e \<Longrightarrow>
      0 < of_int (bitSign (c ! j)) * foldl (\<lambda>t e. t + cv ! e) t es" for t es
    by (induction es arbitrary: t) (auto simp: distrib_left add_pos_nonneg)
  have "\<forall>e \<in> set (var_edges graph ! j). 0 \<le> of_int (bitSign (c ! j)) * cv ! e"
    using assms(1,2) by (auto simp: var_edges_nth signed_msgs_def)
  then show ?thesis using step [OF assms(3)] by (simp add: posterior_def)
qed

text \<open>One iteration on right signs returns the codeword.\<close>

lemma first_iteration:
  assumes "length c = 112" and "bits c" and "syndromeOk c" and "\<forall>j < 112. 0 < of_int (bitSign (c ! j)) * llr ! j"
  shows "hardDecision real_fpu llr (snd (bpStep real_fpu llr
    (map (\<lambda>e. llr ! edgeVar e) [0..<length (edges graph)], replicate (length (edges graph)) 0))) = c"
proof -
  let ?vc = "map (\<lambda>e. llr ! edgeVar e) [0..<length (edges graph)]" and ?cv = "replicate (length (edges graph)) 0"
  have "fsign real_fpu (?vc ! e) = bitSign (c ! edgeVar e)" if "e < length (edges graph)" for e
    using assms(4) edgeVar_less [OF that] that by (auto simp: fsign_def bitSign_def zero_less_mult_iff split: if_splits)
  then have "signed_msgs c (foldl (\<lambda>cv i. checkUpdate real_fpu ?vc cv (check_edges graph ! i)) ?cv [0..<56])"
    by (intro foldl_inv [where P = "signed_msgs c"] checkUpdate_signed [OF _ assms(1-3)])
      (simp_all add: signed_msgs_def del: upt_rec_numeral)
  then have "signed_msgs c (snd (bpStep real_fpu llr (?vc, ?cv)))" by (simp add: bpStep_def Let_def del: upt_rec_numeral)
  from posterior_sign [OF this] have
    "j < 112 \<Longrightarrow> (if posterior real_fpu llr (snd (bpStep real_fpu llr (?vc, ?cv))) j < 0 then 1 else 0) = c ! j" for j
    using assms by (force simp: bitSign_def bits_def list_all_length zero_less_mult_iff split: if_splits)
  then show ?thesis using assms(1) by (intro nth_equalityI) (auto simp: hardDecision_def simp del: upt_rec_numeral)
qed

lemma ldpc_decode_right_signs:
  assumes "length c = 112" and "bits c" and "syndromeOk c" and "0 < max_iter"
    and "length vc = length (edges graph)" and "length cv = length (edges graph)"
    and "\<forall>j < 112. 0 < of_int (bitSign (c ! j)) *
      ldpc_linear_log_map real_fpu syms amps (if noise_var < real_lit 1 (- 10) then real_lit 1 (- 10) else noise_var) ! j"
  shows "fst (ldpc_decode real_fpu (vc, cv) syms amps noise_var max_iter) =
    \<lparr>message = c, converged = True, iterations = 1\<rparr>"
proof -
  obtain n where n: "nat max_iter = Suc n" using assms(4) by (cases "nat max_iter") auto
  note F = first_iteration [OF assms(1-3,7)]
  show ?thesis
    using F assms(3)
    by (simp add: ldpc_decode_def Let_def n foldl_overwrite assms(5,6) edgeVar_def [symmetric] map_replicate_const cong: if_cong split del: if_split)
qed

subsection \<open>The log-likelihood ratios of a noiseless symbol\<close>

text \<open>The symbol of two bits, as the transmitter sends it.\<close>

definition qpsk :: "nat \<Rightarrow> nat \<Rightarrow> real \<times> real" where
  "qpsk b0 b1 = (if b0 = 0 then (if b1 = 0 then (1, 0) else (0, 1)) else (if b1 = 0 then (0, - 1) else (- 1, 0)))"

lemma max_star_far: "7 / 2 < \<bar>x - y\<bar> \<Longrightarrow> max_star real_fpu x y = max x y"
  by (simp add: max_star_def Let_def real_lit_def)

lemma symbolLlr_length [simp]: "length (symbolLlr fp es m s a) = 2"
  by (simp add: symbolLlr_def Let_def)

lemma symbolLlr_noiseless:
  "0 < of_int (bitSign b0) * symbolLlr real_fpu 500000 1 (qpsk b0 b1) 1 ! 0"
  "0 < of_int (bitSign b1) * symbolLlr real_fpu 500000 1 (qpsk b0 b1) 1 ! 1"
  by (cases "b0 = 0"; cases "b1 = 0";
      simp add: symbolLlr_def Let_def qpsk_def bitSign_def calc_likelihood_def LLR_MAX_def real_lit_def max_star_far fclamp_def)+

lemma nth_concat_pairs:
  assumes "\<And>k. length (f k) = 2" and "k < n" and "r < 2"
  shows "concat (map f [0..<n]) ! (2 * k + r) = f k ! r"
  using assms(2)
proof (induction n)
  case (Suc n)
  have "length (concat (map f [0..<n])) = 2 * n" by (induction n) (simp_all add: assms(1))
  then show ?case using Suc assms(3) by (cases "k = n") (auto simp: nth_append)
qed simp

lemma llr_noiseless:
  assumes "\<forall>k < 56. syms ! k = qpsk (c ! (2 * k)) (c ! (2 * k + 1)) \<and> amps ! k = 1" and "j < 112"
  shows "0 < of_int (bitSign (c ! j)) * ldpc_linear_log_map real_fpu syms amps (1 / 1000000) ! j"
proof -
  have sum: "foldl (\<lambda>m k. m + amps ! k) z [0..<n] = z + real n" if "n \<le> 56" for n z
    using that assms(1) by (induction n arbitrary: z) auto
  define k r where "k = j div 2" and "r = j mod 2"
  have kr: "j = 2 * k + r" "r < 2" "k < 56" using assms(2) by (auto simp: k_def r_def)
  have "ldpc_linear_log_map real_fpu syms amps (1 / 1000000) ! j =
      symbolLlr real_fpu 500000 1 (qpsk (c ! (2 * k)) (c ! (2 * k + 1))) 1 ! r"
    using nth_concat_pairs [of "\<lambda>k. symbolLlr real_fpu 500000 1 (syms ! k) (amps ! k)" k 56 r] assms(1) kr
    by (simp add: ldpc_linear_log_map_def Let_def sum real_lit_def del: upt_rec_numeral)
  moreover have "r = 0 \<or> r = 1" using kr(2) by auto
  ultimately show ?thesis using symbolLlr_noiseless kr(1) by fastforce
qed

end
