(* ===== verification/Rade_Text.thy ===== *)
theory Rade_Text
  imports Rade_Codec Ldpc_Convergence
begin

text \<open>
  The reliable-text object of \<^verbatim>\<open>src/src/pipeline/rade_text.cpp\<close>: the transmitter that turns a callsign into
  end-of-over symbols, and the receiver that decodes them and calls the application back. The file's
  static arrays and the decoder's static vectors are the record \<open>text_statics\<close>. A call of the
  callback is the returned \<open>rx_event\<close>; the counters that the code only logs are the returned
  \<open>rx_stats\<close>. An assertion that fails is the value \<open>None\<close>.
\<close>

subsection \<open>State\<close>

record 'f text_statics =
  LastEncodedLDPC :: "'f list"
  LastLDPCAsBits :: "nat list"
  ldpcMessages :: "'f list \<times> 'f list"

record ('f, 'cb) rade_text =
  text_rx_callback :: "'cb option"
  callback_state :: u64
  tx_text :: "nat list"
  tx_text_index :: int
  tx_text_length :: int
  inbound_pending_syms :: "'f rade_comp list"
  inbound_pending_amps :: "'f list"
  enableStats :: bool
  unusedEooBitCount :: int
  unusedEooErrCount :: int

type_synonym 'cb rx_event = "'cb \<times> u8 list \<times> nat \<times> u64"

record rx_stats =
  bitsRaw :: nat
  errorsRaw :: nat
  bitsCoded :: nat
  errorsCoded :: nat

definition text_statics_init :: "('f, 'd, 'x) fpu_scheme \<Rightarrow> 'f text_statics" where
  "text_statics_init fp =
     \<lparr>LastEncodedLDPC = replicate 112 (f0 fp), LastLDPCAsBits = replicate 112 0,
      ldpcMessages = (replicate (length (edges graph)) (f0 fp), replicate (length (edges graph)) (f0 fp))\<rparr>"

definition rade_text_create :: "('f, 'd, 'x) fpu_scheme \<Rightarrow> ('f, 'cb) rade_text" where
  "rade_text_create fp =
     \<lparr>text_rx_callback = None, callback_state = 0, tx_text = replicate 112 0, tx_text_index = 0,
      tx_text_length = 0, inbound_pending_syms = replicate 56 (f0 fp, f0 fp),
      inbound_pending_amps = replicate 56 (f0 fp), enableStats = True,
      unusedEooBitCount = 0, unusedEooErrCount = 0\<rparr>"

definition rade_text_set_rx_callback :: "('f, 'cb) rade_text \<Rightarrow> 'cb option \<Rightarrow> u64 \<Rightarrow> ('f, 'cb) rade_text" where
  "rade_text_set_rx_callback obj fn state = obj\<lparr>text_rx_callback := fn, callback_state := state\<rparr>"

definition rade_text_enable_stats_output :: "('f, 'cb) rade_text \<Rightarrow> bool \<Rightarrow> ('f, 'cb) rade_text" where
  "rade_text_enable_stats_output obj enable = obj\<lparr>enableStats := enable\<rparr>"

subsection \<open>Transmit\<close>

definition strlen :: "u8 list \<Rightarrow> nat" where
  "strlen s = length (takeWhile (\<lambda>c. c \<noteq> 0) s)"

text \<open>The buffer \<open>tmp\<close>: CRC, text, terminator.\<close>

definition txBuffer :: "u8 list \<Rightarrow> nat \<Rightarrow> u8 list" where
  "txBuffer str maxLength =
     (let tmp = splice_at 1 (convert_callsign_to_ota_string str maxLength) (replicate 10 0);
          txt_length = strlen (drop 1 tmp);
          txt_length = (if txt_length \<ge> 8 then 8 else txt_length);
          crc = calculateCRC8 (drop 1 tmp) txt_length
      in tmp[0 := crc])"

definition txSymbol :: "('f, 'd, 'x) fpu_scheme \<Rightarrow> nat list \<Rightarrow> 'f list \<Rightarrow> nat \<Rightarrow> 'f list" where
  "txSymbol fp text syms index =
     (let b0 = text ! (2 * index); b1 = text ! (2 * index + 1) in
      if b0 = 0 \<and> b1 = 0 then (syms[2 * index := i2f fp 1])[2 * index + 1 := i2f fp 0]
      else if b0 = 0 \<and> b1 = 1 then (syms[2 * index := i2f fp 0])[2 * index + 1 := i2f fp 1]
      else if b0 = 1 \<and> b1 = 0 then (syms[2 * index := i2f fp 0])[2 * index + 1 := i2f fp (- 1)]
      else if b0 = 1 \<and> b1 = 1 then (syms[2 * index := i2f fp (- 1)])[2 * index + 1 := i2f fp 0]
      else syms)"

definition txFiller :: "('f, 'd, 'x) fpu_scheme \<Rightarrow> 'f list \<Rightarrow> int \<Rightarrow> 'f list" where
  "txFiller fp syms symSize =
     (if symSize > 112
      then foldl (\<lambda>s index. s[index := i2f fp (if index mod 2 \<noteq> 0 then 0 else 1)]) syms [112..<nat symSize]
      else syms)"

definition rade_text_generate_tx_string ::
  "('f, 'd, 'x) fpu_scheme \<Rightarrow> 'f text_statics \<Rightarrow> ('f, 'cb) rade_text \<Rightarrow> u8 list \<Rightarrow> int \<Rightarrow> 'f list \<Rightarrow> int \<Rightarrow>
   ('f list \<times> 'f text_statics \<times> ('f, 'cb) rade_text) option" where
  "rade_text_generate_tx_string fp st impl str strlength syms symSize =
     (let maxLength = (if strlength < 8 then strlength else 8) in
      if maxLength < 0 then None
      else
        let tmp = txBuffer str (nat maxLength);
            ibits = packBits tmp;
            totalBits = ldpc_encode ibits;
            pbits = take 56 (drop 56 totalBits);
            tmpbits = ibits @ pbits;
            text = interleave_bits (replicate 112 0) tmpbits 56;
            syms1 = foldl (txSymbol fp text) syms [0..<56];
            st1 = st\<lparr>LastLDPCAsBits := tmpbits\<rparr>;
            st2 = (if enableStats impl then st1\<lparr>LastEncodedLDPC := take 112 syms1\<rparr> else st1)
        in Some (txFiller fp syms1 symSize, st2,
             impl\<lparr>tx_text := text, tx_text_length := 112, tx_text_index := 0\<rparr>))"

subsection \<open>Receive\<close>

definition rawErrors :: "('f, 'd, 'x) fpu_scheme \<Rightarrow> 'f list \<Rightarrow> 'f rade_comp list \<Rightarrow> nat" where
  "rawErrors fp sent pending =
     foldl (\<lambda>n index.
        let pf = (if index mod 2 = 0 then fst (pending ! (index div 2)) else snd (pending ! (index div 2)))
        in if flt fp (fmul fp (sent ! index) pf) (f0 fp) then n + 1 else n) 0 [0..<112]"

definition codedErrors :: "nat list \<Rightarrow> nat list \<Rightarrow> nat" where
  "codedErrors sent msg = foldl (\<lambda>n index. if sent ! index \<noteq> msg ! index then n + 1 else n) 0 [0..<56]"

definition rade_text_ldpc_decode ::
  "('f, 'd, 'x) fpu_scheme \<Rightarrow> 'f text_statics \<Rightarrow> ('f, 'cb) rade_text \<Rightarrow> u8 list \<Rightarrow> 'f \<Rightarrow>
   bool \<times> u8 list \<times> 'f text_statics \<times> rx_stats option" where
  "rade_text_ldpc_decode fp st obj dest noiseVar =
     (let errRaw = rawErrors fp (LastEncodedLDPC st) (inbound_pending_syms obj);
          sigma2 = (if flt fp noiseVar (flit fp 1 (-6)) then flit fp 1 (-6) else noiseVar);
          (decodeResult, msgs) =
            ldpc_decode fp (ldpcMessages st) (inbound_pending_syms obj) (inbound_pending_amps obj) sigma2 30;
          stats = (if enableStats obj
                   then Some \<lparr>bitsRaw = 112, errorsRaw = errRaw, bitsCoded = 56,
                              errorsCoded = codedErrors (LastLDPCAsBits st) (message decodeResult)\<rparr>
                   else None);
          dest' = (if converged decodeResult then unpackBits (message decodeResult) dest else dest)
      in (converged decodeResult, dest', st\<lparr>ldpcMessages := msgs\<rparr>, stats))"

record 'f rx_acc =
  acc_rms :: 'f
  acc_ss :: 'f
  acc_ssCnt :: int
  acc_bits :: int
  acc_errs :: int

text \<open>One iteration of the loop over the received symbols.\<close>

definition rxAccumulate :: "('f, 'd, 'x) fpu_scheme \<Rightarrow> bool \<Rightarrow> 'f rade_comp list \<Rightarrow> 'f list \<Rightarrow> 'f rx_acc \<Rightarrow> nat \<Rightarrow> 'f rx_acc" where
  "rxAccumulate fp stats pending syms acc index =
     (if index < 56 then
        let s = pending ! index
        in acc\<lparr>acc_rms := fadd fp (acc_rms acc) (fadd fp (fmul fp (fst s) (fst s)) (fmul fp (snd s) (snd s)))\<rparr>
      else
        let s0 = syms ! (2 * index); s1 = syms ! (2 * index + 1);
            sym_amp = fsqrt fp (fadd fp (fmul fp s0 s0) (fmul fp s1 s1));
            sq = (\<lambda>x. dpow fp (f2d fp x) (dlit fp 2 0));
            addD = (\<lambda>a d. d2f fp (dadd fp (f2d fp a) d));
            acc1 = (if flt fp (i2f fp 0) sym_amp
                    then acc\<lparr>acc_ss := addD (addD (acc_ss acc) (sq (fsub fp (i2f fp 1) (fdiv fp s0 sym_amp))))
                                          (sq (fsub fp (i2f fp 0) (fdiv fp s1 sym_amp))),
                             acc_ssCnt := acc_ssCnt acc + 2\<rparr>
                    else acc)
        in if stats
           then acc1\<lparr>acc_bits := acc_bits acc1 + 2,
                     acc_errs := (if flt fp s1 (i2f fp 0) then acc_errs acc1 + 1 else acc_errs acc1)\<rparr>
           else acc1)"

definition rxAmp :: "('f, 'd, 'x) fpu_scheme \<Rightarrow> 'f rade_comp \<Rightarrow> 'f" where
  "rxAmp fp s = fsqrt fp (fadd fp (fmul fp (fst s) (fst s)) (fmul fp (snd s) (snd s)))"

text \<open>What follows a successful decode: character conversion, the CRC test and the callback.\<close>

definition rxDeliver :: "('f, 'cb) rade_text \<Rightarrow> u8 list \<Rightarrow> 'cb rx_event list" where
  "rxDeliver obj rawStr =
     (let decodedStr = (splice_at 1 (convert_ota_string_to_callsign (drop 1 rawStr) 8) (replicate 10 0))[0 := rawStr ! 0];
          receivedCRC = decodedStr ! 0;
          calcCRC = calculateCRC8 (drop 1 rawStr) 8
      in case text_rx_callback obj of
           Some cb \<Rightarrow> if receivedCRC = calcCRC
                      then [(cb, takeWhile (\<lambda>c. c \<noteq> 0) (drop 1 decodedStr), strlen (drop 1 decodedStr), callback_state obj)]
                      else []
         | None \<Rightarrow> [])"

text \<open>The mean amplitude \<open>rms\<close> is only logged; it is the first component of the result.\<close>

definition rade_text_rx ::
  "('f, 'd, 'x) fpu_scheme \<Rightarrow> 'f text_statics \<Rightarrow> ('f, 'cb) rade_text \<Rightarrow> 'f list \<Rightarrow> int \<Rightarrow>
   'f \<times> 'cb rx_event list \<times> rx_stats option \<times> 'f text_statics \<times> ('f, 'cb) rade_text" where
  "rade_text_rx fp st obj syms symSize =
     (let pending = deinterleave_comp (inbound_pending_syms obj) (pairs syms 56) 56;
          acc = foldl (rxAccumulate fp (enableStats obj) pending syms)
                  \<lparr>acc_rms = i2f fp 0, acc_ss = i2f fp 0, acc_ssCnt = 0, acc_bits = 0, acc_errs = 0\<rparr>
                  [0..<nat symSize];
          rms = fsqrt fp (fdiv fp (acc_rms acc) (i2f fp symSize));
          amps = map (rxAmp fp) pending;
          normed = map (\<lambda>s. (fdiv fp (fst s) (rxAmp fp s), fdiv fp (snd s) (rxAmp fp s))) pending;
          obj1 = obj\<lparr>inbound_pending_syms := normed, inbound_pending_amps := amps,
                     unusedEooBitCount := acc_bits acc, unusedEooErrCount := acc_errs acc\<rparr>;
          noiseVar = fdiv fp (acc_ss acc) (i2f fp (acc_ssCnt acc - 1));
          (ok, rawStr, st', stats) = rade_text_ldpc_decode fp st obj1 (replicate 10 0) noiseVar
      in if ok then (rms, rxDeliver obj1 rawStr, stats, st', obj1)
         else (rms, [], stats, st', obj1))"

subsection \<open>The transmitted buffer\<close>

lemma crc_terminated:
  "0 \<notin> set s \<Longrightarrow> length s \<le> n \<Longrightarrow> calculateCRC8 (s @ 0 # rest) n = foldl crcByte 0 s"
  by (cases "n - length s") (simp_all add: calculateCRC8_def crcLoop_append)

lemma txBuffer_eq:
  assumes "n \<le> 8"
  defines "s \<equiv> \<lambda>str. convertLoop otaChar str n"
  shows "txBuffer str n = foldl crcByte 0 (s str) # s str @ 0 # replicate (8 - length (s str)) 0"
proof -
  let ?s = "s str"
  have s: "length ?s \<le> 8" "0 \<notin> set ?s"
    using ota_text(1,3) [where str = str and n = n] assms(1) by (auto simp: s_def)
  have tmp: "splice_at 1 (convert_callsign_to_ota_string str n) (replicate 10 0) = 0 # ?s @ 0 # replicate (8 - length ?s) 0"
    using s by (simp add: splice_at_def convert_callsign_to_ota_string_def s_def)
  have "strlen (?s @ 0 # replicate (8 - length ?s) 0) = length ?s"
    using takeWhile_terminated [OF s(2), of "length ?s + 9 - length ?s" "replicate (8 - length ?s) 0"] s(1) by (simp add: strlen_def)
  then show ?thesis using s unfolding txBuffer_def tmp Let_def by (auto simp: crc_terminated)
qed

lemma txBuffer_facts:
  assumes "n \<le> 8"
  shows "length (txBuffer str n) = 10" and "txBuffer str n ! 9 = 0" and "\<forall>q < 8. txBuffer str n ! (1 + q) < 64"
    and "calculateCRC8 (drop 1 (txBuffer str n)) 8 = txBuffer str n ! 0"
    and "convertLoop callsignChar (drop 1 (txBuffer str n)) 8 = canonical str n"
proof -
  define s where "s = convertLoop otaChar str n"
  have s: "length s \<le> 8" "0 \<notin> set s" "\<And>c. c \<in> set s \<Longrightarrow> c \<le> 46"
    using ota_text(1,2,3) [where str = str and n = n] assms by (auto simp: s_def)
  have tmp: "txBuffer str n = foldl crcByte 0 s # s @ 0 # replicate (8 - length s) 0"
    unfolding s_def by (rule txBuffer_eq [OF assms])
  have rest: "txBuffer str n ! Suc q = (if q < length s then s ! q else 0)" if "q < 9" for q
  proof -
    have "0 # replicate (8 - length s) 0 = replicate (9 - length s) (0 :: u8)"
      using s(1) by (simp add: Suc_diff_le flip: replicate_Suc)
    then show ?thesis using s(1) that by (simp add: tmp nth_append)
  qed
  show "length (txBuffer str n) = 10" using s(1) by (simp add: tmp)
  show "txBuffer str n ! 9 = 0" using rest [of 8] s(1) by simp
  show "\<forall>q < 8. txBuffer str n ! (1 + q) < 64"
  proof (intro allI impI)
    fix q :: nat assume "q < 8"
    then have "txBuffer str n ! (1 + q) = 0 \<or> txBuffer str n ! (1 + q) \<in> set s" by (simp add: rest)
    then show "txBuffer str n ! (1 + q) < 64" using s(3) [of "txBuffer str n ! (1 + q)"] by (auto simp: word_le_nat_alt word_less_nat_alt)
  qed
  show "calculateCRC8 (drop 1 (txBuffer str n)) 8 = txBuffer str n ! 0" using s by (simp add: tmp crc_terminated)
  show "convertLoop callsignChar (drop 1 (txBuffer str n)) 8 = canonical str n"
    using takeWhile_terminated [OF s(2,1), of "replicate (8 - length s) 0"] ota_text(4) [where str = str and n = n]
    by (simp add: tmp convertLoop_eq [of callsignChar] s_def)
qed

subsection \<open>The transmitted symbols\<close>

lemma length_txSymbol [simp]: "length (txSymbol fp text syms i) = length syms"
  by (simp add: txSymbol_def Let_def)

lemma nth_txSymbol:
  assumes "text ! (2 * i) \<le> 1" and "text ! (2 * i + 1) \<le> 1" and "2 * i + 1 < length syms"
  shows "(txSymbol real_fpu text syms i ! (2 * k), txSymbol real_fpu text syms i ! (2 * k + 1)) =
    (if k = i then qpsk (text ! (2 * i)) (text ! (2 * i + 1)) else (syms ! (2 * k), syms ! (2 * k + 1)))"
proof -
  have "2 * k \<noteq> Suc (2 * i)" "Suc (2 * k) \<noteq> 2 * i" by presburger+
  moreover have "text ! (2 * i) = 0 \<or> text ! (2 * i) = 1" "text ! (2 * i + 1) = 0 \<or> text ! (2 * i + 1) = 1"
    using assms(1,2) by auto
  ultimately show ?thesis using assms(3) by (auto simp: txSymbol_def Let_def qpsk_def nth_list_update)
qed

lemma tx_symbols:
  assumes "length text = 112" and "bits text" and "112 \<le> length syms"
  shows "length (foldl (txSymbol real_fpu text) syms [0..<56]) = length syms \<and>
    pairs (foldl (txSymbol real_fpu text) syms [0..<56]) 56 = map (\<lambda>(a, b). qpsk a b) (pairs text 56)"
proof -
  have bit: "j < 112 \<Longrightarrow> text ! j \<le> 1" for j using assms(1,2) by (auto simp: bits_def list_all_length)
  have "n \<le> 56 \<Longrightarrow> length (foldl (txSymbol real_fpu text) syms [0..<n]) = length syms \<and>
      (\<forall>k < n. (foldl (txSymbol real_fpu text) syms [0..<n] ! (2 * k), foldl (txSymbol real_fpu text) syms [0..<n] ! (2 * k + 1)) =
        qpsk (text ! (2 * k)) (text ! (2 * k + 1)))" for n
  proof (induction n)
    case (Suc n)
    define r where "r = foldl (txSymbol real_fpu text) syms [0..<n]"
    have r: "length r = length syms" "\<forall>k < n. (r ! (2 * k), r ! (2 * k + 1)) = qpsk (text ! (2 * k)) (text ! (2 * k + 1))"
      using Suc by (auto simp: r_def)
    have "(txSymbol real_fpu text r n ! (2 * k), txSymbol real_fpu text r n ! (2 * k + 1)) =
        (if k = n then qpsk (text ! (2 * n)) (text ! (2 * n + 1)) else (r ! (2 * k), r ! (2 * k + 1)))" for k
      using Suc.prems assms(3) r(1) by (intro nth_txSymbol bit) auto
    then have "k < Suc n \<Longrightarrow> (txSymbol real_fpu text r n ! (2 * k), txSymbol real_fpu text r n ! (2 * k + 1)) =
        qpsk (text ! (2 * k)) (text ! (2 * k + 1))" for k using r(2) by (cases "k = n") auto
    then show ?case using r(1) by (simp add: r_def)
  qed simp
  from this [of 56] show ?thesis by (simp add: pairs_def del: upt_rec_numeral)
qed

lemma filler_loop:
  "length (foldl (\<lambda>s index. s[index := f index]) syms [a..<b]) = length syms \<and>
   (\<forall>j < length syms. foldl (\<lambda>s index. s[index := f index]) syms [a..<b] ! j = (if a \<le> j \<and> j < b then f j else syms ! j))"
proof (induction b)
  case (Suc b)
  then show ?case by (cases "a \<le> b") (auto simp: nth_list_update less_Suc_eq)
qed simp

lemma txFiller_real:
  assumes "112 \<le> length syms"
  shows "length (txFiller real_fpu syms (int (length syms))) = length syms"
    and "pairs (txFiller real_fpu syms (int (length syms))) 56 = pairs syms 56"
    and "112 \<le> j \<Longrightarrow> j < length syms \<Longrightarrow> txFiller real_fpu syms (int (length syms)) ! j = (if odd j then 0 else 1)"
  using filler_loop [of "\<lambda>i. i2f real_fpu (if i mod 2 \<noteq> 0 then 0 else 1)" syms 112 "length syms"] assms
  by (auto simp: txFiller_def pairs_def simp del: upt_rec_numeral split: if_splits)

text \<open>A noiseless end of over has no error power.\<close>

lemma rx_noise_free:
  assumes "\<forall>j. 112 \<le> j \<and> j < 2 * n \<longrightarrow> syms ! j = (if odd j then 0 else 1)" and "acc_ss acc = 0"
  shows "acc_ss (foldl (rxAccumulate real_fpu stats pending syms) acc [0..<n]) = 0"
  using assms(1)
proof (induction n)
  case (Suc n)
  then show ?case by (auto simp: rxAccumulate_def Let_def real_lit_def)
qed (simp add: assms(2))

subsection \<open>End to end\<close>

definition statics_wf :: "'f text_statics \<Rightarrow> bool" where
  "statics_wf st \<longleftrightarrow> length (fst (ldpcMessages st)) = length (edges graph) \<and> length (snd (ldpcMessages st)) = length (edges graph) \<and>
     length (LastEncodedLDPC st) = 112 \<and> length (LastLDPCAsBits st) = 112"

definition text_wf :: "('f, 'cb) rade_text \<Rightarrow> bool" where
  "text_wf obj \<longleftrightarrow> length (inbound_pending_syms obj) = 56 \<and> length (inbound_pending_amps obj) = 56 \<and>
     length (tx_text obj) = 112 \<and> bits (tx_text obj)"

lemma qpsk_unit:
  "rxAmp real_fpu (qpsk a b) = 1"
  by (auto simp: rxAmp_def qpsk_def)

lemma pending_noiseless:
  assumes "bits c" and "length c = 112" and "length old = 56"
    and "pairs syms 56 = map (\<lambda>(a, b). qpsk a b) (pairs (interleave_bits (replicate 112 0) c 56) 56)"
  shows "deinterleave_comp old (pairs syms 56) 56 = map (\<lambda>k. qpsk (c ! (2 * k)) (c ! (2 * k + 1))) [0..<56]"
proof -
  have "deinterleave_comp old (map f xs) 56 = map f (deinterleave_comp old' xs 56)"
    if "length xs = 56" "length old' = 56" for f :: "nat \<times> nat \<Rightarrow> real \<times> real" and xs old'
    using that assms(3) by (simp add: deinterleave_comp_def foldl_overwrite del: upt_rec_numeral)
  from this [of "pairs (interleave_bits (replicate 112 0) c 56) 56" "replicate 56 (0, 0)" "\<lambda>(a, b). qpsk a b"]
  show ?thesis unfolding assms(4) using deinterleave_interleave [of "replicate 112 0" "replicate 56 (0, 0)" c]
    by (simp add: pairs_def comp_def del: upt_rec_numeral)
qed

lemma decode_noiseless:
  assumes "length c = 112" and "bits c" and "syndromeOk c" and "statics_wf st"
    and "inbound_pending_syms obj = map (\<lambda>k. qpsk (c ! (2 * k)) (c ! (2 * k + 1))) [0..<56]"
    and "inbound_pending_amps obj = replicate 56 1"
  shows "\<exists>st' stats. rade_text_ldpc_decode real_fpu st obj dest 0 = (True, unpackBits c dest, st', stats)"
proof -
  let ?run = "ldpc_decode real_fpu (ldpcMessages st) (inbound_pending_syms obj) (inbound_pending_amps obj) (1 / 1000000) 30"
  have "fst ?run = \<lparr>message = c, converged = True, iterations = 1\<rparr>"
    using ldpc_decode_right_signs [OF assms(1-3), of 30 "fst (ldpcMessages st)" "snd (ldpcMessages st)"
        "inbound_pending_syms obj" "inbound_pending_amps obj" "1 / 1000000"] assms(4)
      llr_noiseless [of "inbound_pending_syms obj" c "inbound_pending_amps obj"]
    by (simp add: assms(5,6) statics_wf_def real_lit_def del: upt_rec_numeral)
  then show ?thesis
    by (cases ?run) (simp add: rade_text_ldpc_decode_def real_lit_def Let_def)
qed

text \<open>The codeword of a text, its symbols, and what the receiver makes of them.\<close>

definition textCodeword :: "u8 list \<Rightarrow> nat \<Rightarrow> nat list" where
  "textCodeword str n = ldpc_encode (packBits (txBuffer str n))"

lemma textCodeword_facts:
  shows "length (textCodeword str n) = 112" and "bits (textCodeword str n)" and "syndromeOk (textCodeword str n)"
    and "take 56 (textCodeword str n) = packBits (txBuffer str n)"
    and "packBits (txBuffer str n) @ take 56 (drop 56 (textCodeword str n)) = textCodeword str n"
proof -
  have ib: "length (packBits (txBuffer str n)) = 56" "bits (packBits (txBuffer str n))"
    by (simp_all add: packBits_eq bits_def list_all_iff del: upt_rec_numeral)
  show "length (textCodeword str n) = 112" "bits (textCodeword str n)" "syndromeOk (textCodeword str n)"
    and T: "take 56 (textCodeword str n) = packBits (txBuffer str n)"
    using ldpc_encode_facts [OF ib(1)] ldpc_encode_bits [OF ib] by (simp_all add: textCodeword_def)
  then have "take 56 (drop 56 (textCodeword str n)) = drop 56 (textCodeword str n)" by simp
  then show "packBits (txBuffer str n) @ take 56 (drop 56 (textCodeword str n)) = textCodeword str n"
    using T append_take_drop_id [of 56 "textCodeword str n"] by simp
qed

lemma bits_interleave:
  assumes "length inp = 112" and "bits inp"
  shows "bits (interleave_bits (replicate 112 0) inp 56)"
proof -
  have "set (interleave_bits (replicate 112 0) inp 56) \<subseteq> {0, 1}"
    unfolding interleave_bits_def
  proof (rule foldl_inv [where P = "\<lambda>out. set out \<subseteq> {0, 1}"])
    fix out :: "nat list" and i assume out: "set out \<subseteq> {0, 1}" and "i \<in> set [0..<56]"
    then have "inp ! (2 * i) \<in> {0, 1}" "inp ! (2 * i + 1) \<in> {0, 1}"
      using assms by (auto simp: bits_def list_all_length simp del: upt_rec_numeral)
    then show "set (out[2 * newIndex i 56 := inp ! (2 * i), 2 * newIndex i 56 + 1 := inp ! (2 * i + 1)]) \<subseteq> {0, 1}"
      by (intro set_update_subsetI out)
  qed simp
  then show ?thesis by (auto simp: bits_def list_all_iff)
qed

lemma tx_result:
  fixes syms :: "real list" and len :: nat
  assumes "112 \<le> length syms"
  shows "\<exists>out st' tx'. rade_text_generate_tx_string real_fpu st tx str (int len) syms (int (length syms)) = Some (out, st', tx') \<and>
    pairs out 56 = map (\<lambda>(a, b). qpsk a b) (pairs (interleave_bits (replicate 112 0) (textCodeword str (min len 8)) 56) 56) \<and>
    (\<forall>j. 112 \<le> j \<and> j < length syms \<longrightarrow> out ! j = (if odd j then 0 else 1))"
proof -
  let ?c = "textCodeword str (min len 8)" and ?n = "if int len < 8 then int len else 8"
  let ?text = "interleave_bits (replicate 112 0) ?c 56"
  let ?s = "foldl (txSymbol real_fpu ?text) syms [0..<56]"
  have n: "\<not> ?n < 0" "nat ?n = min len 8" by auto
  have S: "length ?s = length syms" "pairs ?s 56 = map (\<lambda>(a, b). qpsk a b) (pairs ?text 56)"
    using tx_symbols [of ?text syms] assms bits_interleave [OF textCodeword_facts(1,2)] by simp_all
  have "\<exists>st' tx'. rade_text_generate_tx_string real_fpu st tx str (int len) syms (int (length syms)) =
      Some (txFiller real_fpu ?s (int (length syms)), st', tx')"
    unfolding rade_text_generate_tx_string_def Let_def if_not_P [OF n(1)] n(2)
      textCodeword_def [symmetric] textCodeword_facts(5) by blast
  then show ?thesis using txFiller_real [of ?s] S assms by auto
qed

lemma canonical_text: "0 \<notin> set (canonical str n)" "length (canonical str n) \<le> n"
proof -
  have "c \<noteq> 0" if "c \<in> set (canonChar d)" for c d
    using that by (auto simp: canonChar_def u8_arith split: if_splits)
  then show "0 \<notin> set (canonical str n)" by (auto simp: canonical_def)
  have "length (canonChar c) \<le> 1" for c by (simp add: canonChar_def)
  then show "length (canonical str n) \<le> n"
    using convertLoop_bound [of canonChar str n] by (simp add: canonical_def convertLoop_eq)
qed

lemma decoded_text:
  fixes s :: "u8 list"
  assumes "0 \<notin> set s" and "length s \<le> 8"
  shows "takeWhile (\<lambda>c. c \<noteq> 0) (drop 1 ((splice_at 1 (s @ [0]) (replicate 10 0))[0 := x])) = s"
  using takeWhile_terminated [OF assms(1), of 9 "replicate (8 - length s) 0"] assms(2)
  by (simp add: splice_at_def)

lemma rx_noiseless:
  fixes out :: "real list" and str :: "u8 list" and len :: nat
  defines "c \<equiv> textCodeword str (min len 8)"
  assumes "pairs out 56 = map (\<lambda>(a, b). qpsk a b) (pairs (interleave_bits (replicate 112 0) c 56) 56)"
    and "\<forall>j. 112 \<le> j \<and> j < 2 * m \<longrightarrow> out ! j = (if odd j then 0 else 1)"
    and "statics_wf st" and "text_wf rx" and "text_rx_callback rx = Some cb"
  shows "fst (snd (rade_text_rx real_fpu st rx out (int m))) =
    [(cb, canonical str (min len 8), length (canonical str (min len 8)), callback_state rx)]"
proof -
  let ?n = "min len 8"
  define pend where "pend = map (\<lambda>k. qpsk (c ! (2 * k)) (c ! (2 * k + 1))) [0..<56]"
  have pending: "deinterleave_comp (inbound_pending_syms rx) (pairs out 56) 56 = pend"
    unfolding pend_def using assms(5)
    by (intro pending_noiseless assms(2)) (simp_all add: text_wf_def c_def textCodeword_facts)
  define acc where "acc = foldl (rxAccumulate real_fpu (enableStats rx) pend out)
      \<lparr>acc_rms = 0, acc_ss = 0, acc_ssCnt = 0, acc_bits = 0, acc_errs = 0\<rparr> [0..<m]"
  have ss: "acc_ss acc = 0" unfolding acc_def by (intro rx_noise_free assms(3)) simp
  have norm: "map (rxAmp real_fpu) pend = replicate 56 1"
    "map (\<lambda>s. (fst s / rxAmp real_fpu s, snd s / rxAmp real_fpu s)) pend = pend"
    by (simp_all add: pend_def comp_def qpsk_unit map_replicate_const del: upt_rec_numeral)
  define obj1 where "obj1 = rx\<lparr>inbound_pending_syms := pend, inbound_pending_amps := replicate 56 1,
    unusedEooBitCount := acc_bits acc, unusedEooErrCount := acc_errs acc\<rparr>"
  have ob: "inbound_pending_syms obj1 = pend" "inbound_pending_amps obj1 = replicate 56 1"
    "text_rx_callback obj1 = Some cb" "callback_state obj1 = callback_state rx"
    using assms(6) by (simp_all add: obj1_def)
  have raw: "unpackBits c (replicate 10 0) = txBuffer str ?n"
    unfolding c_def using txBuffer_facts(1-3) [of ?n str] by (intro unpack_pack textCodeword_facts(4)) simp_all
  obtain st2 stats where dec: "rade_text_ldpc_decode real_fpu st obj1 (replicate 10 0) 0 = (True, txBuffer str ?n, st2, stats)"
    using decode_noiseless [of c st obj1 "replicate 10 0"] assms(4) textCodeword_facts(1-3) ob(1,2) raw
    unfolding pend_def c_def by metis
  have crc: "calculateCRC8 (drop (Suc 0) (txBuffer str ?n)) 8 = txBuffer str ?n ! 0"
    and conv: "convertLoop callsignChar (drop (Suc 0) (txBuffer str ?n)) 8 = canonical str ?n"
    using txBuffer_facts(4,5) [of ?n str] by simp_all
  show ?thesis
    using decoded_text [OF canonical_text(1), of str ?n] canonical_text(2) [of str ?n]
    by (simp add: rade_text_rx_def rxDeliver_def Let_def pending ss norm dec strlen_def convert_ota_string_to_callsign_def
        crc conv ob(3,4) flip: acc_def obj1_def)
qed

subsection \<open>Buffer sizes\<close>

lemma length_checkUpdate: "length (checkUpdate fp vc cv ce) = length cv"
  unfolding checkUpdate_def Let_def by (rule foldl_inv [where P = "\<lambda>l. length l = length cv"]) auto

lemma length_varUpdate: "length (varUpdate fp llr cv vc j) = length vc"
  unfolding varUpdate_def Let_def by (rule foldl_inv [where P = "\<lambda>l. length l = length vc"]) auto

lemma length_bpStep:
  "length (fst (bpStep fp llr st)) = length (fst st)" "length (snd (bpStep fp llr st)) = length (snd st)"
proof -
  show "length (fst (bpStep fp llr st)) = length (fst st)"
    unfolding bpStep_def Let_def case_prod_unfold fst_conv
    by (rule foldl_inv [where P = "\<lambda>l. length l = length (fst st)"]) (simp_all only: length_varUpdate)
  show "length (snd (bpStep fp llr st)) = length (snd st)"
    unfolding bpStep_def Let_def case_prod_unfold snd_conv
    by (rule foldl_inv [where P = "\<lambda>l. length l = length (snd st)"]) (simp_all only: length_checkUpdate)
qed

lemma length_bpLoop:
  "bpLoop fp llr n result st = (r, vc, cv) \<Longrightarrow> length vc = length (fst st) \<and> length cv = length (snd st)"
  by (induction fp llr n result st rule: bpLoop.induct) (auto simp: Let_def length_bpStep split: if_splits; metis length_bpStep fst_conv snd_conv)+

lemma length_ldpc_decode:
  assumes "ldpc_decode fp st syms amps nv k = (r, vc, cv)"
  shows "length vc = length (fst st) \<and> length cv = length (snd st)"
proof -
  have "length (foldl (\<lambda>m e. m[e := f e]) m xs) = length m" for f and m :: "'z list" and xs
    by (rule foldl_inv [where P = "\<lambda>l. length l = length m"]) auto
  then show ?thesis using length_bpLoop assms unfolding ldpc_decode_def Let_def by fastforce
qed

lemma length_deinterleave [simp]: "length (deinterleave_comp out inp n) = length out"
  unfolding deinterleave_comp_def by (rule foldl_inv [where P = "\<lambda>l. length l = length out"]) auto

lemma length_txSymbols: "length (foldl (txSymbol fp text) syms xs) = length syms"
  by (rule foldl_inv [where P = "\<lambda>l. length l = length syms"]) auto

lemma length_txFiller [simp]: "length (txFiller fp syms n) = length syms"
  using filler_loop [of "\<lambda>i. i2f fp (if i mod 2 \<noteq> 0 then 0 else 1)" syms 112 "nat n"] by (simp add: txFiller_def)

lemma wf_ldpc_decode:
  assumes "rade_text_ldpc_decode fp st obj dest nv = (ok, raw, st', stats)" and "statics_wf st"
  shows "statics_wf st'"
proof -
  obtain r vc cv nv' where run: "ldpc_decode fp (ldpcMessages st) (inbound_pending_syms obj) (inbound_pending_amps obj) nv' 30 = (r, vc, cv)"
    and st': "st' = st\<lparr>ldpcMessages := (vc, cv)\<rparr>"
    using assms(1) by (auto simp: rade_text_ldpc_decode_def Let_def split: prod.splits if_splits)
  show ?thesis using length_ldpc_decode [OF run] assms(2) by (simp add: st' statics_wf_def)
qed

lemma rx_wf:
  assumes "rade_text_rx fp st obj syms symSize = (rms, evs, stats, st', obj')" and "statics_wf st" and "text_wf obj"
  shows "statics_wf st' \<and> text_wf obj'"
  using assms wf_ldpc_decode unfolding rade_text_rx_def Let_def
  by (auto simp: text_wf_def split: prod.splits if_splits; fastforce)

lemma tx_wf:
  assumes "rade_text_generate_tx_string fp st obj str strlength syms symSize = Some (out, st', obj')"
    and "statics_wf st" and "text_wf obj" and "112 \<le> length syms"
  shows "length out = length syms \<and> statics_wf st' \<and> text_wf obj'"
proof -
  define n where "n = nat (if strlength < 8 then strlength else 8)"
  note C = textCodeword_facts [of str n]
  have "statics_wf (st\<lparr>LastLDPCAsBits := textCodeword str n\<rparr>)"
    "length s = length syms \<Longrightarrow> statics_wf (st\<lparr>LastLDPCAsBits := textCodeword str n, LastEncodedLDPC := take 112 s\<rparr>)" for s
    using assms(2,4) C(1) by (auto simp: statics_wf_def)
  then show ?thesis
    using assms(1,3) bits_interleave [OF C(1,2)]
    unfolding rade_text_generate_tx_string_def Let_def n_def [symmetric] textCodeword_def [symmetric] C(5)
    by (auto simp: text_wf_def length_txSymbols split: if_splits)
qed

subsection \<open>What is delivered\<close>

lemma callsign_text:
  "0 \<notin> set (convertLoop callsignChar s n)" "length (convertLoop callsignChar s n) \<le> n"
  "list_all (\<lambda>c. canonChar c = [c]) (convertLoop callsignChar s n)"
proof -
  show "length (convertLoop callsignChar s n) \<le> n"
    using callsignChar_canon by (intro convertLoop_bound) blast
  show c: "list_all (\<lambda>c. canonChar c = [c]) (convertLoop callsignChar s n)"
    using callsignChar_canon by (auto simp: convertLoop_eq list_all_iff)
  have "canonChar 0 = []" by (simp add: canonChar_def)
  then show "0 \<notin> set (convertLoop callsignChar s n)" using c by (force simp: list_all_iff)
qed

lemma rxDeliver_text:
  "length (rxDeliver obj raw) \<le> 1 \<and>
   list_all (\<lambda>(cb, txt, len, state). text_rx_callback obj = Some cb \<and> state = callback_state obj \<and>
       len = length txt \<and> len \<le> 8 \<and> list_all (\<lambda>c. canonChar c = [c]) txt \<and>
       raw ! 0 = calculateCRC8 (drop 1 raw) 8 \<and> txt @ [0] = convert_ota_string_to_callsign (drop 1 raw) 8) (rxDeliver obj raw)"
  using decoded_text [OF callsign_text(1,2), of "drop 1 raw" 8] callsign_text(2,3) [of "drop 1 raw" 8]
  by (auto simp: rxDeliver_def Let_def strlen_def convert_ota_string_to_callsign_def splice_at_def split: option.splits)

lemma decoded_codeword:
  assumes "rade_text_ldpc_decode fp st obj dest nv = (True, raw, st', stats)"
  shows "\<exists>m. length m = 112 \<and> bits m \<and> ldpc_encode (take 56 m) = m \<and> raw = unpackBits m dest"
proof -
  obtain r msgs nv' where run: "ldpc_decode fp (ldpcMessages st) (inbound_pending_syms obj) (inbound_pending_amps obj) nv' 30 = (r, msgs)"
    and r: "converged r" "raw = unpackBits (message r) dest"
    using assms by (auto simp: rade_text_ldpc_decode_def Let_def split: prod.splits if_splits)
  then show ?thesis using ldpc_decode_result [OF run] by blast
qed

lemma rx_delivers:
  assumes "fst (snd (rade_text_rx fp st obj syms symSize)) = ev # evs"
  obtains obj1 nv raw st1 stats where "rade_text_ldpc_decode fp st obj1 (replicate 10 0) nv = (True, raw, st1, stats)"
    and "text_rx_callback obj1 = text_rx_callback obj" "callback_state obj1 = callback_state obj"
    and "fst (snd (rade_text_rx fp st obj syms symSize)) = rxDeliver obj1 raw"
proof -
  let ?goal = "\<exists>obj1 nv raw st1 stats. rade_text_ldpc_decode fp st obj1 (replicate 10 0) nv = (True, raw, st1, stats) \<and>
    text_rx_callback obj1 = text_rx_callback obj \<and> callback_state obj1 = callback_state obj \<and>
    fst (snd (rade_text_rx fp st obj syms symSize)) = rxDeliver obj1 raw"
  have ?goal
    using assms unfolding rade_text_rx_def Let_def
    by (auto split: prod.splits if_splits; fastforce)
  then show thesis using that by blast
qed

subsection \<open>Properties\<close>

text \<open>
  C1: End to end, in exact arithmetic: whatever callsign is given to the transmitter and whatever both
  sides did before, the receiver of the noiseless symbols decodes them and calls its callback exactly
  once, with the canonical callsign (the first eight characters, upper case, characters outside the
  set dropped) and its length.
\<close>

theorem text_end_to_end:
  fixes syms :: "real list"
  assumes "112 \<le> length syms" and "statics_wf st'" and "text_wf rx" and "text_rx_callback rx = Some cb"
  shows "\<exists>out st1 tx'. rade_text_generate_tx_string real_fpu st tx str (int len) syms (int (length syms)) = Some (out, st1, tx') \<and>
    fst (snd (rade_text_rx real_fpu st' rx out (int (length syms div 2)))) =
      [(cb, canonical str (min len 8), length (canonical str (min len 8)), callback_state rx)]"
proof -
  obtain out st1 tx' where tx: "rade_text_generate_tx_string real_fpu st tx str (int len) syms (int (length syms)) = Some (out, st1, tx')"
    and sent: "pairs out 56 = map (\<lambda>(a, b). qpsk a b) (pairs (interleave_bits (replicate 112 0) (textCodeword str (min len 8)) 56) 56)"
    and fill: "\<forall>j. 112 \<le> j \<and> j < length syms \<longrightarrow> out ! j = (if odd j then 0 else 1)"
    using tx_result [OF assms(1)] by blast
  have "fst (snd (rade_text_rx real_fpu st' rx out (int (length syms div 2)))) =
      [(cb, canonical str (min len 8), length (canonical str (min len 8)), callback_state rx)]"
    using fill by (intro rx_noiseless sent assms(2-4)) auto
  then show ?thesis using tx by blast
qed

theorem text_end_to_end_witness:
  "\<exists>out st1 tx'. rade_text_generate_tx_string real_fpu (text_statics_init real_fpu) (rade_text_create real_fpu :: (real, unit) rade_text)
      [107, 54, 97, 113, 47, 112, 0] (int 6) (replicate 180 0) (int (length (replicate 180 (0 :: real)))) = Some (out, st1, tx') \<and>
    fst (snd (rade_text_rx real_fpu (text_statics_init real_fpu)
        (rade_text_set_rx_callback (rade_text_create real_fpu) (Some ()) 7) out (int (length (replicate 180 (0 :: real)) div 2)))) =
      [((), [75, 54, 65, 81, 47, 80], length [75 :: u8, 54, 65, 81, 47, 80], 7)]"
proof -
  have "canonical [107, 54, 97, 113, 47, 112, 0] (min 6 8) = [75, 54, 65, 81, 47, 80]" by code_simp
  then show ?thesis
    using text_end_to_end [of "replicate 180 0" "text_statics_init real_fpu"
        "rade_text_set_rx_callback (rade_text_create real_fpu) (Some ()) 7" "()" "text_statics_init real_fpu"
        "rade_text_create real_fpu" "[107, 54, 97, 113, 47, 112, 0]" 6]
    by (simp add: statics_wf_def text_statics_init_def text_wf_def rade_text_create_def rade_text_set_rx_callback_def
        bits_def list_all_iff)
qed




end
