(* ===== verification/Rade_Rx.thy ===== *)
theory Rade_Rx
  imports Rade_Tx Rade_Text
begin

text \<open>
  \<^verbatim>\<open>src/src/pipeline/RADEReceiveStep.cpp\<close>: modem samples are collected until the RADE receiver has the
  number it asks for next (\<^verbatim>\<open>rade_nin\<close>, which changes while the receiver tracks the signal), shifted in
  frequency and demodulated; the features go to the FARGAN vocoder frame by frame, the soft bits of an
  end-of-over to the reliable-text decoder of \<open>Rade_Text\<close>. RADE and FARGAN are parameters. The theorems show
  that the step processes the stream in consecutive blocks, never a stale or repeated sample, and what bounds
  its output.
\<close>

subsection \<open>State and operations\<close>

text \<open>
  \<open>rade_rx\<close> gives the features it returned and, when it set \<^verbatim>\<open>has_eoo_out\<close>, the soft bits. \<open>dfloor\<close> is
  \<^verbatim>\<open>floor\<close> converted to \<^verbatim>\<open>int\<close>; \<open>rade_snr\<close> is \<^verbatim>\<open>rade_snrdB_3k_est\<close>, converted to \<^verbatim>\<open>int\<close>.
\<close>

record ('f, 'd, 'dv, 'fg) rx_api =
  rade_nin :: "'dv \<Rightarrow> int"
  rade_rx :: "'dv \<Rightarrow> 'f rade_comp list \<Rightarrow> 'f list \<times> 'f list option \<times> 'dv"
  rade_sync :: "'dv \<Rightarrow> int"
  rade_snr :: "'dv \<Rightarrow> int"
  fargan_synthesize :: "'fg \<Rightarrow> 'f list \<Rightarrow> 'f list \<times> 'fg"
  rx_cosf :: "'f \<Rightarrow> 'f"
  rx_sinf :: "'f \<Rightarrow> 'f"
  dfloor :: "'d \<Rightarrow> int"

text \<open>
  The fields that processing a block changes; \<open>rxOut\<close> holds the samples written to \<open>outputSamples_\<close> in the
  current call (its length is \<open>*numOutputSamples\<close>), \<open>rxEvents\<close> the callbacks of the text decoder.
\<close>

record ('f, 'dv, 'fg, 'cb) rx_core =
  rxDv :: 'dv
  rxFargan :: 'fg
  pendingFeatures :: "'f list"
  pendingFeaturesIdx :: int
  rxText :: "('f text_statics \<times> ('f, 'cb) rade_text) option"
  rxEvents :: "'cb rx_event list"
  rxPhase :: "'f rade_comp"
  rxUt :: "'f fifo option"
  rxSignals :: nat
  rxOut :: "short list"

record ('f, 'dv, 'fg, 'cb) rx_step =
  rxCore :: "('f, 'dv, 'fg, 'cb) rx_core"
  rxInFifo :: "short fifo"
  inputBuf :: "short list"
  syncState :: int
  snr :: int

definition cmult :: "('f, 'd, 'x) fpu_scheme \<Rightarrow> 'f rade_comp \<Rightarrow> 'f rade_comp \<Rightarrow> 'f rade_comp" where
  "cmult fp a b = (fsub fp (fmul fp (fst a) (fst b)) (fmul fp (snd a) (snd b)),
     fadd fp (fmul fp (fst a) (snd b)) (fmul fp (snd a) (fst b)))"

definition cabsolute :: "('f, 'd, 'x) fpu_scheme \<Rightarrow> 'f rade_comp \<Rightarrow> 'f" where
  "cabsolute fp a = fsqrt fp (fadd fp (fmul fp (fst a) (fst a)) (fmul fp (snd a) (snd a)))"

text \<open>The loop of \<open>freq_shift_coh\<close>: the shifted samples and the oscillator's phase.\<close>

fun shiftLoop :: "('f, 'd, 'x) fpu_scheme \<Rightarrow> bool \<Rightarrow> 'f rade_comp \<Rightarrow> 'f rade_comp \<Rightarrow> 'f rade_comp list \<Rightarrow> 'f rade_comp list \<times> 'f rade_comp" where
  "shiftLoop fp shift rect phase [] = ([], phase)"
| "shiftLoop fp shift rect phase (x # xs) =
     (let phase1 = cmult fp phase rect;
          y = (if shift then cmult fp x phase1 else x);
          (ys, phase2) = shiftLoop fp shift rect phase1 xs
      in (y # ys, phase2))"

definition freq_shift_coh :: "('f, 'd, 'x) fpu_scheme \<Rightarrow> ('f, 'd, 'dv, 'fg) rx_api \<Rightarrow> 'f rade_comp list \<Rightarrow> 'f \<Rightarrow> 'f \<Rightarrow> 'f rade_comp \<Rightarrow>
    'f rade_comp list \<times> 'f rade_comp" where
  "freq_shift_coh fp api rx_fdm foff Fs phase =
     (let w = d2f fp (ddiv fp (dmul fp (dmul fp (dlit fp 20 (- 1)) (dlit fp 314159265358979323846 (- 20))) (f2d fp foff)) (f2d fp Fs));
          rect = (rx_cosf api w, rx_sinf api w);
          differs = (\<not> (fle fp foff (flit fp 0 0) \<and> fle fp (flit fp 0 0) foff));
          (out, phase1) = shiftLoop fp differs rect phase rx_fdm;
          mag = cabsolute fp phase1
      in (out, (fdiv fp (fst phase1) mag, fdiv fp (snd phase1) mag)))"

text \<open>The constructor; \<open>cos(0.0)\<close> and \<open>sin(0.0)\<close> are 1 and 0. \<open>inputBuf\<close> starts with indeterminate samples.\<close>

definition rx_new :: "('f, 'd, 'x) fpu_scheme \<Rightarrow> rade_dims \<Rightarrow> 'dv \<Rightarrow> 'fg \<Rightarrow> ('f text_statics \<times> ('f, 'cb) rade_text) option \<Rightarrow> bool \<Rightarrow>
    short list \<Rightarrow> ('f, 'dv, 'fg, 'cb) rx_step" where
  "rx_new fp dims dv fargan textPtr writeFile garbage =
     \<lparr>rxCore = \<lparr>rxDv = dv, rxFargan = fargan, pendingFeatures = replicate (nat (nbFeatures dims)) (f0 fp), pendingFeaturesIdx = 0,
        rxText = textPtr, rxEvents = [], rxPhase = (i2f fp 1, i2f fp 0),
        rxUt = (if writeFile then Some (fifo_new (featureFifoSize dims) None (\<lambda>n. replicate (nat n) (f0 fp))) else None),
        rxSignals = 0, rxOut = []\<rparr>,
      rxInFifo = fifo_new (ninMax dims + 1) None (\<lambda>n. replicate (nat n) 0), inputBuf = garbage, syncState = 0, snr = 0\<rparr>"

definition rxPcm :: "('f, 'd, 'x) fpu_scheme \<Rightarrow> ('f, 'd, 'dv, 'fg) rx_api \<Rightarrow> 'f \<Rightarrow> short" where
  "rxPcm fp api x = word_of_int (dfloor api (dadd fp (dlit fp 5 (- 1))
     (f2d fp (fmin fp (flit fp 32767 0) (fmax fp (flit fp (- 32767) 0) (fmul fp (flit fp 32768 0) x))))))"

text \<open>The body of the loop over the features of a block.\<close>

definition rx_feature :: "('f, 'd, 'x) fpu_scheme \<Rightarrow> rade_dims \<Rightarrow> ('f, 'd, 'dv, 'fg) rx_api \<Rightarrow> ('f, 'dv, 'fg, 'cb) rx_core \<Rightarrow> 'f \<Rightarrow>
    ('f, 'dv, 'fg, 'cb) rx_core" where
  "rx_feature fp dims api c x =
     (let c1 = c\<lparr>pendingFeatures := (pendingFeatures c)[nat (pendingFeaturesIdx c) := x], pendingFeaturesIdx := pendingFeaturesIdx c + 1\<rparr>
      in if pendingFeaturesIdx c1 = nbFeatures dims then
           let (fpcm, fg) = fargan_synthesize api (rxFargan c1) (pendingFeatures c1)
           in c1\<lparr>pendingFeaturesIdx := 0, rxFargan := fg, rxOut := rxOut c1 @ map (rxPcm fp api) fpcm\<rparr>
         else c1)"

text \<open>One block: conversion, frequency shift, demodulation, then text or speech.\<close>

definition rx_block :: "('f, 'd, 'x) fpu_scheme \<Rightarrow> rade_dims \<Rightarrow> ('f, 'd, 'dv, 'fg) rx_api \<Rightarrow> 'f \<Rightarrow> ('f, 'dv, 'fg, 'cb) rx_core \<Rightarrow> short list \<Rightarrow>
    ('f, 'dv, 'fg, 'cb) rx_core" where
  "rx_block fp dims api foff c blk =
     (let cplx = map (\<lambda>x. (d2f fp (ddiv fp (dlit fp (sint x) 0) (dlit fp 327670 (- 1))), flit fp 0 0)) blk;
          (fdm, phase) = freq_shift_coh fp api cplx foff (i2f fp (modemRate dims)) (rxPhase c);
          (features, eoo, dv) = rade_rx api (rxDv c) fdm;
          c1 = c\<lparr>rxPhase := phase, rxDv := dv\<rparr>
      in case eoo of
           Some softBits \<Rightarrow>
             (case rxText c1 of
                None \<Rightarrow> c1
              | Some (st, obj) \<Rightarrow>
                  let (noise, events, stats, st', obj') = rade_text_rx fp st obj softBits (c_div (nEooBits dims) 2)
                  in c1\<lparr>rxText := Some (st', obj'), rxEvents := rxEvents c1 @ events\<rparr>)
         | None \<Rightarrow>
             let (ut, signals) = ut_record (rxUt c1) (rxSignals c1) features
             in foldl (rx_feature fp dims api) (c1\<lparr>rxUt := ut, rxSignals := signals\<rparr>) features)"

partial_function (option) rxLoop :: "('f, 'd, 'x) fpu_scheme \<Rightarrow> rade_dims \<Rightarrow> ('f, 'd, 'dv, 'fg) rx_api \<Rightarrow> 'f \<Rightarrow> ('f, 'dv, 'fg, 'cb) rx_step \<Rightarrow>
    short list \<Rightarrow> ('f, 'dv, 'fg, 'cb) rx_step option" where
  "rxLoop fp dims api foff s inp =
     (if int (length (rxOut (rxCore s))) + frameSize dims < speechRate dims then
        let nin = rade_nin api (rxDv (rxCore s));
            samplesToWrite = min (numFree (rxInFifo s)) (int (length inp));
            f1 = (if samplesToWrite > 0 then snd (fifo_write (rxInFifo s) inp samplesToWrite) else rxInFifo s);
            inp1 = (if samplesToWrite > 0 then drop (nat samplesToWrite) inp else inp)
        in (case fifo_read f1 nin of (r, xs, f2) \<Rightarrow>
             let s1 = s\<lparr>rxInFifo := f2, inputBuf := splice_at 0 xs (inputBuf s)\<rparr>
             in if r \<noteq> 0 \<and> inp1 = [] then Some s1
                else rxLoop fp dims api foff (s1\<lparr>rxCore := rx_block fp dims api foff (rxCore s1) (take (nat nin) (inputBuf s1))\<rparr>) inp1)
      else Some s)"

text \<open>The samples of the call, and the step. The SNR is only taken while in sync.\<close>

definition rx_execute :: "('f, 'd, 'x) fpu_scheme \<Rightarrow> rade_dims \<Rightarrow> ('f, 'd, 'dv, 'fg) rx_api \<Rightarrow> 'f \<Rightarrow> ('f, 'dv, 'fg, 'cb) rx_step \<Rightarrow>
    short list \<Rightarrow> (short list \<times> ('f, 'dv, 'fg, 'cb) rx_step) option" where
  "rx_execute fp dims api foff s inp =
     map_option (\<lambda>s1.
        let sync = rade_sync api (rxDv (rxCore s1));
            s2 = s1\<lparr>syncState := sync\<rparr>;
            s3 = (if sync \<noteq> 0 then s2\<lparr>snr := rade_snr api (rxDv (rxCore s2))\<rparr> else s2)
        in (rxOut (rxCore s3), s3))
       (rxLoop fp dims api foff (s\<lparr>rxCore := (rxCore s)\<lparr>rxOut := []\<rparr>\<rparr>) inp)"

definition rx_reset :: "('f, 'dv, 'fg, 'cb) rx_step \<Rightarrow> ('f, 'dv, 'fg, 'cb) rx_step" where
  "rx_reset s = s\<lparr>rxInFifo := fifo_reset (rxInFifo s), rxCore := (rxCore s)\<lparr>pendingFeaturesIdx := 0\<rparr>\<rparr>"

subsection \<open>Specification: consecutive blocks of the stream\<close>

text \<open>As many blocks as the stream has, each as long as the receiver asks for; what is left waits.\<close>

function rx_spec :: "('f, 'd, 'x) fpu_scheme \<Rightarrow> rade_dims \<Rightarrow> ('f, 'd, 'dv, 'fg) rx_api \<Rightarrow> 'f \<Rightarrow> ('f, 'dv, 'fg, 'cb) rx_core \<Rightarrow> short list \<Rightarrow>
    ('f, 'dv, 'fg, 'cb) rx_core \<times> short list" where
  "rx_spec fp dims api foff c xs =
     (let n = nat (rade_nin api (rxDv c))
      in if n = 0 \<or> length xs < n then (c, xs)
         else rx_spec fp dims api foff (rx_block fp dims api foff c (take n xs)) (drop n xs))"
  by pat_completeness auto
termination by (relation "measure (\<lambda>(fp, dims, api, foff, c, xs). length xs)") auto

declare rx_spec.simps [simp del]

lemma rx_spec_stop: "int (length xs) < rade_nin api (rxDv c) \<Longrightarrow> rx_spec fp dims api foff c xs = (c, xs)"
  by (subst rx_spec.simps) (simp add: Let_def zless_nat_eq_int_zless)

lemma rx_spec_block:
  "0 < rade_nin api (rxDv c) \<Longrightarrow> rade_nin api (rxDv c) \<le> int (length xs) \<Longrightarrow>
   rx_spec fp dims api foff c xs =
     rx_spec fp dims api foff (rx_block fp dims api foff c (take (nat (rade_nin api (rxDv c))) xs)) (drop (nat (rade_nin api (rxDv c))) xs)"
  by (subst rx_spec.simps) (simp add: Let_def zless_nat_eq_int_zless)

lemma rx_spec_rest:
  assumes nin: "\<forall>dv. 0 < rade_nin api dv"
  shows "int (length (snd (rx_spec fp dims api foff c xs))) < rade_nin api (rxDv (fst (rx_spec fp dims api foff c xs)))"
proof (induction "length xs" arbitrary: c xs rule: less_induct)
  case less
  let ?n = "rade_nin api (rxDv c)"
  have n: "0 < ?n" using nin by blast
  show ?case
  proof (cases "int (length xs) < ?n")
    case False
    then have "length (drop (nat ?n) xs) < length xs" using n by simp
    from less [OF this] False n show ?thesis by (simp add: rx_spec_block)
  qed (simp add: rx_spec_stop)
qed

text \<open>Processing in two parts is processing at once.\<close>

lemma rx_spec_append:
  assumes nin: "\<forall>dv. 0 < rade_nin api dv"
  shows "rx_spec fp dims api foff c (xs @ ys) = (case rx_spec fp dims api foff c xs of (c1, r) \<Rightarrow> rx_spec fp dims api foff c1 (r @ ys))"
proof (induction "length xs" arbitrary: c xs rule: less_induct)
  case less
  let ?n = "rade_nin api (rxDv c)"
  have n: "0 < ?n" using nin by blast
  show ?case
  proof (cases "int (length xs) < ?n")
    case False
    then have "length (drop (nat ?n) xs) < length xs" using n by simp
    from less [OF this] False n show ?thesis
      by (simp add: rx_spec_block [of _ _ "xs @ ys"] rx_spec_block [of _ _ xs])
  qed (simp add: rx_spec_stop)
qed

text \<open>The vocoder's part of the state, and its specification on a list of features.\<close>

definition rx_core_ok :: "rade_dims \<Rightarrow> ('f, 'dv, 'fg, 'cb) rx_core \<Rightarrow> bool" where
  "rx_core_ok dims c \<longleftrightarrow> int (length (pendingFeatures c)) = nbFeatures dims \<and> 0 \<le> pendingFeaturesIdx c \<and> pendingFeaturesIdx c < nbFeatures dims"

definition vocode :: "('f, 'd, 'x) fpu_scheme \<Rightarrow> ('f, 'd, 'dv, 'fg) rx_api \<Rightarrow> 'fg \<Rightarrow> 'f list \<Rightarrow> short list \<times> 'fg" where
  "vocode fp api fg v = map_prod (map (rxPcm fp api)) id (fargan_synthesize api fg v)"

definition rx_waiting :: "('f, 'dv, 'fg, 'cb) rx_core \<Rightarrow> 'f list" where
  "rx_waiting c = take (nat (pendingFeaturesIdx c)) (pendingFeatures c)"

lemma rx_features:
  assumes "rx_core_ok dims c" and "c' = foldl (rx_feature fp dims api) c fs"
  shows "rx_core_ok dims c' \<and> rx_waiting c' = leftover (nat (nbFeatures dims)) (rx_waiting c @ fs) \<and> rxDv c' = rxDv c \<and>
    (rxOut c', rxFargan c') = (let (u, fg) = flow (vocode fp api) (rxFargan c) (frames (nat (nbFeatures dims)) (rx_waiting c @ fs))
                               in (rxOut c @ u, fg))"
  using assms
proof (induction fs arbitrary: c c')
  case Nil
  have "length (rx_waiting c) < nat (nbFeatures dims)" using Nil(1) by (auto simp: rx_core_ok_def rx_waiting_def)
  then show ?case using Nil by (simp add: frames_short leftover_short)
next
  case (Cons x fs)
  let ?n = "nat (nbFeatures dims)" and ?i = "nat (pendingFeaturesIdx c)" and ?q = "rx_waiting c @ [x]"
  define c1 where "c1 = rx_feature fp dims api c x"
  have i: "?i < length (pendingFeatures c)" "length (pendingFeatures c) = ?n" "0 < ?n" using Cons.prems(1) by (auto simp: rx_core_ok_def)
  have q: "take (Suc ?i) ((pendingFeatures c)[?i := x]) = ?q" "length ?q = Suc ?i"
    using i by (simp_all add: take_Suc_conv_app_nth rx_waiting_def)
  have one: "rx_core_ok dims c1 \<and> rx_waiting c1 = leftover ?n ?q \<and> rxDv c1 = rxDv c \<and>
    (rxOut c1, rxFargan c1) = (let (u, fg) = flow (vocode fp api) (rxFargan c) (frames ?n ?q) in (rxOut c @ u, fg))"
  proof (cases "pendingFeaturesIdx c + 1 = nbFeatures dims")
    case True
    then have full: "(pendingFeatures c)[?i := x] = ?q" "length ?q = ?n" using Cons.prems(1) q i by (auto simp: rx_core_ok_def)
    have fr: "frames ?n ?q = [?q]" "leftover ?n ?q = []" using frames_exact [OF i(3) full(2)] full(2) i(3) by (simp_all add: leftover_def)
    show ?thesis using True full i(2,3) Cons.prems(1) fr(2)
      by (simp add: c1_def rx_feature_def Let_def fr(1) [unfolded rx_waiting_def] rx_core_ok_def rx_waiting_def vocode_def case_prod_unfold)
  next
    case False
    then have "length ?q < ?n" "nat (pendingFeaturesIdx c + 1) = Suc ?i" using Cons.prems(1) q(2) by (auto simp: rx_core_ok_def)
    then show ?thesis using False q(1) Cons.prems(1)
      by (simp add: c1_def rx_feature_def Let_def frames_short leftover_short rx_core_ok_def rx_waiting_def)
  qed
  have "c' = foldl (rx_feature fp dims api) c1 fs" using Cons.prems(2) by (simp add: c1_def)
  from Cons.IH [OF conjunct1 [OF one] this] one frames_append [OF i(3), of ?q fs]
  show ?case by (simp add: Let_def case_prod_unfold flow_append)
qed

text \<open>Documented of RADE and FARGAN: block sizes, at most \<^verbatim>\<open>rade_n_features_in_out\<close> features, whole frames of speech.\<close>

definition rx_api_ok :: "rade_dims \<Rightarrow> ('f, 'd, 'dv, 'fg) rx_api \<Rightarrow> bool" where
  "rx_api_ok dims api \<longleftrightarrow> (\<forall>dv. 0 < rade_nin api dv \<and> rade_nin api dv \<le> ninMax dims) \<and>
     (\<forall>dv x. int (length (fst (rade_rx api dv x))) \<le> nFeatures dims) \<and>
     (\<forall>fg v. int (length (fst (fargan_synthesize api fg v))) = frameSize dims)"

text \<open>The speech frames that one block can complete.\<close>

definition framesPerBlock :: "rade_dims \<Rightarrow> nat" where
  "framesPerBlock dims = nat (nbFeatures dims - 1 + nFeatures dims) div nat (nbFeatures dims)"

lemma rx_block_out:
  assumes "rx_core_ok dims c" and "rx_api_ok dims api" and "c' = rx_block fp dims api foff c blk"
  shows "rx_core_ok dims c' \<and>
    (\<exists>u. rxOut c' = rxOut c @ u \<and> length u \<le> framesPerBlock dims * nat (frameSize dims))"
proof -
  define cplx where "cplx = map (\<lambda>x. (d2f fp (ddiv fp (dlit fp (sint x) 0) (dlit fp 327670 (- 1))), flit fp 0 0)) blk"
  obtain fdm phase where sh: "freq_shift_coh fp api cplx foff (i2f fp (modemRate dims)) (rxPhase c) = (fdm, phase)" by (rule prod.exhaust)
  obtain features eoo dv where rx: "rade_rx api (rxDv c) fdm = (features, eoo, dv)" by (rule prod_cases3)
  define c1 where "c1 = c\<lparr>rxPhase := phase, rxDv := dv\<rparr>"
  show ?thesis
  proof (cases eoo)
    case (Some softBits)
    have "rx_core_ok dims c' \<and> rxOut c' = rxOut c"
      using assms(1) sh rx Some unfolding assms(3) rx_block_def cplx_def [symmetric]
      by (auto simp: rx_core_ok_def Let_def case_prod_unfold split: option.split)
    then show ?thesis by simp
  next
    case None
    obtain ut sg where ut: "ut_record (rxUt c) (rxSignals c) features = (ut, sg)" by fastforce
    let ?c = "c1\<lparr>rxUt := ut, rxSignals := sg\<rparr>" and ?n = "nat (nbFeatures dims)"
    have c': "c' = foldl (rx_feature fp dims api) ?c features"
      using sh rx None ut unfolding assms(3) rx_block_def cplx_def [symmetric] by (simp add: c1_def Let_def)
    have ok: "rx_core_ok dims ?c" using assms(1) by (simp add: c1_def rx_core_ok_def)
    have n: "0 < ?n" "length (rx_waiting ?c) \<le> nat (nbFeatures dims - 1)" using ok by (auto simp: rx_core_ok_def rx_waiting_def)
    have "int (length features) \<le> nFeatures dims" using assms(2) rx unfolding rx_api_ok_def by (metis fst_conv)
    with n have "length (rx_waiting ?c @ features) \<le> nat (nbFeatures dims - 1 + nFeatures dims)" by (simp add: nat_add_distrib)
    then have "length (frames ?n (rx_waiting ?c @ features)) \<le> framesPerBlock dims"
      unfolding length_frames [OF n(1)] framesPerBlock_def by (rule div_le_mono)
    moreover have "length (fst (vocode fp api fg v)) = nat (frameSize dims)" for fg v
      using assms(2) by (simp add: vocode_def rx_api_ok_def) (metis nat_int)
    ultimately have "length (fst (flow (vocode fp api) (rxFargan ?c) (frames ?n (rx_waiting ?c @ features)))) \<le> framesPerBlock dims * nat (frameSize dims)"
      by (simp add: flow_length [where n = "nat (frameSize dims)"] mult_le_mono1)
    then show ?thesis using rx_features [OF ok c'] by (auto simp: c1_def Let_def case_prod_unfold)
  qed
qed

subsection \<open>The loop meets the specification\<close>

definition rx_ok :: "rade_dims \<Rightarrow> ('f, 'dv, 'fg, 'cb) rx_step \<Rightarrow> bool" where
  "rx_ok dims s \<longleftrightarrow> fifo_inv (rxInFifo s) \<and> capacity (rxInFifo s) = ninMax dims \<and> ninMax dims < 2 ^ 31 \<and>
     int (length (inputBuf s)) = ninMax dims \<and> rx_core_ok dims (rxCore s)"

text \<open>After the write of a round: nothing of the stream is lost, and if input is left then the FIFO is full.\<close>

lemma rx_fill:
  assumes "fifo_inv f" and "n = min (numFree f) (int (length inp))"
    and "f1 = (if n > 0 then snd (fifo_write f inp n) else f)" and "inp1 = (if n > 0 then drop (nat n) inp else inp)"
  shows "fifo_inv f1" and "capacity f1 = capacity f" and "contents f1 @ inp1 = contents f @ inp"
    and "inp1 \<noteq> [] \<Longrightarrow> int (length (contents f1)) = capacity f1"
proof -
  have free: "0 \<le> numFree f" "numFree f = capacity f - int (length (contents f))"
    using fq.free_nonneg [OF assms(1)] fq.free_used [OF assms(1)] fq.used_items [OF assms(1)] by simp_all
  have w: "fifo_inv f1 \<and> contents f1 = contents f @ take (nat n) inp" if "n > 0"
    using fq.write_fits [OF assms(1), of n inp] that assms(2,3) by simp
  show "fifo_inv f1" "capacity f1 = capacity f" "contents f1 @ inp1 = contents f @ inp"
    using w assms(1,3,4) by (cases "n > 0"; simp)+
  assume "inp1 \<noteq> []"
  then have "n = numFree f \<and> nat n \<le> length inp"
    using assms(2,4) free(1) by (auto simp: min_def split: if_splits)
  then show "int (length (contents f1)) = capacity f1"
    using w free assms(3) by (cases "n > 0") auto
qed

text \<open>One round: the next block of the stream is processed, or the loop ends because the stream has none.\<close>

lemma rx_round:
  fixes inp :: "short list"
  assumes "rx_ok dims s" and "rx_api_ok dims api" and guard: "int (length (rxOut (rxCore s))) + frameSize dims < speechRate dims"
  defines "nin \<equiv> rade_nin api (rxDv (rxCore s))" and "xs \<equiv> contents (rxInFifo s) @ inp"
  obtains (stop) s1 where "int (length xs) < nin" and "rxLoop fp dims api foff s inp = Some s1" and "rx_ok dims s1"
      and "rxCore s1 = rxCore s" and "contents (rxInFifo s1) = xs" and "snr s1 = snr s"
    | (block) s1 inp1 where "nin \<le> int (length xs)" and "rxLoop fp dims api foff s inp = rxLoop fp dims api foff s1 inp1" and "rx_ok dims s1"
      and "rxCore s1 = rx_block fp dims api foff (rxCore s) (take (nat nin) xs)" and "contents (rxInFifo s1) @ inp1 = drop (nat nin) xs"
      and "snr s1 = snr s"
proof -
  have s: "fifo_inv (rxInFifo s)" "capacity (rxInFifo s) = ninMax dims" "int (length (inputBuf s)) = ninMax dims" "rx_core_ok dims (rxCore s)"
    and nin: "0 < nin" "nin \<le> ninMax dims" "nin < 2 ^ 31"
    using assms(1,2) unfolding rx_ok_def rx_api_ok_def nin_def by (auto intro: le_less_trans)
  define n where "n = min (numFree (rxInFifo s)) (int (length inp))"
  define f1 where "f1 = (if n > 0 then snd (fifo_write (rxInFifo s) inp n) else rxInFifo s)"
  define inp1 where "inp1 = (if n > 0 then drop (nat n) inp else inp)"
  note fill = rx_fill [OF s(1) n_def f1_def inp1_def]
  have i1: "fifo_inv f1" "capacity f1 = ninMax dims" and c1: "contents f1 @ inp1 = xs"
    and full: "inp1 \<noteq> [] \<Longrightarrow> int (length (contents f1)) = ninMax dims"
    using fill s(2) by (simp_all add: xs_def)
  obtain r ys f2 where rd: "fifo_read f1 nin = (r, ys, f2)" by (rule prod_cases3)
  have used: "numUsed f1 = int (length (contents f1))" and cap2: "capacity f2 = ninMax dims"
    using fq.used_items [OF i1(1)] fq.cap_read [of f1 nin] rd i1(2) by simp_all
  let ?s1 = "s\<lparr>rxInFifo := f2, inputBuf := splice_at 0 ys (inputBuf s)\<rparr>"
  have unf: "rxLoop fp dims api foff s inp =
      (if r \<noteq> 0 \<and> inp1 = [] then Some ?s1
       else rxLoop fp dims api foff (?s1\<lparr>rxCore := rx_block fp dims api foff (rxCore s) (take (nat nin) (splice_at 0 ys (inputBuf s)))\<rparr>) inp1)"
    using guard by (subst rxLoop.simps, simp only: Let_def n_def [symmetric] f1_def [symmetric] inp1_def [symmetric] nin_def [symmetric] rd prod.case if_True simp_thms, simp)
  have len: "length xs = length (contents f1) + length inp1" unfolding c1 [symmetric] by simp
  show thesis
  proof (cases "nin \<le> int (length (contents f1))")
    case False
    then have e: "inp1 = []" using full nin(2) by force
    have "r = -1" "ys = []" "fifo_inv f2" "contents f2 = xs"
      using fq.read_rejected [OF i1(1) nin(3)] used nin(1) False rd e c1 by simp_all
    then show thesis
      using stop [of ?s1] unf e len False s cap2 assms(1) by (simp add: rx_ok_def nin_def)
  next
    case True
    then have g: "r = 0" "ys = take (nat nin) (contents f1)" "fifo_inv f2" "contents f2 = drop (nat nin) (contents f1)"
      using fq.read_available [OF i1(1), of nin] used nin(1) rd by simp_all
    have y: "ys = take (nat nin) xs" "contents f2 @ inp1 = drop (nat nin) xs" "length ys = nat nin"
      using g(2,4) c1 [symmetric] True by simp_all
    have "take (nat nin) (splice_at 0 ys (inputBuf s)) = ys" using y(3) by (simp add: splice_at_def)
    moreover have "length (splice_at 0 ys (inputBuf s)) = length (inputBuf s)"
      using y(3) s(3) nin(2) by (simp add: splice_at_def)
    moreover have "rx_core_ok dims (rx_block fp dims api foff (rxCore s) ys)"
      using rx_block_out [OF s(4) assms(2) refl] by blast
    ultimately show thesis
      using block [of "?s1\<lparr>rxCore := rx_block fp dims api foff (rxCore s) ys\<rparr>" inp1] unf g y s cap2 True len assms(1) by (simp add: rx_ok_def)
  qed
qed

lemma rx_spec_extends:
  assumes "rx_core_ok dims c" and "rx_api_ok dims api"
  shows "\<exists>u. rxOut (fst (rx_spec fp dims api foff c xs)) = rxOut c @ u"
  using assms(1)
proof (induction "length xs" arbitrary: c xs rule: less_induct)
  case less
  let ?n = "rade_nin api (rxDv c)"
  have n: "0 < ?n" using assms(2) by (simp add: rx_api_ok_def)
  show ?case
  proof (cases "int (length xs) < ?n")
    case False
    let ?c = "rx_block fp dims api foff c (take (nat ?n) xs)"
    have "length (drop (nat ?n) xs) < length xs" using False n by simp
    moreover have "rx_core_ok dims ?c" and u: "\<exists>u. rxOut ?c = rxOut c @ u" using rx_block_out [OF less.prems assms(2) refl] by blast+
    ultimately show ?thesis using less.hyps [of "drop (nat ?n) xs" ?c] u False n by (auto simp: rx_spec_block)
  qed (simp add: rx_spec_stop)
qed

text \<open>The number of samples that a stream of \<open>length xs\<close> modem samples can produce.\<close>

lemma rx_spec_out_length:
  assumes "rx_core_ok dims c" and "rx_api_ok dims api" and "\<forall>dv. int m \<le> rade_nin api dv" and "0 < m"
  shows "length (rxOut (fst (rx_spec fp dims api foff c xs))) \<le> length (rxOut c) + length xs div m * (framesPerBlock dims * nat (frameSize dims))"
  using assms(1)
proof (induction "length xs" arbitrary: c xs rule: less_induct)
  case less
  let ?n = "rade_nin api (rxDv c)" and ?K = "framesPerBlock dims * nat (frameSize dims)"
  have n: "0 < ?n" using assms(2) by (simp add: rx_api_ok_def)
  then have m: "m \<le> nat ?n" using assms(3) by (metis le_nat_iff less_imp_le)
  show ?case
  proof (cases "int (length xs) < ?n")
    case False
    let ?c = "rx_block fp dims api foff c (take (nat ?n) xs)"
    have shorter: "length (drop (nat ?n) xs) < length xs" using False n by simp
    obtain u where u: "rx_core_ok dims ?c" "rxOut ?c = rxOut c @ u" "length u \<le> ?K"
      using rx_block_out [OF less.prems assms(2) refl] by blast
    have "length (drop (nat ?n) xs) \<le> length xs - m" using m by simp
    then have "length (drop (nat ?n) xs) div m + 1 \<le> length xs div m"
      using m n False assms(4) by (simp add: le_div_geq div_le_mono)
    then have "length (drop (nat ?n) xs) div m * ?K + ?K \<le> length xs div m * ?K"
      by (metis add.commute add_mult_distrib mult_le_mono1 nat_mult_1)
    then show ?thesis using less.hyps [OF shorter u(1)] u(2,3) False n by (simp add: rx_spec_block)
  qed (simp add: rx_spec_stop)
qed

lemma rxLoop_eq:
  assumes "rx_ok dims s" and "rx_api_ok dims api"
    and "int (length (rxOut (fst (rx_spec fp dims api foff (rxCore s) (contents (rxInFifo s) @ inp))))) + frameSize dims < speechRate dims"
  shows "\<exists>s'. rxLoop fp dims api foff s inp = Some s' \<and> rx_ok dims s' \<and> snr s' = snr s \<and>
    (rxCore s', contents (rxInFifo s')) = rx_spec fp dims api foff (rxCore s) (contents (rxInFifo s) @ inp)"
  using assms(1,3)
proof (induction "length (contents (rxInFifo s) @ inp)" arbitrary: s inp rule: less_induct)
  case less
  let ?xs = "contents (rxInFifo s) @ inp" and ?n = "rade_nin api (rxDv (rxCore s))"
  have n: "0 < ?n" using assms(2) by (simp add: rx_api_ok_def)
  have core: "rx_core_ok dims (rxCore s)" using less.prems(1) by (simp add: rx_ok_def)
  obtain u where "rxOut (fst (rx_spec fp dims api foff (rxCore s) ?xs)) = rxOut (rxCore s) @ u"
    using rx_spec_extends [OF core assms(2)] by blast
  then have guard: "int (length (rxOut (rxCore s))) + frameSize dims < speechRate dims" using less.prems(2) by simp
  show ?case
  proof (rule rx_round [OF less.prems(1) assms(2) guard, of inp fp foff])
    fix s1
    assume "int (length ?xs) < ?n" "rxLoop fp dims api foff s inp = Some s1" "rx_ok dims s1" "rxCore s1 = rxCore s"
      "contents (rxInFifo s1) = ?xs" "snr s1 = snr s"
    then show ?thesis by (simp add: rx_spec_stop)
  next
    fix s1 inp1
    assume s1: "?n \<le> int (length ?xs)" "rxLoop fp dims api foff s inp = rxLoop fp dims api foff s1 inp1" "rx_ok dims s1"
      "rxCore s1 = rx_block fp dims api foff (rxCore s) (take (nat ?n) ?xs)" "contents (rxInFifo s1) @ inp1 = drop (nat ?n) ?xs" "snr s1 = snr s"
    have "length (contents (rxInFifo s1) @ inp1) < length ?xs" unfolding s1(5) using s1(1) n by simp
    from less.hyps [OF this s1(3)] less.prems(2) show ?thesis
      unfolding rx_spec_block [OF n s1(1)] s1(2,4,5,6) by simp
  qed
qed

text \<open>Whatever the input, the loop ends, and the last block is started with room for one frame.\<close>

lemma rxLoop_bound:
  assumes "rx_ok dims s" and "rx_api_ok dims api" and "0 \<le> frameSize dims" and "0 < speechRate dims"
    and "int (length (rxOut (rxCore s))) < speechRate dims + int (framesPerBlock dims * nat (frameSize dims)) - frameSize dims"
  shows "\<exists>s'. rxLoop fp dims api foff s inp = Some s' \<and> rx_ok dims s' \<and> snr s' = snr s \<and>
    int (length (rxOut (rxCore s'))) < speechRate dims + int (framesPerBlock dims * nat (frameSize dims)) - frameSize dims"
  using assms(1,5)
proof (induction "length (contents (rxInFifo s) @ inp)" arbitrary: s inp rule: less_induct)
  case less
  let ?xs = "contents (rxInFifo s) @ inp" and ?n = "rade_nin api (rxDv (rxCore s))"
  have n: "0 < ?n" using assms(2) by (simp add: rx_api_ok_def)
  have core: "rx_core_ok dims (rxCore s)" using less.prems(1) by (simp add: rx_ok_def)
  show ?case
  proof (cases "int (length (rxOut (rxCore s))) + frameSize dims < speechRate dims")
    case False
    then have "rxLoop fp dims api foff s inp = Some s" by (subst rxLoop.simps) simp
    then show ?thesis using less.prems by simp
  next
    case guard: True
    show ?thesis
    proof (rule rx_round [OF less.prems(1) assms(2) guard, of inp fp foff])
      fix s1 inp1
      assume s1: "?n \<le> int (length ?xs)" "rxLoop fp dims api foff s inp = rxLoop fp dims api foff s1 inp1" "rx_ok dims s1"
        "rxCore s1 = rx_block fp dims api foff (rxCore s) (take (nat ?n) ?xs)" "contents (rxInFifo s1) @ inp1 = drop (nat ?n) ?xs" "snr s1 = snr s"
      have "length (contents (rxInFifo s1) @ inp1) < length ?xs" unfolding s1(5) using s1(1) n by simp
      moreover have "int (length (rxOut (rxCore s1))) < speechRate dims + int (framesPerBlock dims * nat (frameSize dims)) - frameSize dims"
      proof -
        obtain u where "rxOut (rxCore s1) = rxOut (rxCore s) @ u" "length u \<le> framesPerBlock dims * nat (frameSize dims)"
          using rx_block_out [OF core assms(2) s1(4)] by blast
        then show ?thesis using guard by (simp only: length_append of_nat_add)
      qed
      ultimately show ?thesis using less.hyps [OF _ s1(3)] s1(2,6) by metis
    qed (use less.prems in auto)
  qed
qed

subsection \<open>Calls\<close>

text \<open>The output written so far does not influence the processing.\<close>

abbreviation rx_prefix :: "short list \<Rightarrow> ('f, 'dv, 'fg, 'cb) rx_core \<Rightarrow> ('f, 'dv, 'fg, 'cb) rx_core" where
  "rx_prefix u c \<equiv> c\<lparr>rxOut := u @ rxOut c\<rparr>"

lemma rx_features_prefix:
  "foldl (rx_feature fp dims api) (rx_prefix u c) fs = rx_prefix u (foldl (rx_feature fp dims api) c fs)"
proof (induction fs arbitrary: c)
  case (Cons x fs)
  have "rx_feature fp dims api (rx_prefix u c) x = rx_prefix u (rx_feature fp dims api c x)"
    by (simp add: rx_feature_def Let_def case_prod_unfold)
  then show ?case using Cons by simp
qed simp

lemma rx_block_prefix: "rx_block fp dims api foff (rx_prefix u c) blk = rx_prefix u (rx_block fp dims api foff c blk)"
proof -
  have e: "(rx_prefix u c)\<lparr>rxPhase := p, rxDv := dv, rxUt := ut, rxSignals := sg\<rparr> =
      rx_prefix u (c\<lparr>rxPhase := p, rxDv := dv, rxUt := ut, rxSignals := sg\<rparr>)" for p dv ut sg
    by (rule rx_core.equality) simp_all
  have "foldl (rx_feature fp dims api) ((rx_prefix u c)\<lparr>rxPhase := p, rxDv := dv, rxUt := ut, rxSignals := sg\<rparr>) fs =
      rx_prefix u (foldl (rx_feature fp dims api) (c\<lparr>rxPhase := p, rxDv := dv, rxUt := ut, rxSignals := sg\<rparr>) fs)" for p dv ut sg fs
    unfolding e by (rule rx_features_prefix)
  then show ?thesis
    by (simp add: rx_block_def Let_def case_prod_unfold split: option.split)
qed

lemma rx_spec_prefix:
  "rx_spec fp dims api foff (rx_prefix u c) xs = map_prod (rx_prefix u) id (rx_spec fp dims api foff c xs)"
proof (induction fp dims api foff c xs rule: rx_spec.induct)
  case (1 fp dims api foff c xs)
  let ?n = "nat (rade_nin api (rxDv c))"
  show ?case
  proof (cases "?n = 0 \<or> length xs < ?n")
    case False
    with 1 [OF refl] show ?thesis
      by (simp add: rx_spec.simps [of _ _ _ _ "rx_prefix u c" xs] rx_spec.simps [of _ _ _ _ c xs] rx_block_prefix Let_def)
  next
    case True
    then show ?thesis by (simp add: rx_spec.simps [of _ _ _ _ "rx_prefix u c" xs] rx_spec.simps [of _ _ _ _ c xs])
  qed
qed

lemma rx_execute_loop:
  "rxLoop fp dims api foff (s\<lparr>rxCore := (rxCore s)\<lparr>rxOut := []\<rparr>\<rparr>) inp = Some s1 \<Longrightarrow>
   \<exists>s'. rx_execute fp dims api foff s inp = Some (rxOut (rxCore s1), s')"
  by (simp add: rx_execute_def Let_def)

lemma rx_call:
  assumes "rx_ok dims s" and "rx_api_ok dims api" and "c = (rxCore s)\<lparr>rxOut := []\<rparr>"
    and "int (length (rxOut (fst (rx_spec fp dims api foff c (contents (rxInFifo s) @ inp))))) + frameSize dims < speechRate dims"
  obtains s' where "rx_execute fp dims api foff s inp = Some (rxOut (fst (rx_spec fp dims api foff c (contents (rxInFifo s) @ inp))), s')"
    and "rx_ok dims s'" and "(rxCore s', contents (rxInFifo s')) = rx_spec fp dims api foff c (contents (rxInFifo s) @ inp)"
    and "syncState s' = rade_sync api (rxDv (rxCore s'))" and "snr s' = (if syncState s' \<noteq> 0 then rade_snr api (rxDv (rxCore s')) else snr s)"
proof -
  let ?s = "s\<lparr>rxCore := c\<rparr>"
  have ok: "rx_ok dims ?s" using assms(1,3) by (simp add: rx_ok_def rx_core_ok_def)
  obtain s1 where s1: "rxLoop fp dims api foff ?s inp = Some s1" "rx_ok dims s1" "snr s1 = snr s"
      "(rxCore s1, contents (rxInFifo s1)) = rx_spec fp dims api foff c (contents (rxInFifo s) @ inp)"
    using rxLoop_eq [OF ok assms(2), of fp foff inp] assms(4) by auto
  have core: "rxCore s1 = fst (rx_spec fp dims api foff c (contents (rxInFifo s) @ inp))"
    "contents (rxInFifo s1) = snd (rx_spec fp dims api foff c (contents (rxInFifo s) @ inp))"
    using s1(4) by (metis fst_conv, metis snd_conv)
  define s2 where "s2 = s1\<lparr>syncState := rade_sync api (rxDv (rxCore s1))\<rparr>"
  define s3 where "s3 = (if syncState s2 \<noteq> 0 then s2\<lparr>snr := rade_snr api (rxDv (rxCore s2))\<rparr> else s2)"
  have ex: "rx_execute fp dims api foff s inp = Some (rxOut (rxCore s1), s3)"
    using s1(1) assms(3) by (simp add: rx_execute_def Let_def s3_def s2_def)
  show thesis
  proof (rule that)
    show "rx_execute fp dims api foff s inp = Some (rxOut (fst (rx_spec fp dims api foff c (contents (rxInFifo s) @ inp))), s3)"
      using ex core(1) by simp
    show "rx_ok dims s3" "(rxCore s3, contents (rxInFifo s3)) = rx_spec fp dims api foff c (contents (rxInFifo s) @ inp)"
      using s1(2) core by (simp_all add: s3_def s2_def rx_ok_def)
    show "syncState s3 = rade_sync api (rxDv (rxCore s3))" "snr s3 = (if syncState s3 \<noteq> 0 then rade_snr api (rxDv (rxCore s3)) else snr s)"
      using s1(3) by (simp_all add: s3_def s2_def)
  qed
qed

lemma rx_execute_bound:
  assumes "rx_ok dims s" and "rx_api_ok dims api" and "0 < frameSize dims" and "frameSize dims < speechRate dims"
  shows "\<exists>out s'. rx_execute fp dims api foff s inp = Some (out, s') \<and> rx_ok dims s' \<and>
    int (length out) < speechRate dims + (int (framesPerBlock dims) - 1) * frameSize dims \<and>
    syncState s' = rade_sync api (rxDv (rxCore s')) \<and>
    snr s' = (if syncState s' \<noteq> 0 then rade_snr api (rxDv (rxCore s')) else snr s)"
proof -
  let ?s = "s\<lparr>rxCore := (rxCore s)\<lparr>rxOut := []\<rparr>\<rparr>"
  have ok: "rx_ok dims ?s" using assms(1) by (simp add: rx_ok_def rx_core_ok_def)
  have room: "speechRate dims + int (framesPerBlock dims * nat (frameSize dims)) - frameSize dims =
      speechRate dims + (int (framesPerBlock dims) - 1) * frameSize dims"
    using assms(3) by (simp add: left_diff_distrib)
  have "0 \<le> int (framesPerBlock dims * nat (frameSize dims))" "length (rxOut (rxCore ?s)) = 0" by simp_all
  then have "int (length (rxOut (rxCore ?s))) < speechRate dims + int (framesPerBlock dims * nat (frameSize dims)) - frameSize dims"
    using assms(3,4) by linarith
  from rxLoop_bound [OF ok assms(2) _ _ this, of fp foff inp] assms(3,4) obtain s1 where
    s1: "rxLoop fp dims api foff ?s inp = Some s1" "rx_ok dims s1" "snr s1 = snr s"
      "int (length (rxOut (rxCore s1))) < speechRate dims + (int (framesPerBlock dims) - 1) * frameSize dims"
    unfolding room by auto
  then show ?thesis
    by (simp add: rx_execute_def Let_def rx_ok_def)
qed

text \<open>Every call of at most \<open>L\<close> samples fits the output buffer, when a block has at least \<open>m\<close> samples.\<close>

definition rx_call_fits :: "rade_dims \<Rightarrow> nat \<Rightarrow> nat \<Rightarrow> bool" where
  "rx_call_fits dims m L \<longleftrightarrow>
     int ((nat (ninMax dims) + L) div m * (framesPerBlock dims * nat (frameSize dims))) + frameSize dims < speechRate dims"

lemma rx_calls:
  assumes "rx_api_ok dims api" and "\<forall>dv. int m \<le> rade_nin api dv" and "0 < m" and "rx_call_fits dims m L"
    and "list_all (\<lambda>x. length x \<le> L) inputs" and "rx_ok dims s" and "int (length (contents (rxInFifo s))) < rade_nin api (rxDv (rxCore s))"
  shows "\<exists>s'. runCalls (rx_execute fp dims api foff) s inputs =
      Some (rxOut (fst (rx_spec fp dims api foff ((rxCore s)\<lparr>rxOut := []\<rparr>) (contents (rxInFifo s) @ concat inputs))), s')"
  using assms(5-7)
proof (induction inputs arbitrary: s)
  case (Cons x xs)
  let ?c = "(rxCore s)\<lparr>rxOut := []\<rparr>" and ?p = "contents (rxInFifo s)"
  let ?K = "framesPerBlock dims * nat (frameSize dims)"
  have core: "rx_core_ok dims ?c" and inv: "fifo_inv (rxInFifo s)" "capacity (rxInFifo s) = ninMax dims"
    using Cons.prems(2) by (simp_all add: rx_ok_def rx_core_ok_def)
  have "length ?p \<le> nat (ninMax dims)" using fq.items_bounded [OF inv(1)] inv(2) by simp
  then have "length (?p @ x) div m \<le> (nat (ninMax dims) + L) div m" using Cons.prems(1) by (intro div_le_mono) simp
  then have "length (?p @ x) div m * ?K \<le> (nat (ninMax dims) + L) div m * ?K" by (rule mult_le_mono1)
  then have "length (rxOut (fst (rx_spec fp dims api foff ?c (?p @ x)))) \<le> (nat (ninMax dims) + L) div m * ?K"
    using order_trans [OF rx_spec_out_length [OF core assms(1,2,3), of fp foff "?p @ x"]] by simp
  then have "int (length (rxOut (fst (rx_spec fp dims api foff ?c (?p @ x))))) + frameSize dims < speechRate dims"
    using assms(4) unfolding rx_call_fits_def by linarith
  from rx_call [OF Cons.prems(2) assms(1) refl this] obtain s1 where
    s1: "rx_execute fp dims api foff s x = Some (rxOut (fst (rx_spec fp dims api foff ?c (?p @ x))), s1)" "rx_ok dims s1"
      "(rxCore s1, contents (rxInFifo s1)) = rx_spec fp dims api foff ?c (?p @ x)" .
  obtain c1 r where sp: "rx_spec fp dims api foff ?c (?p @ x) = (c1, r)" by fastforce
  have "rx_spec fp dims api foff c1 zs = map_prod (rx_prefix (rxOut c1)) id (rx_spec fp dims api foff (c1\<lparr>rxOut := []\<rparr>) zs)" for zs
    using rx_spec_prefix [of fp dims api foff "rxOut c1" "c1\<lparr>rxOut := []\<rparr>" zs] by simp
  then have out: "rxOut (fst (rx_spec fp dims api foff c1 zs)) = rxOut c1 @ rxOut (fst (rx_spec fp dims api foff (c1\<lparr>rxOut := []\<rparr>) zs))" for zs
    by (simp add: case_prod_unfold)
  have split: "rx_spec fp dims api foff ?c (?p @ x @ concat xs) = rx_spec fp dims api foff c1 (r @ concat xs)"
    using rx_spec_append [of api fp dims foff ?c "?p @ x" "concat xs"] assms(1) sp by (simp add: rx_api_ok_def)
  have "list_all (\<lambda>x. length x \<le> L) xs" using Cons.prems(1) by simp
  moreover have "int (length (contents (rxInFifo s1))) < rade_nin api (rxDv (rxCore s1))"
    using rx_spec_rest [of api fp dims foff ?c "?p @ x"] assms(1) s1(3) [symmetric] by (simp add: rx_api_ok_def)
  ultimately obtain s' where
    "runCalls (rx_execute fp dims api foff) s1 xs = Some (rxOut (fst (rx_spec fp dims api foff (c1\<lparr>rxOut := []\<rparr>) (r @ concat xs))), s')"
    using Cons.IH [OF _ s1(2)] s1(3) sp by auto
  then show ?case using s1(1) sp split by (simp add: out)
next
  case Nil
  then show ?case
    by (simp add: rx_spec_stop)
qed

subsection \<open>Properties\<close>

lemma rx_new_ok:
  assumes "0 < ninMax dims" and "ninMax dims < 2 ^ 31 - 1" and "0 < nbFeatures dims" and "int (length garbage) = ninMax dims"
  shows "rx_ok dims (rx_new fp dims dv fg txt' ut garbage)" "contents (rxInFifo (rx_new fp dims dv fg txt' ut garbage)) = []"
  using assms fresh_fifo [of "ninMax dims + 1" "0 :: short"] by (simp_all add: rx_ok_def rx_core_ok_def rx_new_def)

text \<open>A small instance: blocks of three and two samples in turn, four features a block.\<close>

definition demo_rx :: "(int, int, int, int) rx_api" where
  "demo_rx = \<lparr>rade_nin = (\<lambda>dv. if even dv then 3 else 2), rade_rx = (\<lambda>dv x. ([dv, 1, 0, int (length x)], None, dv + 1)),
     rade_sync = (\<lambda>dv. if dv > 2 then 1 else 0), rade_snr = (\<lambda>dv. 7 * dv), fargan_synthesize = (\<lambda>fg v. ([hd v, last v], fg)),
     rx_cosf = id, rx_sinf = id, dfloor = id\<rparr>"

text \<open>
  C22: RADEReceiveStep::execute called on a stream of modem samples cut into calls of at most \<open>L\<close> samples
  always returns, and the joined speech is what the receiver and the vocoder make of the consecutive blocks
  of the whole stream, each as long as rade_nin asked for at that moment. No block contains a sample left
  over in inputBuf_ from an earlier one, although execute does not test the result of read while input is
  left, and no sample is lost or used twice.
\<close>

theorem rx_stream:
  assumes "rx_api_ok dims api" and "\<forall>dv. int m \<le> rade_nin api dv" and "0 < m" and "rx_call_fits dims m L"
    and "list_all (\<lambda>x. length x \<le> L) inputs" and "0 < ninMax dims" and "ninMax dims < 2 ^ 31 - 1" and "0 < nbFeatures dims"
    and "int (length garbage) = ninMax dims"
  shows "\<exists>s'. runCalls (rx_execute fp dims api foff) (rx_new fp dims dv fg txt' ut garbage) inputs =
    Some (rxOut (fst (rx_spec fp dims api foff (rxCore (rx_new fp dims dv fg txt' ut garbage)) (concat inputs))), s')"
proof -
  note new = rx_new_ok [OF assms(6-9), of fp dv fg txt' ut]
  have "(rxCore (rx_new fp dims dv fg txt' ut garbage))\<lparr>rxOut := []\<rparr> = rxCore (rx_new fp dims dv fg txt' ut garbage)"
    by (simp add: rx_new_def)
  moreover have "0 < rade_nin api (rxDv (rxCore (rx_new fp dims dv fg txt' ut garbage)))" using assms(1) by (simp add: rx_api_ok_def)
  ultimately show ?thesis
    using rx_calls [OF assms(1-5) new(1), of fp foff] new(2) by simp
qed

theorem rx_stream_witness:
  "\<exists>s'. runCalls (rx_execute int_fpu demo_dims demo_rx 0) (rx_new int_fpu demo_dims 0 0 (None :: (int text_statics \<times> (int, unit) rade_text) option) False [9, 9, 9, 9, 9, 9])
      [[1, 2], [3, 4], [5], [6]] = Some ([0, 32767, 0, 32767, 32767, 32767, 0, 32767], s')"
proof -
  have eval: "rxOut (fst (rx_spec int_fpu demo_dims demo_rx 0 (rxCore (rx_new int_fpu demo_dims 0 0
      (None :: (int text_statics \<times> (int, unit) rade_text) option) False [9, 9, 9, 9, 9, 9])) (concat [[1, 2], [3, 4], [5], [6]]))) =
    [0, 32767, 0, 32767, 32767, 32767, 0, 32767]"
    by code_simp
  show ?thesis
    using rx_stream [of demo_dims demo_rx 2 2 "[[1, 2], [3, 4], [5], [6]]" "[9, 9, 9, 9, 9, 9]" int_fpu 0 0 0
        "None :: (int text_statics \<times> (int, unit) rade_text) option" False] unfolding eval
    by (simp add: demo_dims_def demo_rx_def rx_api_ok_def rx_call_fits_def framesPerBlock_def)
qed



text \<open>An instance in which a block completes three frames of speech.\<close>

definition tight_dims :: rade_dims where
  "tight_dims = \<lparr>modemRate = 40, speechRate = 9, frameSize = 2, nbFeatures = 2, nFeatures = 6, nTxOut = 3, nTxEooOut = 2,
     ninMax = 3, nEooBits = 4\<rparr>"

definition tight_rx :: "(int, int, int, int) rx_api" where
  "tight_rx = demo_rx\<lparr>rade_rx := (\<lambda>dv x. ([dv, 1, 0, 1, 2, 3], None, dv + 1))\<rparr>"

text \<open>
  The reserve of one frame is not enough: there is a modem within the documented bounds and an
  input for which execute writes more samples than outputSamples_ has.
\<close>

theorem rx_output_overflow:
  "rx_api_ok tight_dims tight_rx \<and>
   (\<exists>out s'. rx_execute int_fpu tight_dims tight_rx 0 (rx_new int_fpu tight_dims 0 0 (None :: (int text_statics \<times> (int, unit) rade_text) option) False [9, 9, 9])
      [1, 2, 3, 4, 5] = Some (out, s') \<and> speechRate tight_dims < int (length out))"
proof
  show api: "rx_api_ok tight_dims tight_rx" by (simp add: rx_api_ok_def tight_dims_def tight_rx_def demo_rx_def)
  let ?dims = tight_dims and ?api = tight_rx
  let ?s = "rx_new int_fpu ?dims 0 0 (None :: (int text_statics \<times> (int, unit) rade_text) option) False [9, 9, 9]"
  define c1 where "c1 = rx_block int_fpu ?dims ?api 0 (rxCore ?s) [1, 2, 3]"
  define c2 where "c2 = rx_block int_fpu ?dims ?api 0 c1 [4, 5]"
  have sizes: "length (rxOut c1) = 6 \<and> rxDv c1 = 1" "length (rxOut c2) = 12" unfolding c2_def c1_def by code_simp+
  have ok: "rx_ok ?dims ?s" "contents (rxInFifo ?s) = []" by (rule rx_new_ok; simp add: tight_dims_def)+
  have nin: "rade_nin ?api 0 = 3" "rade_nin ?api 1 = 2" "rxDv (rxCore ?s) = 0" by (simp_all add: tight_rx_def demo_rx_def rx_new_def)
  have g0: "int (length (rxOut (rxCore ?s))) + frameSize ?dims < speechRate ?dims" by (simp add: rx_new_def tight_dims_def)
  obtain s1 inp1 where s1: "rxLoop int_fpu ?dims ?api 0 ?s [1, 2, 3, 4, 5] = rxLoop int_fpu ?dims ?api 0 s1 inp1" "rx_ok ?dims s1"
      "rxCore s1 = c1" "contents (rxInFifo s1) @ inp1 = [4, 5]"
    by (rule rx_round [OF ok(1) api g0, of "[1, 2, 3, 4, 5]" int_fpu 0]) (simp_all add: ok(2) nin c1_def numeral_eq_Suc)
  have g1: "int (length (rxOut (rxCore s1))) + frameSize ?dims < speechRate ?dims" by (simp add: s1(3) sizes tight_dims_def)
  obtain s2 inp2 where s2: "rxLoop int_fpu ?dims ?api 0 s1 inp1 = rxLoop int_fpu ?dims ?api 0 s2 inp2" "rxCore s2 = c2"
    by (rule rx_round [OF s1(2) api g1, of inp1 int_fpu 0]) (simp_all add: s1(3,4) sizes nin c2_def numeral_eq_Suc)
  have "rxLoop int_fpu ?dims ?api 0 s2 inp2 = Some s2" by (subst rxLoop.simps) (simp add: s2(2) sizes tight_dims_def)
  then have "rxLoop int_fpu ?dims ?api 0 ?s [1, 2, 3, 4, 5] = Some s2" using s1(1) s2(1) by simp
  then have "rxLoop int_fpu ?dims ?api 0 (?s\<lparr>rxCore := (rxCore ?s)\<lparr>rxOut := []\<rparr>\<rparr>) [1, 2, 3, 4, 5] = Some s2"
    by (simp add: rx_new_def)
  from rx_execute_loop [OF this] have "\<exists>s'. rx_execute int_fpu ?dims ?api 0 ?s [1, 2, 3, 4, 5] = Some (rxOut c2, s')"
    by (simp add: s2(2))
  moreover have "speechRate ?dims < int (length (rxOut c2))" by (simp add: sizes(2) tight_dims_def)
  ultimately show "\<exists>out s'. rx_execute int_fpu ?dims ?api 0 ?s [1, 2, 3, 4, 5] = Some (out, s') \<and> speechRate ?dims < int (length out)"
    by blast
qed

end
