(* ===== verification/Thread_Steps.thy ===== *)
theory Thread_Steps
  imports Step_Dispatch Rade_Rx
begin

text \<open>
  The steps of the transmit and receive pipelines of \<^verbatim>\<open>src/src/pipeline/MinimalTxRxThread.cpp\<close>: the steps of
  \<open>Step_Dispatch\<close> together with the two RADE steps. They fulfil the contract of a pipeline step, so the
  pipelines that \<open>initializePipeline_\<close> assembles always return.
\<close>

subsection \<open>Dispatch\<close>

datatype ('f, 'd, 'eb, 'ag, 'rn, 'bw, 'src, 'dv, 'enc, 'fg, 'cb) tstep =
    BaseS "('f, 'd, 'eb, 'ag, 'rn, 'bw, 'src) pstep"
  | RadeTxS "('f, 'dv, 'enc) tx_step"
  | RadeRxS "('f, 'dv, 'fg, 'cb) rx_step"

record ('f, 'd, 'eb, 'ag, 'rn, 'bw, 'src, 'dv, 'enc, 'fg) thread_env =
  te_step :: "('f, 'd, 'eb, 'ag, 'rn, 'bw, 'src) step_env"
  te_dims :: rade_dims
  te_tx :: "('f, 'dv, 'enc) tx_api"
  te_rx :: "('f, 'd, 'dv, 'fg) rx_api"

text \<open>
  The function objects of \<open>initializePipeline_\<close>: the level of the transmitter is \<open>TxScaleFactor_\<close>, the
  frequency offset of the receiver is zero.
\<close>

definition txScaleFactor :: "('f, 'd, 'x) fpu_scheme \<Rightarrow> 'f" where
  "txScaleFactor fp = flit fp 20 (- 1)"

definition te_base :: "('f, 'd, 'eb, 'ag, 'rn, 'bw, 'src, 'dv, 'enc, 'fg) thread_env \<Rightarrow> ('f, 'd, 'eb, 'ag, 'rn, 'bw, 'src) step_env" where
  "te_base env = (te_step env)\<lparr>scaleFactorFn := (\<lambda>_. txScaleFactor (env_fpu (te_step env)))\<rparr>"

fun tstep_in_rate :: "('f, 'd, 'eb, 'ag, 'rn, 'bw, 'src, 'dv, 'enc, 'fg) thread_env \<Rightarrow>
    ('f, 'd, 'eb, 'ag, 'rn, 'bw, 'src, 'dv, 'enc, 'fg, 'cb) tstep \<Rightarrow> int" where
  "tstep_in_rate env (BaseS s) = pstep_in_rate s"
| "tstep_in_rate env (RadeTxS s) = speechRate (te_dims env)"
| "tstep_in_rate env (RadeRxS s) = modemRate (te_dims env)"

fun tstep_out_rate :: "('f, 'd, 'eb, 'ag, 'rn, 'bw, 'src, 'dv, 'enc, 'fg) thread_env \<Rightarrow>
    ('f, 'd, 'eb, 'ag, 'rn, 'bw, 'src, 'dv, 'enc, 'fg, 'cb) tstep \<Rightarrow> int" where
  "tstep_out_rate env (BaseS s) = pstep_out_rate s"
| "tstep_out_rate env (RadeTxS s) = modemRate (te_dims env)"
| "tstep_out_rate env (RadeRxS s) = speechRate (te_dims env)"

fun tstep_execute :: "('f, 'd, 'eb, 'ag, 'rn, 'bw, 'src, 'dv, 'enc, 'fg) thread_env \<Rightarrow>
    ('f, 'd, 'eb, 'ag, 'rn, 'bw, 'src, 'dv, 'enc, 'fg, 'cb) tstep \<Rightarrow> short list \<Rightarrow>
    (short list \<times> ('f, 'd, 'eb, 'ag, 'rn, 'bw, 'src, 'dv, 'enc, 'fg, 'cb) tstep) option" where
  "tstep_execute env (BaseS s) inp = map_option (map_prod id BaseS) (pstep_execute (te_base env) s inp)"
| "tstep_execute env (RadeTxS s) inp =
     map_option (map_prod id RadeTxS) (tx_execute (env_fpu (te_step env)) (te_dims env) (te_tx env) s inp)"
| "tstep_execute env (RadeRxS s) inp =
     map_option (map_prod id RadeRxS) (rx_execute (env_fpu (te_step env)) (te_dims env) (te_rx env) (flit (env_fpu (te_step env)) 0 0) s inp)"

fun tstep_reset :: "('f, 'd, 'eb, 'ag, 'rn, 'bw, 'src, 'dv, 'enc, 'fg) thread_env \<Rightarrow>
    ('f, 'd, 'eb, 'ag, 'rn, 'bw, 'src, 'dv, 'enc, 'fg, 'cb) tstep \<Rightarrow>
    ('f, 'd, 'eb, 'ag, 'rn, 'bw, 'src, 'dv, 'enc, 'fg, 'cb) tstep option" where
  "tstep_reset env (BaseS s) = map_option BaseS (pstep_reset (te_base env) s)"
| "tstep_reset env (RadeTxS s) = Some (RadeTxS (tx_reset s))"
| "tstep_reset env (RadeRxS s) = Some (RadeRxS (rx_reset s))"

definition tstep_ops :: "('f, 'd, 'eb, 'ag, 'rn, 'bw, 'src, 'dv, 'enc, 'fg) thread_env \<Rightarrow>
    ('f, 'd, 'eb, 'ag, 'rn, 'bw, 'src, 'dv, 'enc, 'fg, 'cb) tstep step_ops" where
  "tstep_ops env = \<lparr>getInputSampleRate = tstep_in_rate env, getOutputSampleRate = tstep_out_rate env,
     step_execute = tstep_execute env, step_reset = tstep_reset env\<rparr>"

subsection \<open>The transmit step always returns\<close>

lemma tx_feature_keeps:
  assumes "tx_ok dims s" and "dims_ok dims" and "k < 2 ^ 31" and "(s', k') = tx_feature fp dims api (s, k) x"
  shows "tx_ok dims s' \<and> txInFifo s' = txInFifo s \<and> k' < 2 ^ 31"
proof -
  obtain iq dv where tx: "rade_tx api (txDv s) ((featureList s)[nat (featureListIdx s) := x]) = (iq, dv)" by (rule prod.exhaust)
  let ?f = "snd (fifo_write (txOutFifo s) (map (txShort fp) iq) (int (length iq)))"
  have f: "fifo_inv ?f" "capacity ?f = modemRate dims - 1"
    using fq.inv_write [of "txOutFifo s" "int (length iq)" "map (txShort fp) iq"] assms(1) by (simp_all add: tx_ok_def)
  then have "numUsed ?f < 2 ^ 31"
    using fq.free_used [OF f(1)] fq.free_nonneg [OF f(1)] assms(2) by (simp add: dims_ok_def)
  then show ?thesis using f assms by (auto simp: tx_feature_def Let_def tx tx_ok_def dims_ok_def split: if_splits)
qed

lemma tx_features_keep:
  assumes "dims_ok dims" and "tx_ok dims s" and "k < 2 ^ 31" and "(s', k') = foldl (tx_feature fp dims api) (s, k) fs"
  shows "tx_ok dims s' \<and> txInFifo s' = txInFifo s \<and> k' < 2 ^ 31"
  using assms(2-4)
proof (induction fs arbitrary: s k)
  case (Cons x fs)
  obtain s1 k1 where e: "tx_feature fp dims api (s, k) x = (s1, k1)" by (rule prod.exhaust)
  then show ?case
    using tx_feature_keeps [OF Cons.prems(1) assms(1) Cons.prems(2) e [symmetric]] Cons.IH [of s1 k1] Cons.prems(3) by simp
qed simp

lemma txLoop_returns:
  assumes "dims_ok dims" and "tx_ok dims s" and "k < 2 ^ 31"
  shows "\<exists>s' k'. txLoop fp dims api s inp k = Some (s', k') \<and> tx_ok dims s' \<and> k' < 2 ^ 31"
  using assms(2,3)
proof (induction "length inp" arbitrary: s inp k rule: less_induct)
  case less
  let ?F = "nat (frameSize dims)" and ?p = "contents (txInFifo s)"
  show ?case
  proof (cases "k + nTxOut dims < modemRate dims")
    case guard: True
    obtain n f1 where n: "min (numFree (txInFifo s)) (int (length inp)) = int n" "n = min (?F - length ?p) (length inp)"
      and f1: "snd (fifo_write (txInFifo s) inp (int n)) = f1" "fifo_inv f1" "contents f1 = ?p @ take n inp" "capacity f1 = frameSize dims"
      and stop: "0 < numFree f1 \<longleftrightarrow> length ?p + length inp < ?F" and p: "length ?p < ?F"
      using tx_fill [OF less.prems(1) assms(1)] .
    show ?thesis
    proof (cases "length ?p + length inp < ?F")
      case True
      have "tx_ok dims (s\<lparr>txInFifo := f1\<rparr>)" using less.prems f1 True n(2) by (auto simp: tx_ok_def)
      then show ?thesis using guard n(1) f1(1) stop True less.prems(2) by (subst txLoop.simps) (simp add: Let_def)
    next
      case False
      obtain r pcm f2 where rd: "fifo_read f1 (frameSize dims) = (r, pcm, f2)" by (rule prod_cases3)
      have F: "0 \<le> frameSize dims" "frameSize dims < 2 ^ 31" "0 < frameSize dims" using assms(1) by (auto simp: dims_ok_def)
      have full: "length (contents f1) = ?F" using False p n(2) f1(3) by auto
      have f2: "fifo_inv f2" "capacity f2 = frameSize dims" "contents f2 = []"
        using fq.read_available [OF f1(2), of "frameSize dims"] fq.used_items [OF f1(2)] fq.cap_read [of f1 "frameSize dims"] full F rd f1(4)
        by simp_all
      obtain fs enc where lp: "lpcnet_features api (txEnc s) pcm = (fs, enc)" by (rule prod.exhaust)
      obtain ut sg where ut: "ut_record (txUt s) (txSignals s) fs = (ut, sg)" by (rule prod.exhaust)
      let ?s1 = "s\<lparr>txInFifo := f2, txEnc := enc, txUt := ut, txSignals := sg\<rparr>"
      have ok1: "tx_ok dims ?s1" using less.prems f2 F by (simp add: tx_ok_def)
      obtain s2 k2 where s2: "foldl (tx_feature fp dims api) (?s1, k) fs = (s2, k2)" by (rule prod.exhaust)
      have "tx_ok dims s2" "k2 < 2 ^ 31" using tx_features_keep [OF assms(1) ok1 less.prems(2) s2 [symmetric]] by simp_all
      moreover have "length (drop n inp) < length inp" using False p n(2) by auto
      ultimately have "\<exists>s' k'. txLoop fp dims api s2 (drop n inp) k2 = Some (s', k') \<and> tx_ok dims s' \<and> k' < 2 ^ 31"
        using less.hyps by blast
      then show ?thesis using guard n(1) f1(1) stop False rd lp ut s2 by (subst txLoop.simps) (simp add: Let_def)
    qed
  next
    case False
    then show ?thesis using less.prems by (subst txLoop.simps) simp
  qed
qed

lemma tx_take_keeps:
  assumes "tx_ok dims s" and "dims_ok dims" and "k < 2 ^ 31"
  shows "tx_ok dims (snd (tx_take s k))"
proof (cases "0 < k")
  case True
  obtain r out f where rd: "fifo_read (txOutFifo s) k = (r, out, f)" by (rule prod_cases3)
  have "fifo_inv f" "capacity f = capacity (txOutFifo s)"
    using fq.inv_read [of "txOutFifo s" k] fq.cap_read [of "txOutFifo s" k] assms True rd by (simp_all add: tx_ok_def)
  then show ?thesis using assms True rd by (simp add: tx_take_def tx_ok_def)
qed (use assms in \<open>simp add: tx_take_def\<close>)

lemma tx_execute_returns:
  assumes "dims_ok dims" and "tx_ok dims s"
  shows "\<exists>out s'. tx_execute fp dims api s inp = Some (out, s') \<and> tx_ok dims s'"
proof (cases "inp = []")
  case True
  then show ?thesis using tx_execute_empty [OF assms(2)] by metis
next
  case False
  obtain s1 k where s1: "txLoop fp dims api s inp 0 = Some (s1, k)" "tx_ok dims s1" "k < 2 ^ 31"
    using txLoop_returns [OF assms, of 0 fp api inp] by auto
  obtain out s' where "tx_take s1 k = (out, s')" by (rule prod.exhaust)
  then show ?thesis using tx_take_keeps [OF s1(2) assms(1) s1(3)] s1(1) False by (simp add: tx_execute_def)
qed

subsection \<open>The contract\<close>

definition thread_env_ok :: "('f, 'd, 'eb, 'ag, 'rn, 'bw, 'src, 'dv, 'enc, 'fg) thread_env \<Rightarrow> bool" where
  "thread_env_ok env \<longleftrightarrow> src_ok (env_src (te_step env)) \<and> dims_ok (te_dims env) \<and> rx_api_ok (te_dims env) (te_rx env) \<and>
     (\<forall>dv. nTxEooOut (te_dims env) \<le> int (length (fst (rade_tx_eoo (te_tx env) dv)))) \<and>
     100 \<le> modemRate (te_dims env) \<and> 100 \<le> speechRate (te_dims env) \<and> frameSize (te_dims env) < speechRate (te_dims env)"

fun tstep_inv :: "rade_dims \<Rightarrow> ('f, 'd, 'eb, 'ag, 'rn, 'bw, 'src, 'dv, 'enc, 'fg, 'cb) tstep \<Rightarrow> bool" where
  "tstep_inv dims (BaseS s) = pstep_inv s"
| "tstep_inv dims (RadeTxS s) = tx_ok dims s"
| "tstep_inv dims (RadeRxS s) = rx_ok dims s"

lemma te_base_src [simp]: "env_src (te_base env) = env_src (te_step env)"
  by (simp add: te_base_def)

interpretation tsteps: step_contract "tstep_ops env" "\<lambda>s. thread_env_ok env \<and> tstep_inv (te_dims env) s" for env
proof (unfold_locales, goal_cases)
  case (1 s inp)
  then have env: "src_ok (env_src (te_base env))" "dims_ok (te_dims env)" "rx_api_ok (te_dims env) (te_rx env)"
    "0 < frameSize (te_dims env)" "frameSize (te_dims env) < speechRate (te_dims env)"
    by (simp_all add: thread_env_ok_def dims_ok_def)
  show ?case
  proof (cases s)
    case (BaseS b)
    then show ?thesis using pstep_execute_returns [OF env(1), of b inp] 1 by (auto simp: tstep_ops_def rates_of_def)
  next
    case (RadeTxS t)
    then show ?thesis using tx_execute_returns [OF env(2), of t _ "te_tx env" inp] 1 by (fastforce simp: tstep_ops_def rates_of_def)
  next
    case (RadeRxS t)
    then show ?thesis using rx_execute_bound [OF _ env(3-5), of t _ _ inp] 1 by (fastforce simp: tstep_ops_def rates_of_def)
  qed
next
  case (2 s)
  then show ?case
  proof (cases s)
    case (BaseS b)
    then have "src_ok (env_src (te_step env)) \<and> pstep_inv b" using 2 by (simp add: thread_env_ok_def)
    from steps.rates_audio [of "te_step env", OF this] BaseS show ?thesis by (simp add: tstep_ops_def pstep_ops_def)
  qed (simp_all add: tstep_ops_def thread_env_ok_def)
qed

subsection \<open>The pipelines of the threads\<close>

definition init_tx_pipeline :: "('f, 'd, 'eb, 'ag, 'rn, 'bw, 'src, 'dv, 'enc, 'fg) thread_env \<Rightarrow> int \<Rightarrow> int \<Rightarrow> 'dv \<Rightarrow> 'enc \<Rightarrow> bool \<Rightarrow>
    (('f, 'd, 'eb, 'ag, 'rn, 'bw, 'src, 'dv, 'enc, 'fg, 'cb) tstep, 'src) audio_pipeline" where
  "init_tx_pipeline env inRate outRate rade encState writeFile =
     (let fp = env_fpu (te_step env);
          src = env_src (te_step env);
          txStep = tx_new fp (te_dims env) rade encState writeFile;
          agcStep = agc_new fp (env_agc (te_step env)) (speechRate (te_dims env));
          rnnoiseStep = rnnoise_new (env_rnnoise (te_step env));
          levelAdjustStep = LevelS outRate 0
      in foldl (appendPipelineStep src (tstep_ops env)) (pipeline_new src (tstep_ops env) inRate outRate)
           [BaseS (RNNoiseS rnnoiseStep), BaseS (AgcS agcStep), RadeTxS txStep, BaseS levelAdjustStep])"

definition init_rx_pipeline :: "('f, 'd, 'eb, 'ag, 'rn, 'bw, 'src, 'dv, 'enc, 'fg) thread_env \<Rightarrow> int \<Rightarrow> int \<Rightarrow> 'dv \<Rightarrow> 'fg \<Rightarrow>
    ('f text_statics \<times> ('f, 'cb) rade_text) option \<Rightarrow> bool \<Rightarrow> short list \<Rightarrow>
    (('f, 'd, 'eb, 'ag, 'rn, 'bw, 'src, 'dv, 'enc, 'fg, 'cb) tstep, 'src) audio_pipeline" where
  "init_rx_pipeline env inRate outRate rade farganState radeText writeFile garbage =
     (let fp = env_fpu (te_step env);
          src = env_src (te_step env);
          radeRxStep = rx_new fp (te_dims env) rade farganState radeText writeFile garbage;
          bwExpandStep = bwe_new (env_bwe (te_step env))
      in foldl (appendPipelineStep src (tstep_ops env)) (pipeline_new src (tstep_ops env) inRate outRate)
           [RadeRxS radeRxStep, BaseS (BweS bwExpandStep)])"

text \<open>\<open>txStep_->restartVocoder()\<close>: \<open>txStep_\<close> points to the one RADE transmit step that the pipeline owns.\<close>

fun restart_step :: "('f, 'd, 'eb, 'ag, 'rn, 'bw, 'src, 'dv, 'enc, 'fg) thread_env \<Rightarrow>
    ('f, 'd, 'eb, 'ag, 'rn, 'bw, 'src, 'dv, 'enc, 'fg, 'cb) tstep \<Rightarrow> ('f, 'd, 'eb, 'ag, 'rn, 'bw, 'src, 'dv, 'enc, 'fg, 'cb) tstep" where
  "restart_step env (RadeTxS s) = RadeTxS (snd (restartVocoder (env_fpu (te_step env)) (te_dims env) (te_tx env) s))"
| "restart_step env s = s"

definition txStep_restart :: "('f, 'd, 'eb, 'ag, 'rn, 'bw, 'src, 'dv, 'enc, 'fg) thread_env \<Rightarrow>
    (('f, 'd, 'eb, 'ag, 'rn, 'bw, 'src, 'dv, 'enc, 'fg, 'cb) tstep, 'src) audio_pipeline \<Rightarrow>
    (('f, 'd, 'eb, 'ag, 'rn, 'bw, 'src, 'dv, 'enc, 'fg, 'cb) tstep, 'src) audio_pipeline" where
  "txStep_restart env p = p\<lparr>pipelineSteps := map (restart_step env) (pipelineSteps p)\<rparr>"

end
