(* ===== verification/Minimal_Thread.thy ===== *)
theory Minimal_Thread
  imports Thread_Steps
begin

text \<open>
  The transmit and receive threads of \<^verbatim>\<open>src/src/pipeline/MinimalTxRxThread.cpp\<close> and the pacing of
  \<^verbatim>\<open>src/src/pipeline/MinimalRealTimeHelper.cpp\<close>. A thread moves samples from a sound card FIFO through its
  pipeline to another FIFO; the transmit thread ends an over with the end-of-over signal and then tells the
  application that it is queued. The sound card and the application run beside the thread: what they do is
  the schedule \<open>sched\<close>, which acts at the start of every iteration of a processing loop (\<open>FIFO_Concurrency\<close>
  interleaves the FIFO operations themselves).
\<close>

declare length_contents [simp del]

subsection \<open>State\<close>

record cb_data =
  infifo1 :: "short fifo"
  outfifo1 :: "short fifo"
  infifo2 :: "short fifo"
  outfifo2 :: "short fifo"

text \<open>\<open>g_eoo_enqueued\<close> is a global of the file; the other flags are members.\<close>

record 'p txrx_thread =
  m_tx :: bool
  pipeline :: 'p
  inputSampleRate :: int
  outputSampleRate :: int
  hasEooBeenSent :: bool
  deferReset :: bool
  cbData :: cb_data
  g_eoo_enqueued :: bool

text \<open>What a thread does with its pipeline; \<open>pipe_restart\<close> is \<open>txStep_->restartVocoder()\<close>.\<close>

record 'p pipe_ops =
  pipe_execute :: "'p \<Rightarrow> short list \<Rightarrow> (short list \<times> 'p) option"
  pipe_reset :: "'p \<Rightarrow> 'p option"
  pipe_restart :: "'p \<Rightarrow> 'p"

text \<open>
  The outside world during one call: at the \<open>i\<close>-th iteration, what the sound card did to the FIFOs, what
  \<open>helper->mustStopWork()\<close> answers and the values of the atomics \<open>g_tx\<close> and \<open>endingTx\<close>.
\<close>

record sched =
  card :: "nat \<Rightarrow> cb_data \<Rightarrow> cb_data"
  mustStopWork :: "nat \<Rightarrow> bool"
  g_tx :: "nat \<Rightarrow> bool"
  endingTx :: "nat \<Rightarrow> bool"

definition thread_new :: "bool \<Rightarrow> int \<Rightarrow> int \<Rightarrow> 'p \<Rightarrow> cb_data \<Rightarrow> 'p txrx_thread" where
  "thread_new tx inRate outRate p cb =
     \<lparr>m_tx = tx, pipeline = p, inputSampleRate = inRate, outputSampleRate = outRate, hasEooBeenSent = False, deferReset = False,
      cbData = cb, g_eoo_enqueued = False\<rparr>"

definition getTxNNomModemSamples :: "rade_dims \<Rightarrow> int" where
  "getTxNNomModemSamples dims = max (nTxOut dims) (eooLengthInSamples dims)"

definition getRxNumSpeechSamples :: "rade_dims \<Rightarrow> int" where
  "getRxNumSpeechSamples dims = c_div (nFeatures dims * frameSize dims) (nbFeatures dims)"

subsection \<open>Operations\<close>

definition clearFifos :: "'p txrx_thread \<Rightarrow> 'p txrx_thread" where
  "clearFifos s =
     (let cb = cbData s in
      if m_tx s
      then s\<lparr>cbData := cb\<lparr>infifo1 := fifo_reset (infifo1 cb), outfifo1 := fifo_reset (outfifo1 cb)\<rparr>\<rparr>
      else s\<lparr>cbData := cb\<lparr>infifo2 := fifo_reset (infifo2 cb), outfifo2 := fifo_reset (outfifo2 cb)\<rparr>\<rparr>)"

text \<open>Samples in 20 ms of audio.\<close>

definition frameSamples :: "int \<Rightarrow> int" where
  "frameSamples rate = c_div (rate * 20) 1000"

text \<open>
  The body of the transmit loop. The result says whether the loop goes on. A failed read gives silence, or
  the end of the over when the application is ending it.
\<close>

definition txFrame :: "'p pipe_ops \<Rightarrow> bool \<Rightarrow> 'p txrx_thread \<Rightarrow> ('p txrx_thread \<times> bool) option" where
  "txFrame ops ending s =
     (let nsam_in_48 = frameSamples (inputSampleRate s) in
      case fifo_read (infifo1 (cbData s)) nsam_in_48 of (nread, samples, f) \<Rightarrow>
        let inp = (if nread \<noteq> 0 then replicate (nat nsam_in_48) 0 else samples);
            s1 = s\<lparr>cbData := (cbData s)\<lparr>infifo1 := f\<rparr>\<rparr>
        in if nread \<noteq> 0 \<and> ending then
             let s2 = (if \<not> hasEooBeenSent s1 then s1\<lparr>pipeline := pipe_restart ops (pipeline s1), hasEooBeenSent := True\<rparr> else s1)
             in Option.bind (pipe_execute ops (pipeline s2) []) (\<lambda>(out, p).
                  let s3 = s2\<lparr>pipeline := p\<rparr> in
                  if out \<noteq> []
                  then Some (s3\<lparr>cbData := (cbData s3)\<lparr>outfifo1 := snd (fifo_write (outfifo1 (cbData s3)) out (int (length out)))\<rparr>\<rparr>, False)
                  else Some (s3\<lparr>g_eoo_enqueued := True\<rparr>, False))
           else
             let s2 = s1\<lparr>g_eoo_enqueued := False, hasEooBeenSent := False\<rparr>
             in Option.bind (pipe_execute ops (pipeline s2) inp) (\<lambda>(out, p).
                  let s3 = s2\<lparr>pipeline := p\<rparr>
                  in Some (s3\<lparr>cbData := (cbData s3)\<lparr>outfifo1 := snd (fifo_write (outfifo1 (cbData s3)) out (int (length out)))\<rparr>\<rparr>, True)))"

partial_function (option) txWhile :: "'p pipe_ops \<Rightarrow> sched \<Rightarrow> u32 \<Rightarrow> nat \<Rightarrow> 'p txrx_thread \<Rightarrow> 'p txrx_thread option" where
  "txWhile ops sch nsam_one_modem_frame i s0 =
     (let s = s0\<lparr>cbData := card sch i (cbData s0)\<rparr> in
      if \<not> mustStopWork sch i \<and> word_of_int (numFree (outfifo1 (cbData s))) \<ge> nsam_one_modem_frame
      then Option.bind (txFrame ops (endingTx sch i) s) (\<lambda>(s', go). if go then txWhile ops sch nsam_one_modem_frame (i + 1) s' else Some s')
      else Some s)"

definition txProcessing :: "'p pipe_ops \<Rightarrow> rade_dims \<Rightarrow> sched \<Rightarrow> 'p txrx_thread \<Rightarrow> 'p txrx_thread option" where
  "txProcessing ops dims sch s =
     (if g_tx sch 0 then
        Option.bind
          (if deferReset s
           then map_option (\<lambda>p. clearFifos (s\<lparr>deferReset := False, pipeline := p\<rparr>)) (pipe_reset ops (pipeline s))
           else Some s)
          (txWhile ops sch (word_of_int (c_div (getTxNNomModemSamples dims * outputSampleRate s) (modemRate dims))) 0)
      else Some (s\<lparr>deferReset := True\<rparr>))"

partial_function (option) rxWhile :: "'p pipe_ops \<Rightarrow> sched \<Rightarrow> int \<Rightarrow> nat \<Rightarrow> bool \<Rightarrow> 'p txrx_thread \<Rightarrow> 'p txrx_thread option" where
  "rxWhile ops sch nsam_one_speech_frame i processInputFifo s0 =
     (let s = s0\<lparr>cbData := card sch i (cbData s0)\<rparr> in
      if \<not> mustStopWork sch i \<and> processInputFifo \<and> numFree (outfifo2 (cbData s)) \<ge> nsam_one_speech_frame then
        (case fifo_read (infifo2 (cbData s)) (frameSamples (inputSampleRate s)) of (r, samples, f) \<Rightarrow>
           let s1 = s\<lparr>cbData := (cbData s)\<lparr>infifo2 := f\<rparr>\<rparr> in
           if r = 0 then
             Option.bind (pipe_execute ops (pipeline s1) samples) (\<lambda>(out, p).
               let s2 = s1\<lparr>pipeline := p\<rparr>;
                   s3 = (if out \<noteq> []
                         then s2\<lparr>cbData := (cbData s2)\<lparr>outfifo2 := snd (fifo_write (outfifo2 (cbData s2)) out (int (length out)))\<rparr>\<rparr>
                         else s2)
               in rxWhile ops sch nsam_one_speech_frame (i + 1) (\<not> g_tx sch (i + 1)) s3)
           else Some s1)
      else Some s)"

definition rxProcessing :: "'p pipe_ops \<Rightarrow> rade_dims \<Rightarrow> sched \<Rightarrow> 'p txrx_thread \<Rightarrow> 'p txrx_thread option" where
  "rxProcessing ops dims sch s =
     (let processInputFifo = (\<not> g_tx sch 0);
          s1 = (if \<not> processInputFifo then clearFifos s else s)
      in rxWhile ops sch (c_div (getRxNumSpeechSamples dims * outputSampleRate s1) (speechRate dims)) 0 processInputFifo s1)"

text \<open>
  \<open>Entry\<close>: after the start-up handshake the FIFOs are cleared, then the processing runs as long as \<open>m_run\<close> is
  set (one schedule a round). \<open>fastMode\<close> is the argument of \<open>stopRealTimeWork\<close> after a round.
\<close>

definition processing :: "'p pipe_ops \<Rightarrow> rade_dims \<Rightarrow> sched \<Rightarrow> 'p txrx_thread \<Rightarrow> 'p txrx_thread option" where
  "processing ops dims sch s = (if m_tx s then txProcessing ops dims sch s else rxProcessing ops dims sch s)"

definition fastMode :: "'p txrx_thread \<Rightarrow> bool" where
  "fastMode s =
     (let outFifo = (if \<not> m_tx s then outfifo2 (cbData s) else outfifo1 (cbData s))
      in numUsed outFifo < c_div (capacity outFifo) 2)"

fun rounds :: "'p pipe_ops \<Rightarrow> rade_dims \<Rightarrow> sched list \<Rightarrow> 'p txrx_thread \<Rightarrow> 'p txrx_thread option" where
  "rounds ops dims [] s = Some s"
| "rounds ops dims (sch # schs) s = Option.bind (processing ops dims sch s) (rounds ops dims schs)"

definition entry :: "'p pipe_ops \<Rightarrow> rade_dims \<Rightarrow> sched list \<Rightarrow> 'p txrx_thread \<Rightarrow> 'p txrx_thread option" where
  "entry ops dims schs s = rounds ops dims schs (clearFifos (if \<not> m_tx s then clearFifos s else s))"

text \<open>
  The pacing of \<open>MinimalRealtimeHelper\<close>, in nanoseconds: when the thread is to wake up, and the time it
  overslept, which the next round makes up for.
\<close>

definition wakeTime :: "int \<Rightarrow> int \<Rightarrow> bool \<Rightarrow> int" where
  "wakeTime startTime extraTimeNs fast = startTime + ((if fast then 10 else 20) * 1000000 - extraTimeNs)"

definition extraTime :: "int \<Rightarrow> int \<Rightarrow> bool \<Rightarrow> int \<Rightarrow> int" where
  "extraTime startTime extraTimeNs fast endTime =
     sint (word_of_int (max 0 (endTime - wakeTime startTime extraTimeNs fast)) :: u32)"

text \<open>The pipelines of \<open>Thread_Steps\<close> as the threads use them.\<close>

definition thread_pipe_ops :: "('f, 'd, 'eb, 'ag, 'rn, 'bw, 'src, 'dv, 'enc, 'fg) thread_env \<Rightarrow>
    (('f, 'd, 'eb, 'ag, 'rn, 'bw, 'src, 'dv, 'enc, 'fg, 'cb) tstep, 'src) audio_pipeline pipe_ops" where
  "thread_pipe_ops env = \<lparr>pipe_execute = pipeline_execute (env_src (te_step env)) (tstep_ops env),
     pipe_reset = pipeline_reset (env_src (te_step env)) (tstep_ops env), pipe_restart = txStep_restart env\<rparr>"

subsection \<open>What the threads rely on of a pipeline\<close>

text \<open>
  A round in which the application ends the over: the sound card has fewer samples than a frame left in the
  input queue, and the output queue has room for a frame of modem samples.
\<close>

definition ending_sched :: "rade_dims \<Rightarrow> int \<Rightarrow> int \<Rightarrow> sched \<Rightarrow> bool" where
  "ending_sched dims inRate outRate c \<longleftrightarrow> g_tx c 0 \<and> endingTx c 0 \<and> \<not> mustStopWork c 0 \<and>
     (\<forall>cb. fifo_inv (infifo1 cb) \<longrightarrow> fifo_inv (infifo1 (card c 0 cb)) \<and> numUsed (infifo1 (card c 0 cb)) < frameSamples inRate \<and>
        word_of_int (c_div (getTxNNomModemSamples dims * outRate) (modemRate dims)) \<le> (word_of_int (numFree (outfifo1 (card c 0 cb))) :: u32))"

text \<open>A pipeline returns and keeps its invariant: all that the receive thread needs.\<close>

locale pipe_returns =
  fixes ops :: "'p pipe_ops" and pinv :: "'p \<Rightarrow> bool"
  assumes exec_returns: "pinv p \<Longrightarrow> \<exists>out p'. pipe_execute ops p inp = Some (out, p') \<and> pinv p'"
begin

text \<open>One iteration of the receive loop that finds a frame and room for its result.\<close>

lemma rxWhile_frame:
  assumes sch: "card sch = (\<lambda>_ cb. cb)" "\<forall>i. \<not> mustStopWork sch i" "\<forall>i. \<not> g_tx sch i"
    and n: "frameSamples (inputSampleRate s) = int n" "n < 2 ^ 31"
    and s: "pinv (pipeline s)" "fifo_inv (infifo2 (cbData s))" "fifo_inv (outfifo2 (cbData s))"
    and go: "m \<le> numFree (outfifo2 (cbData s))" "n \<le> length (contents (infifo2 (cbData s)))"
  obtains s1 out where "rxWhile ops sch m i True s = rxWhile ops sch m (i + 1) True s1"
    and "pipe_execute ops (pipeline s) (take n (contents (infifo2 (cbData s)))) = Some (out, pipeline s1)" and "pinv (pipeline s1)"
    and "inputSampleRate s1 = inputSampleRate s" and "fifo_inv (infifo2 (cbData s1))" and "fifo_inv (outfifo2 (cbData s1))"
    and "contents (infifo2 (cbData s1)) = drop n (contents (infifo2 (cbData s)))"
    and "capacity (outfifo2 (cbData s1)) = capacity (outfifo2 (cbData s))"
    and "int (length out) \<le> numFree (outfifo2 (cbData s)) \<longrightarrow> contents (outfifo2 (cbData s1)) = contents (outfifo2 (cbData s)) @ out"
proof -
  let ?c = "contents (infifo2 (cbData s))"
  obtain r xs f where rd: "fifo_read (infifo2 (cbData s)) (int n) = (r, xs, f)" by (rule prod_cases3)
  have f: "r = 0" "xs = take n ?c" "fifo_inv f" "contents f = drop n ?c"
    using fq.read_available [OF s(2), of "int n"] fq.used_items [OF s(2)] go(2) rd by simp_all
  obtain out p where ex: "pipe_execute ops (pipeline s) xs = Some (out, p)" "pinv p" using exec_returns [OF s(1)] by blast
  define g where "g = (if out \<noteq> [] then snd (fifo_write (outfifo2 (cbData s)) out (int (length out))) else outfifo2 (cbData s))"
  define s1 where "s1 = s\<lparr>cbData := (cbData s)\<lparr>infifo2 := f, outfifo2 := g\<rparr>, pipeline := p\<rparr>"
  have g: "fifo_inv g" "int (length out) \<le> numFree (outfifo2 (cbData s)) \<longrightarrow> contents g = contents (outfifo2 (cbData s)) @ out"
    using fq.inv_write [OF s(3), of "int (length out)" out] fq.write_fits [OF s(3), of "int (length out)" out] s(3)
    by (simp_all add: g_def)
  have swap: "s\<lparr>pipeline := q, cbData := c\<rparr> = s\<lparr>cbData := c, pipeline := q\<rparr>" for c q by simp
  have "rxWhile ops sch m i True s = rxWhile ops sch m (i + 1) True s1"
    using go n(1) rd sch f(1) ex(1) by (subst rxWhile.simps) (auto simp: Let_def s1_def g_def swap)
  then show thesis by (rule that [of s1 out]) (use ex f g in \<open>simp_all add: s1_def\<close>, simp add: g_def)
qed

text \<open>
  The receive loop without interference: it returns; it has fed the pipeline with the first \<open>k\<close> frames of the
  input queue in order, queued all they gave as long as it fits, and stopped because the input is
  exhausted or the output queue has no room for a frame.
\<close>

lemma rxWhile_frames:
  assumes sch: "card sch = (\<lambda>_ cb. cb)" "\<forall>i. \<not> mustStopWork sch i" "\<forall>i. \<not> g_tx sch i"
    and n: "frameSamples (inputSampleRate s) = int n" "0 < n" "n < 2 ^ 31"
    and s: "pinv (pipeline s)" "fifo_inv (infifo2 (cbData s))" "fifo_inv (outfifo2 (cbData s))"
  shows "\<exists>s' k outs. rxWhile ops sch m i True s = Some s' \<and> pinv (pipeline s') \<and>
    runCalls (pipe_execute ops) (pipeline s) (take k (frames n (contents (infifo2 (cbData s))))) = Some (outs, pipeline s') \<and>
    contents (infifo2 (cbData s')) = drop (k * n) (contents (infifo2 (cbData s))) \<and>
    (length (contents (infifo2 (cbData s'))) < n \<or> numFree (outfifo2 (cbData s')) < m) \<and>
    (int (length outs) \<le> numFree (outfifo2 (cbData s)) \<longrightarrow> contents (outfifo2 (cbData s')) = contents (outfifo2 (cbData s)) @ outs)"
  using n(1) s
proof (induction "length (contents (infifo2 (cbData s)))" arbitrary: s i rule: less_induct)
  case less
  let ?c = "contents (infifo2 (cbData s))"
  obtain r xs f where rd: "fifo_read (infifo2 (cbData s)) (int n) = (r, xs, f)" by (rule prod_cases3)
  have used: "numUsed (infifo2 (cbData s)) = int (length ?c)" using fq.used_items [OF less.prems(3)] .
  have go: "s\<lparr>cbData := card sch i (cbData s)\<rparr> = s" "\<not> mustStopWork sch i" "\<not> g_tx sch (i + 1)" using sch by simp_all
  show ?case
  proof (cases "m \<le> numFree (outfifo2 (cbData s)) \<and> n \<le> length ?c")
    case False
    then show ?thesis
    proof (cases "m \<le> numFree (outfifo2 (cbData s))")
      case room: True
      have f: "r = -1" "contents f = ?c"
        using fq.read_rejected [OF less.prems(3), of "int n"] used False room n(3) rd by simp_all
      then have "rxWhile ops sch m i True s = Some (s\<lparr>cbData := (cbData s)\<lparr>infifo2 := f\<rparr>\<rparr>)"
        using room less.prems(1) rd go by (subst rxWhile.simps) (simp add: Let_def)
      then show ?thesis using False room f(2) less.prems by (intro exI [of _ "s\<lparr>cbData := (cbData s)\<lparr>infifo2 := f\<rparr>\<rparr>"] exI [of _ 0]) simp
    next
      case full: False
      then have "rxWhile ops sch m i True s = Some s" using go by (subst rxWhile.simps) (simp add: Let_def)
      then show ?thesis using full less.prems by (intro exI [of _ s] exI [of _ 0]) simp
    qed
  next
    case True
    obtain s1 out where loop: "rxWhile ops sch m i True s = rxWhile ops sch m (i + 1) True s1"
      and ex: "pipe_execute ops (pipeline s) (take n ?c) = Some (out, pipeline s1)" "pinv (pipeline s1)"
      and s1: "inputSampleRate s1 = inputSampleRate s" "fifo_inv (infifo2 (cbData s1))" "fifo_inv (outfifo2 (cbData s1))"
        "contents (infifo2 (cbData s1)) = drop n ?c" "capacity (outfifo2 (cbData s1)) = capacity (outfifo2 (cbData s))"
        "int (length out) \<le> numFree (outfifo2 (cbData s)) \<longrightarrow> contents (outfifo2 (cbData s1)) = contents (outfifo2 (cbData s)) @ out"
      using rxWhile_frame [OF sch less.prems(1) n(3) less.prems(2-4)] True by metis
    have "length (contents (infifo2 (cbData s1))) < length ?c" using s1(4) conjunct2 [OF True] n(2) by (simp del: length_contents)
    moreover have "frameSamples (inputSampleRate s1) = int n" using less.prems(1) s1(1) by simp
    ultimately obtain s' k outs where
      s': "rxWhile ops sch m (i + 1) True s1 = Some s'" "pinv (pipeline s')"
        "runCalls (pipe_execute ops) (pipeline s1) (take k (frames n (drop n ?c))) = Some (outs, pipeline s')"
        "contents (infifo2 (cbData s')) = drop (k * n) (drop n ?c)"
        "length (contents (infifo2 (cbData s'))) < n \<or> numFree (outfifo2 (cbData s')) < m"
        "int (length outs) \<le> numFree (outfifo2 (cbData s1)) \<longrightarrow> contents (outfifo2 (cbData s')) = contents (outfifo2 (cbData s1)) @ outs"
      using less.hyps [OF _ _ ex(2) s1(2,3), of "i + 1"] unfolding s1(4) by blast
    have run: "runCalls (pipe_execute ops) (pipeline s) (take (Suc k) (frames n ?c)) = Some (out @ outs, pipeline s')"
      using True n(2) ex(1) s'(3) by (simp add: frames_step del: length_contents)
    have fits: "int (length (out @ outs)) \<le> numFree (outfifo2 (cbData s)) \<longrightarrow> contents (outfifo2 (cbData s')) = contents (outfifo2 (cbData s)) @ out @ outs"
    proof
      assume a: "int (length (out @ outs)) \<le> numFree (outfifo2 (cbData s))"
      then have c: "contents (outfifo2 (cbData s1)) = contents (outfifo2 (cbData s)) @ out" using s1(6) by simp
      then have "numFree (outfifo2 (cbData s1)) = numFree (outfifo2 (cbData s)) - int (length out)"
        using fq.free_used [OF s1(3)] fq.used_items [OF s1(3)] fq.free_used [OF less.prems(4)] fq.used_items [OF less.prems(4)] s1(5)
        by (simp del: length_contents)
      then show "contents (outfifo2 (cbData s')) = contents (outfifo2 (cbData s)) @ out @ outs" using a s'(6) c by simp
    qed
    have "contents (infifo2 (cbData s')) = drop (Suc k * n) ?c" using s'(4) by (simp add: add.commute)
    with run fits s'(1,2,5) loop show ?thesis
      by (intro exI [of _ s'] exI [of _ "Suc k"] exI [of _ "out @ outs"]) simp
  qed
qed

end

text \<open>
  The transmit thread also relies on empty calls: \<open>quiet\<close> says that an empty call has nothing to return, and
  an empty call leaves a quiet pipeline.
\<close>

locale pipe_contract = pipe_returns ops pinv
  for ops :: "'p pipe_ops" and pinv :: "'p \<Rightarrow> bool" +
  fixes quiet :: "'p \<Rightarrow> bool"
  assumes restart_inv: "pinv p \<Longrightarrow> pinv (pipe_restart ops p)"
    and flush: "pinv p \<Longrightarrow> pipe_execute ops p [] = Some (out, p') \<Longrightarrow> quiet p'"
    and quiet_exec: "pinv p \<Longrightarrow> quiet p \<Longrightarrow> pipe_execute ops p [] = Some (out, p') \<Longrightarrow> out = []"
begin

text \<open>One end-of-over iteration: the vocoder is restarted once, and the flag is set when nothing came out.\<close>

lemma txFrame_ending:
  assumes "pinv (pipeline s)" and "fifo_inv (infifo1 (cbData s))" and "numUsed (infifo1 (cbData s)) < frameSamples (inputSampleRate s)"
    and "frameSamples (inputSampleRate s) < 2 ^ 31" and "0 \<le> frameSamples (inputSampleRate s)"
  shows "\<exists>s'. txFrame ops True s = Some (s', False) \<and> pinv (pipeline s') \<and> quiet (pipeline s') \<and> hasEooBeenSent s' \<and>
    inputSampleRate s' = inputSampleRate s \<and> outputSampleRate s' = outputSampleRate s \<and> deferReset s' = deferReset s \<and> m_tx s' = m_tx s \<and>
    fifo_inv (infifo1 (cbData s')) \<and> (hasEooBeenSent s \<longrightarrow> quiet (pipeline s) \<longrightarrow> g_eoo_enqueued s')"
proof -
  let ?n = "frameSamples (inputSampleRate s)"
  obtain r xs f where rd: "fifo_read (infifo1 (cbData s)) ?n = (r, xs, f)" by (rule prod_cases3)
  have f: "r = -1" "fifo_inv f" "contents f = contents (infifo1 (cbData s))"
    using fq.read_rejected [OF assms(2,4,5,3)] rd by simp_all
  define p where "p = (if hasEooBeenSent s then pipeline s else pipe_restart ops (pipeline s))"
  have "pinv p" using assms(1) restart_inv by (simp add: p_def)
  then obtain out p' where ex: "pipe_execute ops p [] = Some (out, p')" "pinv p'" using exec_returns by blast
  have q: "quiet p'" using flush [OF \<open>pinv p\<close> ex(1)] .
  have e: "hasEooBeenSent s \<Longrightarrow> quiet (pipeline s) \<Longrightarrow> out = []" using quiet_exec [OF \<open>pinv p\<close> _ ex(1)] by (simp add: p_def)
  let ?s = "s\<lparr>cbData := (cbData s)\<lparr>infifo1 := f\<rparr>, pipeline := p', hasEooBeenSent := True\<rparr>"
  let ?w = "?s\<lparr>cbData := (cbData s)\<lparr>infifo1 := f, outfifo1 := snd (fifo_write (outfifo1 (cbData s)) out (int (length out)))\<rparr>\<rparr>"
  have "txFrame ops True s = Some (if out \<noteq> [] then ?w else ?s\<lparr>g_eoo_enqueued := True\<rparr>, False)"
    using ex(1) f(1) rd by (cases "hasEooBeenSent s"; simp add: txFrame_def Let_def p_def)
  then show ?thesis using ex(2) q e f by auto
qed

text \<open>
  Two rounds of an ending over with an exhausted input queue: the end-of-over signal is sent in the first,
  and in the second the application is told.
\<close>

lemma ending_round:
  assumes "pinv (pipeline s)" and "\<not> deferReset s" and "fifo_inv (infifo1 (cbData s))" and "m_tx s"
    and "0 \<le> frameSamples (inputSampleRate s)" and "frameSamples (inputSampleRate s) < 2 ^ 31"
    and "ending_sched dims (inputSampleRate s) (outputSampleRate s) c"
  shows "\<exists>s'. processing ops dims c s = Some s' \<and> pinv (pipeline s') \<and> quiet (pipeline s') \<and> hasEooBeenSent s' \<and> \<not> deferReset s' \<and> m_tx s' \<and>
      inputSampleRate s' = inputSampleRate s \<and> outputSampleRate s' = outputSampleRate s \<and> fifo_inv (infifo1 (cbData s')) \<and>
      (hasEooBeenSent s \<longrightarrow> quiet (pipeline s) \<longrightarrow> g_eoo_enqueued s')"
proof -
  let ?s = "s\<lparr>cbData := card c 0 (cbData s)\<rparr>"
  have c: "pinv (pipeline ?s)" "fifo_inv (infifo1 (cbData ?s))" "numUsed (infifo1 (cbData ?s)) < frameSamples (inputSampleRate ?s)"
      "frameSamples (inputSampleRate ?s) < 2 ^ 31" "0 \<le> frameSamples (inputSampleRate ?s)"
    and go: "g_tx c 0" "endingTx c 0" "\<not> mustStopWork c 0"
      "word_of_int (c_div (getTxNNomModemSamples dims * outputSampleRate s) (modemRate dims)) \<le> (word_of_int (numFree (outfifo1 (card c 0 (cbData s)))) :: u32)"
    using assms by (simp_all add: ending_sched_def)
  obtain s' where s': "txFrame ops True ?s = Some (s', False)" "pinv (pipeline s')" "quiet (pipeline s')" "hasEooBeenSent s'"
    "inputSampleRate s' = inputSampleRate s" "outputSampleRate s' = outputSampleRate s" "deferReset s' = deferReset s" "m_tx s' = m_tx s"
    "fifo_inv (infifo1 (cbData s'))" "hasEooBeenSent s \<longrightarrow> quiet (pipeline s) \<longrightarrow> g_eoo_enqueued s'"
    using txFrame_ending [OF c] by auto
  have "processing ops dims c s = Some s'"
    using assms(2,4) go s'(1) by (simp add: processing_def txProcessing_def txWhile.simps [of _ _ _ 0 s] Let_def)
  then show ?thesis using s' assms(2,4) by auto
qed

lemma over_ends:
  assumes "pinv (pipeline s)" and "\<not> deferReset s" and "fifo_inv (infifo1 (cbData s))" and "m_tx s"
    and "0 \<le> frameSamples (inputSampleRate s)" and "frameSamples (inputSampleRate s) < 2 ^ 31"
    and "ending_sched dims (inputSampleRate s) (outputSampleRate s) c1" and "ending_sched dims (inputSampleRate s) (outputSampleRate s) c2"
  shows "\<exists>s'. rounds ops dims [c1, c2] s = Some s' \<and> hasEooBeenSent s' \<and> g_eoo_enqueued s'"
proof -
  obtain s1 where s1: "processing ops dims c1 s = Some s1" "pinv (pipeline s1)" "quiet (pipeline s1)" "hasEooBeenSent s1" "\<not> deferReset s1" "m_tx s1"
    "inputSampleRate s1 = inputSampleRate s" "outputSampleRate s1 = outputSampleRate s" "fifo_inv (infifo1 (cbData s1))"
    using ending_round [OF assms(1-7)] by auto
  obtain s2 where "processing ops dims c2 s1 = Some s2" "hasEooBeenSent s2" "g_eoo_enqueued s2"
    using ending_round [OF s1(2,5,9,6), of dims c2] s1(3,4,7,8) assms(5,6,8) by auto
  then show ?thesis using s1(1) by simp
qed

end

subsection \<open>The transmit pipeline fulfils the contract\<close>

datatype step_kind = KBase | KTx | KRx

fun kind :: "('f, 'd, 'eb, 'ag, 'rn, 'bw, 'src, 'dv, 'enc, 'fg, 'cb) tstep \<Rightarrow> step_kind" where
  "kind (BaseS s) = KBase"
| "kind (RadeTxS s) = KTx"
| "kind (RadeRxS s) = KRx"

text \<open>No receiver, and at most one transmit step.\<close>

fun flushable :: "step_kind list \<Rightarrow> bool" where
  "flushable [] = True"
| "flushable (k # ks) = (case k of KBase \<Rightarrow> flushable ks | KTx \<Rightarrow> list_all (\<lambda>k. k = KBase) ks | KRx \<Rightarrow> False)"

fun quiet_step :: "('f, 'd, 'eb, 'ag, 'rn, 'bw, 'src, 'dv, 'enc, 'fg, 'cb) tstep \<Rightarrow> bool" where
  "quiet_step (BaseS s) = True"
| "quiet_step (RadeTxS s) = (contents (txOutFifo s) = [])"
| "quiet_step (RadeRxS s) = False"

lemma resample_empty: "resample_execute api r [] = Some (out, r') \<Longrightarrow> out = []"
  by (simp add: resample_execute_def resampleLoop.simps)

lemma pstep_empty: "pstep_execute env s [] = Some (out, s') \<Longrightarrow> out = []"
proof (induction s arbitrary: out s')
  case (EitherOrS c a b)
  then show ?case by (auto split: if_splits)
qed (auto simp: mute_execute_def c_div_def Let_def level_execute_def levelLoop.simps agc_execute_def rnnoise_execute_def bwe_execute_def
    feedBlocks.simps feedAll.simps dest: resample_empty)

lemma tstep_kind: "tstep_execute env s inp = Some (out, s') \<Longrightarrow> kind s' = kind s"
  by (cases s) auto

lemma quiet_step_empty:
  assumes "quiet_step s" and "tstep_inv (te_dims env) s" and "tstep_execute env s [] = Some (out, s')"
  shows "out = []"
proof (cases s)
  case (BaseS b)
  then show ?thesis using assms(3) by (auto dest: pstep_empty)
next
  case (RadeTxS t)
  then have "tx_ok (te_dims env) t" "contents (txOutFifo t) = []" using assms(1,2) by simp_all
  then show ?thesis using tx_execute_empty [of "te_dims env" t "env_fpu (te_step env)" "te_tx env"] assms(3) RadeTxS by (metis (no_types, lifting) fst_conv fst_map_prod id_apply map_option_eq_Some tstep_execute.simps(2) option.inject)
qed (use assms(1) in simp)

text \<open>An empty call of the transmit step empties its queue.\<close>

lemma tx_step_flushed:
  assumes "tx_ok (te_dims env) t" and "tstep_execute env (RadeTxS t) [] = Some (out, s')"
  shows "quiet_step s'"
proof -
  obtain t' where "tx_execute (env_fpu (te_step env)) (te_dims env) (te_tx env) t [] = Some (contents (txOutFifo t), t')" "contents (txOutFifo t') = []"
    using tx_execute_empty [OF assms(1)] by metis
  then show ?thesis using assms(2) by auto
qed

lemma executeSteps_kinds:
  "executeSteps api (tstep_ops env) rs ss inp = Some (out, rs', ss') \<Longrightarrow> map kind ss' = map kind ss"
proof (induction ss arbitrary: rs inp out rs' ss')
  case (Cons s ss)
  obtain r rs1 where "rs = r # rs1" using Cons.prems by (cases rs) auto
  then show ?case using Cons.prems Cons.IH tstep_kind by (fastforce simp: tstep_ops_def bind_eq_Some_conv)
qed simp

lemma base_quiet: "list_all (\<lambda>k. k = KBase) (map kind ss) \<Longrightarrow> s \<in> set ss \<Longrightarrow> quiet_step s"
  by (cases s) (auto simp: list_all_iff)

text \<open>One step of the loop over the steps: an empty input stays empty through a resampler.\<close>

lemma executeSteps_ConsE:
  assumes "executeSteps api (tstep_ops env) rs (s # ss) [] = Some (out, rs', ss')"
  obtains r rs1 y s1 rs2 ss1 where "rs = r # rs1" and "tstep_execute env s [] = Some (y, s1)"
    and "executeSteps api (tstep_ops env) rs1 ss y = Some (out, rs2, ss1)" and "ss' = s1 # ss1"
proof -
  obtain r rs1 where rs: "rs = r # rs1" using assms by (cases rs) auto
  define R where "R = (case r of None \<Rightarrow> Some ([], None)
      | Some r \<Rightarrow> if rsOutputSampleRate r = getInputSampleRate (tstep_ops env) s
          then map_option (\<lambda>(x, r'). (x, Some r')) (resample_execute api r []) else None)"
  have x: "x = []" if "R = Some (x, r')" for x r'
    using that unfolding R_def by (auto split: option.splits if_splits dest: resample_empty)
  have "executeSteps api (tstep_ops env) rs (s # ss) [] =
      Option.bind R (\<lambda>(x, r'). Option.bind (step_execute (tstep_ops env) s x)
        (\<lambda>(y, s'). Option.bind (executeSteps api (tstep_ops env) rs1 ss y) (\<lambda>(z, rs', ss'). Some (z, r' # rs', s' # ss'))))"
    unfolding rs R_def by (rule executeSteps.simps(3))
  with assms have "Option.bind R (\<lambda>(x, r'). Option.bind (step_execute (tstep_ops env) s x)
        (\<lambda>(y, s'). Option.bind (executeSteps api (tstep_ops env) rs1 ss y) (\<lambda>(z, rs', ss'). Some (z, r' # rs', s' # ss')))) = Some (out, rs', ss')"
    by (simp only:)
  then obtain xs r' y s1 rs2 ss1 where "R = Some (xs, r')" "step_execute (tstep_ops env) s xs = Some (y, s1)"
    "executeSteps api (tstep_ops env) rs1 ss y = Some (out, rs2, ss1)" "ss' = s1 # ss1"
    by (auto simp: bind_eq_Some_conv)
  then show thesis using that [OF rs] x by (simp add: tstep_ops_def)
qed

lemma executeSteps_flush:
  "flushable (map kind ss) \<Longrightarrow> \<forall>s \<in> set ss. tstep_inv (te_dims env) s \<Longrightarrow>
   executeSteps api (tstep_ops env) rs ss [] = Some (out, rs', ss') \<Longrightarrow> s \<in> set ss' \<Longrightarrow> quiet_step s"
proof (induction ss arbitrary: rs out rs' ss')
  case (Cons a ss)
  obtain r rs1 y a1 rs2 ss1 where st: "rs = r # rs1" "tstep_execute env a [] = Some (y, a1)"
    "executeSteps api (tstep_ops env) rs1 ss y = Some (out, rs2, ss1)" "ss' = a1 # ss1"
    using executeSteps_ConsE [OF Cons.prems(3)] .
  have k: "kind a1 = kind a" "map kind ss1 = map kind ss" using tstep_kind [OF st(2)] executeSteps_kinds [OF st(3)] by simp_all
  show ?case
  proof (cases "kind a")
    case KBase
    then have "quiet_step a" "quiet_step a1" using k(1) by (cases a; cases a1; simp)+
    moreover have "y = []" using quiet_step_empty [OF \<open>quiet_step a\<close> _ st(2)] Cons.prems(2) by simp
    ultimately show ?thesis using Cons.IH [of rs1 out rs2 ss1] Cons.prems KBase st by auto
  next
    case KTx
    then obtain u where a: "a = RadeTxS u" "tx_ok (te_dims env) u" using Cons.prems(2) by (cases a) auto
    have "quiet_step a1" using tx_step_flushed [OF a(2)] st(2) a(1) by metis
    moreover have "list_all (\<lambda>k. k = KBase) (map kind ss1)" using Cons.prems(1) KTx k(2) by simp
    ultimately show ?thesis using base_quiet st(4) Cons.prems(4) by auto
  next
    case KRx
    then show ?thesis using Cons.prems(1) by simp
  qed
qed simp

lemma executeSteps_quiet:
  "\<forall>s \<in> set ss. quiet_step s \<and> tstep_inv (te_dims env) s \<Longrightarrow> executeSteps api (tstep_ops env) rs ss [] = Some (out, rs', ss') \<Longrightarrow> out = []"
proof (induction ss arbitrary: rs out rs' ss')
  case (Cons a ss)
  obtain r rs1 y a1 rs2 ss1 where st: "rs = r # rs1" "tstep_execute env a [] = Some (y, a1)"
    "executeSteps api (tstep_ops env) rs1 ss y = Some (out, rs2, ss1)" "ss' = a1 # ss1"
    using executeSteps_ConsE [OF Cons.prems(2)] .
  have "y = []" using quiet_step_empty [OF _ _ st(2)] Cons.prems(1) by simp
  then show ?case using Cons.IH [of rs1 out rs2 ss1] st Cons.prems by simp
qed simp

definition tx_pinv :: "('f, 'd, 'eb, 'ag, 'rn, 'bw, 'src, 'dv, 'enc, 'fg) thread_env \<Rightarrow>
    (('f, 'd, 'eb, 'ag, 'rn, 'bw, 'src, 'dv, 'enc, 'fg, 'cb) tstep, 'src) audio_pipeline \<Rightarrow> bool" where
  "tx_pinv env p \<longleftrightarrow> thread_env_ok env \<and> pipelineInv (tstep_ops env) (\<lambda>s. thread_env_ok env \<and> tstep_inv (te_dims env) s) p \<and>
     flushable (map kind (pipelineSteps p))"

lemma pipeline_execute_steps:
  assumes "pipeline_execute api ops p inp = Some (out, p')"
  obtains mid rs ss where "executeSteps api ops (resamplers p) (pipelineSteps p) inp = Some (mid, rs, ss)" and "pipelineSteps p' = ss"
    and "mid = [] \<Longrightarrow> out = []"
proof -
  obtain mid rs ss where ex: "executeSteps api ops (resamplers p) (pipelineSteps p) inp = Some (mid, rs, ss)"
    and rest: "(case resultSampler p of None \<Rightarrow> Some (mid, p\<lparr>resamplers := rs, pipelineSteps := ss\<rparr>)
      | Some r \<Rightarrow> map_option (\<lambda>(y, r'). (y, p\<lparr>resamplers := rs, pipelineSteps := ss, resultSampler := Some r'\<rparr>)) (resample_execute api r mid)) = Some (out, p')"
    using assms by (auto simp: pipeline_execute_def Let_def bind_eq_Some_conv)
  have "pipelineSteps p' = ss" "mid = [] \<Longrightarrow> out = []" using rest by (auto split: option.splits dest: resample_empty)
  then show thesis using that [OF ex] by blast
qed

lemma restartVocoder_keeps:
  assumes "tx_ok dims s" and "nTxEooOut dims \<le> int (length (fst (rade_tx_eoo api (txDv s))))" and "dims_ok dims"
  shows "tx_ok dims (snd (restartVocoder fp dims api s))"
proof -
  obtain iq dv where iq: "rade_tx_eoo api (txDv s) = (iq, dv)" by (rule prod.exhaust)
  have len: "int (length (eooShort fp dims iq)) = eooLengthInSamples dims"
    using assms(2,3) iq by (simp add: eooShort_def eooLengthInSamples_def numSamplesSilence_def dims_ok_def)
  then have "fifo_inv (snd (fifo_write (txOutFifo s) (eooShort fp dims iq) (eooLengthInSamples dims)))"
    using fq.inv_write [of "txOutFifo s" "eooLengthInSamples dims" "eooShort fp dims iq"] assms(1) by (simp add: tx_ok_def)
  then show ?thesis using assms(1) by (simp add: restartVocoder_def iq tx_ok_def case_prod_unfold Let_def)
qed

lemma restart_keeps:
  assumes "tx_pinv env p"
  shows "tx_pinv env (txStep_restart env p)"
proof -
  have s: "kind (restart_step env s) = kind s" "rates_of (tstep_ops env) (restart_step env s) = rates_of (tstep_ops env) s" for s
    by (cases s; simp add: tstep_ops_def rates_of_def)+
  have "tstep_inv (te_dims env) (restart_step env s)" if "tstep_inv (te_dims env) s" for s
    using that assms by (cases s) (simp_all add: restartVocoder_keeps tx_pinv_def thread_env_ok_def)
  moreover have "rates_ok (tstep_ops env) (txStep_restart env p) = rates_ok (tstep_ops env) p"
    by (rule rates_ok_cong) (simp_all add: txStep_restart_def s(2) comp_def)
  moreover have "map kind (pipelineSteps (txStep_restart env p)) = map kind (pipelineSteps p)" by (simp add: txStep_restart_def s(1))
  moreover have "pipelineSteps (txStep_restart env p) = map (restart_step env) (pipelineSteps p)"
    "apInputSampleRate (txStep_restart env p) = apInputSampleRate p" "apOutputSampleRate (txStep_restart env p) = apOutputSampleRate p"
    by (simp_all add: txStep_restart_def)
  ultimately show ?thesis using assms unfolding tx_pinv_def pipelineInv_def by (metis (no_types, lifting) imageE list.set_map)
qed

interpretation txp: pipe_contract "thread_pipe_ops env" "tx_pinv env" "\<lambda>p. \<forall>s \<in> set (pipelineSteps p). quiet_step s" for env
proof (unfold_locales, goal_cases)
  case (1 p inp)
  then obtain out p' where ex: "pipeline_execute (env_src (te_step env)) (tstep_ops env) p inp = Some (out, p')"
    "pipelineInv (tstep_ops env) (\<lambda>s. thread_env_ok env \<and> tstep_inv (te_dims env) s) p'"
    using tsteps.pipeline_execute_returns [of "env_src (te_step env)" env p inp] by (auto simp: tx_pinv_def thread_env_ok_def)
  have "map kind (pipelineSteps p') = map kind (pipelineSteps p)"
    using pipeline_execute_steps [OF ex(1)] executeSteps_kinds by metis
  then show ?case using 1 ex by (simp add: thread_pipe_ops_def tx_pinv_def)
next
  case (2 p)
  then show ?case by (simp add: thread_pipe_ops_def restart_keeps)
next
  case (3 p out p')
  then have ex: "pipeline_execute (env_src (te_step env)) (tstep_ops env) p [] = Some (out, p')" by (simp add: thread_pipe_ops_def)
  have "flushable (map kind (pipelineSteps p))" "\<forall>s \<in> set (pipelineSteps p). tstep_inv (te_dims env) s"
    using 3(1) by (auto simp: tx_pinv_def pipelineInv_def)
  then show ?case using pipeline_execute_steps [OF ex] executeSteps_flush by metis
next
  case (4 p out p')
  then have ex: "pipeline_execute (env_src (te_step env)) (tstep_ops env) p [] = Some (out, p')" by (simp add: thread_pipe_ops_def)
  have "\<forall>s \<in> set (pipelineSteps p). quiet_step s \<and> tstep_inv (te_dims env) s"
    using 4(1,2) by (auto simp: tx_pinv_def pipelineInv_def)
  then show ?case using pipeline_execute_steps [OF ex] executeSteps_quiet by metis
qed

lemma init_tx_pinv:
  fixes env :: "('f, 'd, 'eb, 'ag, 'rn, 'bw, 'src, 'dv, 'enc, 'fg) thread_env"
  assumes "thread_env_ok env" and "100 \<le> inRate" and "100 \<le> outRate"
  shows "tx_pinv env (init_tx_pipeline env inRate outRate rade enc ut :: (('f, 'd, 'eb, 'ag, 'rn, 'bw, 'src, 'dv, 'enc, 'fg, 'cb) tstep, 'src) audio_pipeline)"
proof -
  let ?fp = "env_fpu (te_step env)" and ?agc = "agc_new (env_fpu (te_step env)) (env_agc (te_step env)) (speechRate (te_dims env))"
  let ?steps = "[BaseS (RNNoiseS (rnnoise_new (env_rnnoise (te_step env)))) :: ('f, 'd, 'eb, 'ag, 'rn, 'bw, 'src, 'dv, 'enc, 'fg, 'cb) tstep, BaseS (AgcS ?agc),
      RadeTxS (tx_new ?fp (te_dims env) rade enc ut), BaseS (LevelS outRate 0)]"
  have dims: "dims_ok (te_dims env)" using assms(1) by (simp add: thread_env_ok_def)
  have "fifo_ready (agcFifo ?agc) (nat (numSamplesPerRun ?agc))" "0 < numSamplesPerRun ?agc" "numSamplesPerRun ?agc < 2 ^ 31" "100 \<le> agcSampleRate ?agc"
    using fresh_fifo [of 161 "0 :: short"] by (auto simp: agc_new_def Let_def fifo_ready_def agc_rate_def)
  moreover have "fifo_ready (rnFifo (rnnoise_new (env_rnnoise (te_step env)))) 480"
    using fresh_fifo [of 481 "0 :: short"] by (simp add: rnnoise_new_def fifo_ready_def)
  ultimately have inv: "\<forall>s \<in> set ?steps. tstep_inv (te_dims env) s" using tx_new_ok(1) [OF dims] assms(3) by simp
  have p: "init_tx_pipeline env inRate outRate rade enc ut =
      foldl (appendPipelineStep (env_src (te_step env)) (tstep_ops env)) (pipeline_new (env_src (te_step env)) (tstep_ops env) inRate outRate) ?steps"
    unfolding init_tx_pipeline_def Let_def ..
  from pipeline_chain [of "env_src (te_step env)" "tstep_ops env" inRate outRate ?steps, folded p] inv assms
  show ?thesis by (simp add: Let_def tx_pinv_def pipelineInv_def)
qed

subsection \<open>The receive pipeline fulfils its contract\<close>

definition rx_pinv :: "('f, 'd, 'eb, 'ag, 'rn, 'bw, 'src, 'dv, 'enc, 'fg) thread_env \<Rightarrow>
    (('f, 'd, 'eb, 'ag, 'rn, 'bw, 'src, 'dv, 'enc, 'fg, 'cb) tstep, 'src) audio_pipeline \<Rightarrow> bool" where
  "rx_pinv env p \<longleftrightarrow> thread_env_ok env \<and> pipelineInv (tstep_ops env) (\<lambda>s. thread_env_ok env \<and> tstep_inv (te_dims env) s) p"

interpretation rxp: pipe_returns "thread_pipe_ops env" "rx_pinv env" for env
proof (unfold_locales, goal_cases)
  case (1 p inp)
  then show ?case
    using tsteps.pipeline_execute_returns [of "env_src (te_step env)" env p inp] by (auto simp: rx_pinv_def thread_env_ok_def thread_pipe_ops_def)
qed

lemma init_rx_pinv:
  fixes env :: "('f, 'd, 'eb, 'ag, 'rn, 'bw, 'src, 'dv, 'enc, 'fg) thread_env"
    and radeText :: "('f text_statics \<times> ('f, 'cb) rade_text) option"
  assumes "thread_env_ok env" and "100 \<le> inRate" and "100 \<le> outRate" and "0 < ninMax (te_dims env)" and "ninMax (te_dims env) < 2 ^ 31 - 1"
    and "0 < nbFeatures (te_dims env)" and "int (length garbage) = ninMax (te_dims env)"
  shows "rx_pinv env (init_rx_pipeline env inRate outRate rade fg radeText ut garbage)"
proof -
  let ?steps = "[RadeRxS (rx_new (env_fpu (te_step env)) (te_dims env) rade fg radeText ut garbage) :: ('f, 'd, 'eb, 'ag, 'rn, 'bw, 'src, 'dv, 'enc, 'fg, 'cb) tstep,
      BaseS (BweS (bwe_new (env_bwe (te_step env))))]"
  have "\<forall>s \<in> set ?steps. tstep_inv (te_dims env) s"
    using rx_new_ok(1) [OF assms(4-7)] bwe_new_ready [of "env_bwe (te_step env)"] by (simp add: fifo_ready_def)
  moreover have p: "init_rx_pipeline env inRate outRate rade fg radeText ut garbage =
      foldl (appendPipelineStep (env_src (te_step env)) (tstep_ops env)) (pipeline_new (env_src (te_step env)) (tstep_ops env) inRate outRate) ?steps"
    unfolding init_rx_pipeline_def Let_def ..
  ultimately show ?thesis
    using pipeline_chain [of "env_src (te_step env)" "tstep_ops env" inRate outRate ?steps, folded p] assms(1-3)
    by (simp add: Let_def rx_pinv_def pipelineInv_def)
qed

subsection \<open>A concrete environment\<close>

definition demo_thread_dims :: rade_dims where
  "demo_thread_dims = \<lparr>modemRate = 100, speechRate = 200, frameSize = 2, nbFeatures = 2, nFeatures = 4, nTxOut = 3, nTxEooOut = 2,
     ninMax = 6, nEooBits = 4\<rparr>"

definition demo_src_int :: "(int, unit) src_api" where
  "demo_src_int = \<lparr>src_new = (\<lambda>_. ()), src_short_to_float = map sint, src_process = (\<lambda>st o_rate i_rate x n. (0, take (nat n) x, st)),
     src_float_to_short = map word_of_int, src_reset = id\<rparr>"

definition demo_thread_env :: "(int, int, unit, unit, unit, unit, unit, int, int, int) thread_env" where
  "demo_thread_env = \<lparr>te_step = \<lparr>env_fpu = int_fpu, env_src = demo_src_int, env_agc = undefined, env_rnnoise = undefined,
       env_bwe = \<lparr>bwe_create = (), osce_bwe = (\<lambda>s x. (x @ x @ x, s)), osce_reset = id\<rparr>,
       conditionalFn = (\<lambda>_. True), scaleFactorFn = (\<lambda>_. 1)\<rparr>,
     te_dims = demo_thread_dims, te_tx = demo_tx, te_rx = demo_rx\<rparr>"

definition thread_fifo :: "int \<Rightarrow> short fifo" where
  "thread_fifo n = fifo_new n None (\<lambda>n. replicate (nat n) 0)"

definition demo_cb :: cb_data where
  "demo_cb = \<lparr>infifo1 = thread_fifo 100, outfifo1 = thread_fifo 1000, infifo2 = thread_fifo 100, outfifo2 = thread_fifo 1000\<rparr>"

lemma thread_fifo_ok: "0 < n \<Longrightarrow> n < 2 ^ 31 \<Longrightarrow> fifo_inv (thread_fifo n) \<and> contents (thread_fifo n) = [] \<and> numUsed (thread_fifo n) = 0 \<and> numFree (thread_fifo n) = n - 1"
  using fresh_fifo [of n "0 :: short"] fq.used_items [of "thread_fifo n"] fq.free_used [of "thread_fifo n"] by (simp add: thread_fifo_def)

lemma demo_thread_env_ok: "thread_env_ok demo_thread_env"
  by (auto simp: thread_env_ok_def demo_thread_env_def demo_thread_dims_def src_ok_def demo_src_int_def dims_ok_def rx_api_ok_def demo_rx_def demo_tx_def)

subsection \<open>Properties\<close>





end
