(* ===== verification/Timespec.thy ===== *)
theory Timespec
  imports Fpu
begin

text \<open>
  The time arithmetic of \<^verbatim>\<open>src/src/util/timespec.c\<close>. A \<open>timespec\<close> denotes a number of nanoseconds
  (\<open>nanos\<close>); the lemmas show that every operation is the operation on that number, whatever the fields of
  its arguments, and that the results are normalised. C's \<^verbatim>\<open>time_t\<close> and \<^verbatim>\<open>long\<close> are \<open>int\<close>: the source has
  undefined behaviour when they overflow.
\<close>

subsection \<open>Operations\<close>

record timespec =
  tv_sec :: int
  tv_nsec :: int

record timeval =
  tval_sec :: int
  tval_usec :: int

abbreviation NSEC_PER_SEC :: int where "NSEC_PER_SEC \<equiv> 1000000000"

abbreviation LONG_MAX :: int where "LONG_MAX \<equiv> 2 ^ 63 - 1"

text \<open>The two loops and the final correction of \<open>timespec_normalise\<close>.\<close>

function normaliseUp :: "timespec \<Rightarrow> timespec" where
  "normaliseUp ts = (if tv_nsec ts \<ge> NSEC_PER_SEC
     then normaliseUp (ts\<lparr>tv_sec := tv_sec ts + 1, tv_nsec := tv_nsec ts - NSEC_PER_SEC\<rparr>) else ts)"
  by pat_completeness auto
termination by (relation "measure (\<lambda>ts. nat (tv_nsec ts))") auto

function normaliseDown :: "timespec \<Rightarrow> timespec" where
  "normaliseDown ts = (if tv_nsec ts \<le> - NSEC_PER_SEC
     then normaliseDown (ts\<lparr>tv_sec := tv_sec ts - 1, tv_nsec := tv_nsec ts + NSEC_PER_SEC\<rparr>) else ts)"
  by pat_completeness auto
termination by (relation "measure (\<lambda>ts. nat (- tv_nsec ts))") auto

declare normaliseUp.simps [simp del] normaliseDown.simps [simp del]

definition timespec_normalise :: "timespec \<Rightarrow> timespec" where
  "timespec_normalise ts =
     (let ts1 = normaliseDown (normaliseUp ts)
      in if tv_nsec ts1 < 0 then ts1\<lparr>tv_sec := tv_sec ts1 - 1, tv_nsec := NSEC_PER_SEC + tv_nsec ts1\<rparr> else ts1)"

definition timespec_add :: "timespec \<Rightarrow> timespec \<Rightarrow> timespec" where
  "timespec_add a b =
     (let ts1 = timespec_normalise a; ts2 = timespec_normalise b
      in timespec_normalise \<lparr>tv_sec = tv_sec ts1 + tv_sec ts2, tv_nsec = tv_nsec ts1 + tv_nsec ts2\<rparr>)"

definition timespec_sub :: "timespec \<Rightarrow> timespec \<Rightarrow> timespec" where
  "timespec_sub a b =
     (let ts1 = timespec_normalise a; ts2 = timespec_normalise b
      in timespec_normalise \<lparr>tv_sec = tv_sec ts1 - tv_sec ts2, tv_nsec = tv_nsec ts1 - tv_nsec ts2\<rparr>)"

definition timespec_cmp :: "timespec \<Rightarrow> timespec \<Rightarrow> int" where
  "timespec_cmp a b =
     (let ts1 = timespec_normalise a; ts2 = timespec_normalise b
      in if tv_sec ts1 = tv_sec ts2 \<and> tv_nsec ts1 = tv_nsec ts2 then 0
         else if tv_sec ts1 > tv_sec ts2 \<or> (tv_sec ts1 = tv_sec ts2 \<and> tv_nsec ts1 > tv_nsec ts2) then 1
         else - 1)"

definition timespec_eq :: "timespec \<Rightarrow> timespec \<Rightarrow> bool" where
  "timespec_eq a b =
     (let ts1 = timespec_normalise a; ts2 = timespec_normalise b in tv_sec ts1 = tv_sec ts2 \<and> tv_nsec ts1 = tv_nsec ts2)"

definition timespec_gt :: "timespec \<Rightarrow> timespec \<Rightarrow> bool" where
  "timespec_gt a b =
     (let ts1 = timespec_normalise a; ts2 = timespec_normalise b
      in tv_sec ts1 > tv_sec ts2 \<or> (tv_sec ts1 = tv_sec ts2 \<and> tv_nsec ts1 > tv_nsec ts2))"

definition timespec_ge :: "timespec \<Rightarrow> timespec \<Rightarrow> bool" where
  "timespec_ge a b =
     (let ts1 = timespec_normalise a; ts2 = timespec_normalise b
      in tv_sec ts1 > tv_sec ts2 \<or> (tv_sec ts1 = tv_sec ts2 \<and> tv_nsec ts1 \<ge> tv_nsec ts2))"

definition timespec_lt :: "timespec \<Rightarrow> timespec \<Rightarrow> bool" where
  "timespec_lt a b =
     (let ts1 = timespec_normalise a; ts2 = timespec_normalise b
      in tv_sec ts1 < tv_sec ts2 \<or> (tv_sec ts1 = tv_sec ts2 \<and> tv_nsec ts1 < tv_nsec ts2))"

definition timespec_le :: "timespec \<Rightarrow> timespec \<Rightarrow> bool" where
  "timespec_le a b =
     (let ts1 = timespec_normalise a; ts2 = timespec_normalise b
      in tv_sec ts1 < tv_sec ts2 \<or> (tv_sec ts1 = tv_sec ts2 \<and> tv_nsec ts1 \<le> tv_nsec ts2))"

definition timespec_min :: "timespec \<Rightarrow> timespec \<Rightarrow> timespec" where
  "timespec_min a b = (if timespec_le a b then a else b)"

definition timespec_max :: "timespec \<Rightarrow> timespec \<Rightarrow> timespec" where
  "timespec_max a b = (if timespec_ge a b then a else b)"

definition timespec_clamp :: "timespec \<Rightarrow> timespec \<Rightarrow> timespec \<Rightarrow> timespec" where
  "timespec_clamp ts lo hi = (if timespec_gt ts hi then hi else if timespec_lt ts lo then lo else ts)"

text \<open>The loops of \<open>timespec_mod\<close>: the divisor is shifted up, then subtracted on the way down.\<close>

definition timespec_shl :: "timespec \<Rightarrow> timespec" where
  "timespec_shl ts2 =
     (let ts = ts2\<lparr>tv_nsec := push_bit 1 (tv_nsec ts2), tv_sec := push_bit 1 (tv_sec ts2)\<rparr>
      in if tv_nsec ts > NSEC_PER_SEC then ts\<lparr>tv_nsec := tv_nsec ts - NSEC_PER_SEC, tv_sec := tv_sec ts + 1\<rparr> else ts)"

definition timespec_shr :: "timespec \<Rightarrow> timespec" where
  "timespec_shr ts2 =
     (let ts = (if tv_sec ts2 AND 1 \<noteq> 0 then ts2\<lparr>tv_nsec := tv_nsec ts2 + NSEC_PER_SEC\<rparr> else ts2)
      in ts\<lparr>tv_nsec := drop_bit 1 (tv_nsec ts), tv_sec := drop_bit 1 (tv_sec ts)\<rparr>)"

partial_function (option) modShift :: "timespec \<Rightarrow> timespec \<Rightarrow> nat \<Rightarrow> (timespec \<times> nat) option" where
  "modShift ts1 ts2 i =
     (if tv_sec ts2 < drop_bit 1 LONG_MAX \<and> timespec_ge ts1 ts2 then modShift ts1 (timespec_shl ts2) (i + 1) else Some (ts2, i))"

fun modSubtract :: "timespec \<Rightarrow> timespec \<Rightarrow> nat \<Rightarrow> timespec \<times> timespec" where
  "modSubtract ts1 ts2 0 = (if timespec_ge ts1 ts2 then timespec_sub ts1 ts2 else ts1, ts2)"
| "modSubtract ts1 ts2 (Suc i) =
     modSubtract (if timespec_ge ts1 ts2 then timespec_sub ts1 ts2 else ts1) (timespec_shr ts2) i"

definition timespec_neg :: "timespec \<Rightarrow> timespec" where
  "timespec_neg ts = \<lparr>tv_sec = - tv_sec ts, tv_nsec = - tv_nsec ts\<rparr>"

definition timespec_mod :: "timespec \<Rightarrow> timespec \<Rightarrow> timespec option" where
  "timespec_mod a b =
     (let ts1 = timespec_normalise a; ts2 = timespec_normalise b in
      if tv_sec ts2 = 0 \<and> tv_nsec ts2 = 0 then Some ts1
      else
        let neg1 = (tv_sec ts1 < 0 \<or> tv_nsec ts1 < 0);
            neg2 = (tv_sec ts2 < 0 \<or> tv_nsec ts2 < 0);
            p1 = (if neg1 then timespec_neg ts1 else ts1);
            p2 = (if neg2 then timespec_neg ts2 else ts2)
        in map_option (\<lambda>(s2, i).
             let (r, d) = modSubtract p1 s2 i;
                 r1 = (if neg1 \<noteq> neg2 \<and> (tv_sec r \<noteq> 0 \<or> tv_nsec r \<noteq> 0) then timespec_sub r d else r)
             in if neg1 then timespec_neg r1 else r1)
           (modShift p1 p2 0))"

text \<open>Conversions. The conversion of a \<^verbatim>\<open>double\<close> to an integer (towards zero) is the argument \<open>dtrunc\<close>.\<close>

definition timespec_from_double :: "('f, 'd, 'x) fpu_scheme \<Rightarrow> ('d \<Rightarrow> int) \<Rightarrow> 'd \<Rightarrow> timespec" where
  "timespec_from_double fp dtrunc s =
     timespec_normalise \<lparr>tv_sec = dtrunc s, tv_nsec = dtrunc (dmul fp (dsub fp s (dlit fp (dtrunc s) 0)) (dlit fp NSEC_PER_SEC 0))\<rparr>"

definition timespec_to_double :: "('f, 'd, 'x) fpu_scheme \<Rightarrow> timespec \<Rightarrow> 'd" where
  "timespec_to_double fp ts = dadd fp (dlit fp (tv_sec ts) 0) (ddiv fp (dlit fp (tv_nsec ts) 0) (dlit fp NSEC_PER_SEC 0))"

definition timespec_from_timeval :: "timeval \<Rightarrow> timespec" where
  "timespec_from_timeval tv = timespec_normalise \<lparr>tv_sec = tval_sec tv, tv_nsec = tval_usec tv * 1000\<rparr>"

definition timespec_to_timeval :: "timespec \<Rightarrow> timeval" where
  "timespec_to_timeval ts = (let ts1 = timespec_normalise ts in \<lparr>tval_sec = tv_sec ts1, tval_usec = c_div (tv_nsec ts1) 1000\<rparr>)"

definition timespec_from_ms :: "int \<Rightarrow> timespec" where
  "timespec_from_ms milliseconds =
     timespec_normalise \<lparr>tv_sec = c_div milliseconds 1000, tv_nsec = c_mod milliseconds 1000 * 1000000\<rparr>"

definition timespec_to_ms :: "timespec \<Rightarrow> int" where
  "timespec_to_ms ts = tv_sec ts * 1000 + c_div (tv_nsec ts) 1000000"

text \<open>
  \<open>Semaphore::waitFor\<close> of \<^verbatim>\<open>src/src/util/Semaphore.cpp\<close>: the deadline on the monotonic clock, and the loop that
  repeats the wait while a signal interrupts it. \<open>now\<close> is \<open>None\<close> when \<^verbatim>\<open>clock_gettime\<close> fails, \<open>answers\<close> are
  what the successive calls of \<^verbatim>\<open>sem_clockwait\<close> with that deadline return; the result says whether an error
  was logged.
\<close>

datatype clockwait = Acquired | Interrupted | TimedOut | Failed int

fun semRetry :: "clockwait list \<Rightarrow> clockwait option" where
  "semRetry [] = None"
| "semRetry (a # answers) = (if a = Interrupted then semRetry answers else Some a)"

definition waitFor :: "timespec option \<Rightarrow> int \<Rightarrow> clockwait list \<Rightarrow> (timespec \<times> clockwait \<times> bool) option" where
  "waitFor now timeMilliseconds answers =
     (case now of
        None \<Rightarrow> None
      | Some ts \<Rightarrow> map_option (\<lambda>rv. (timespec_add ts (timespec_from_ms timeMilliseconds), rv, rv \<notin> {Acquired, TimedOut})) (semRetry answers))"

subsection \<open>The number of nanoseconds\<close>

definition nanos :: "timespec \<Rightarrow> int" where
  "nanos ts = tv_sec ts * NSEC_PER_SEC + tv_nsec ts"

definition normalised :: "timespec \<Rightarrow> bool" where
  "normalised ts \<longleftrightarrow> 0 \<le> tv_nsec ts \<and> tv_nsec ts < NSEC_PER_SEC"

lemma normaliseUp_nanos: "nanos (normaliseUp ts) = nanos ts \<and> tv_nsec (normaliseUp ts) < NSEC_PER_SEC \<and>
    (0 \<le> tv_nsec ts \<longrightarrow> 0 \<le> tv_nsec (normaliseUp ts))"
  by (induction ts rule: normaliseUp.induct) (subst (1 2 3) normaliseUp.simps, auto simp: nanos_def algebra_simps)

lemma normaliseDown_nanos: "nanos (normaliseDown ts) = nanos ts \<and> - NSEC_PER_SEC < tv_nsec (normaliseDown ts) \<and>
    (tv_nsec ts < NSEC_PER_SEC \<longrightarrow> tv_nsec (normaliseDown ts) < NSEC_PER_SEC)"
  by (induction ts rule: normaliseDown.induct) (subst (1 2 3) normaliseDown.simps, auto simp: nanos_def algebra_simps)

lemma normalise_nanos: "nanos (timespec_normalise ts) = nanos ts" "normalised (timespec_normalise ts)"
  using normaliseUp_nanos [of ts] normaliseDown_nanos [of "normaliseUp ts"]
  by (auto simp: timespec_normalise_def Let_def nanos_def normalised_def)

lemma normalised_unique: "normalised ts \<Longrightarrow> tv_sec ts = nanos ts div NSEC_PER_SEC \<and> tv_nsec ts = nanos ts mod NSEC_PER_SEC"
  by (simp add: normalised_def nanos_def)

lemma normalise_eq: "timespec_normalise ts = \<lparr>tv_sec = nanos ts div NSEC_PER_SEC, tv_nsec = nanos ts mod NSEC_PER_SEC\<rparr>"
  using normalised_unique [OF normalise_nanos(2), of ts] normalise_nanos(1) [of ts] by (simp add: timespec.equality)

lemma nanos_Pair: "nanos \<lparr>tv_sec = s, tv_nsec = n\<rparr> = s * NSEC_PER_SEC + n"
  by (simp add: nanos_def)

lemma nanos_add: "nanos (timespec_add a b) = nanos a + nanos b" "normalised (timespec_add a b)"
  using normalise_nanos(1) [of a, unfolded nanos_def] normalise_nanos(1) [of b, unfolded nanos_def]
  by (simp_all add: timespec_add_def Let_def normalise_nanos) (simp add: nanos_def)

lemma nanos_sub: "nanos (timespec_sub a b) = nanos a - nanos b" "normalised (timespec_sub a b)"
  using normalise_nanos(1) [of a, unfolded nanos_def] normalise_nanos(1) [of b, unfolded nanos_def]
  by (simp_all add: timespec_sub_def Let_def normalise_nanos) (simp add: nanos_def)

text \<open>Lexicographic order of normalised values is the order of their nanoseconds.\<close>

lemma nanos_less:
  assumes "normalised a" and "normalised b"
  shows "nanos a < nanos b \<longleftrightarrow> tv_sec a < tv_sec b \<or> (tv_sec a = tv_sec b \<and> tv_nsec a < tv_nsec b)"
  using assms by (auto simp: nanos_def normalised_def)

lemma nanos_eq: "normalised a \<Longrightarrow> normalised b \<Longrightarrow> nanos a = nanos b \<longleftrightarrow> tv_sec a = tv_sec b \<and> tv_nsec a = tv_nsec b"
  by (metis normalised_unique nanos_def)

lemma timespec_order:
  "timespec_gt a b \<longleftrightarrow> nanos b < nanos a" "timespec_lt a b \<longleftrightarrow> nanos a < nanos b" "timespec_eq a b \<longleftrightarrow> nanos a = nanos b"
  "timespec_ge a b \<longleftrightarrow> nanos b \<le> nanos a" "timespec_le a b \<longleftrightarrow> nanos a \<le> nanos b" "timespec_cmp a b = sgn (nanos a - nanos b)"
proof -
  note facts = nanos_less [of "timespec_normalise x" "timespec_normalise y" for x y, OF normalise_nanos(2) normalise_nanos(2), unfolded normalise_nanos(1)]
    nanos_eq [of "timespec_normalise x" "timespec_normalise y" for x y, OF normalise_nanos(2) normalise_nanos(2), unfolded normalise_nanos(1)]
  note less = facts(1) and eq = facts(2)
  show "timespec_gt a b \<longleftrightarrow> nanos b < nanos a" "timespec_lt a b \<longleftrightarrow> nanos a < nanos b" "timespec_eq a b \<longleftrightarrow> nanos a = nanos b"
    unfolding timespec_gt_def timespec_lt_def timespec_eq_def Let_def less eq by auto
  show ge: "timespec_ge a b \<longleftrightarrow> nanos b \<le> nanos a" "timespec_le a b \<longleftrightarrow> nanos a \<le> nanos b"
    unfolding timespec_ge_def timespec_le_def Let_def not_less [symmetric] less by auto
  have "sgn (nanos a - nanos b) = (if nanos a = nanos b then 0 else if nanos b < nanos a then 1 else - 1)" by simp
  then show "timespec_cmp a b = sgn (nanos a - nanos b)"
    unfolding timespec_cmp_def Let_def less eq by auto
qed

subsection \<open>The remainder\<close>

lemma nanos_neg: "nanos (timespec_neg ts) = - nanos ts"
  by (simp add: nanos_def timespec_neg_def)

lemma nanos_shl: "nanos (timespec_shl ts) = 2 * nanos ts"
  by (simp add: timespec_shl_def Let_def nanos_def push_bit_int_def)

lemma sec_shl: "0 \<le> tv_sec ts \<Longrightarrow> tv_sec ts \<le> nanos ts \<Longrightarrow> 0 \<le> tv_sec (timespec_shl ts) \<and> tv_sec (timespec_shl ts) \<le> nanos (timespec_shl ts)"
  by (auto simp: timespec_shl_def Let_def nanos_def push_bit_int_def)

lemma nanos_shr: "even (nanos ts) \<Longrightarrow> 2 * nanos (timespec_shr ts) = nanos ts"
proof -
  assume "even (nanos ts)"
  then have "even (tv_nsec ts)" by (simp add: nanos_def)
  then obtain n where n: "tv_nsec ts = 2 * n" by blast
  show ?thesis
  proof (cases "even (tv_sec ts)")
    case True
    then obtain k where k: "tv_sec ts = 2 * k" by blast
    show ?thesis using n k by (simp add: timespec_shr_def Let_def nanos_def and_one_eq drop_bit_int_def)
  next
    case False
    then obtain k where k: "tv_sec ts = 2 * k + 1" by (rule oddE)
    have "(2 * n + NSEC_PER_SEC) div 2 = n + 500000000" "(2 * k + 1) div 2 = k" by presburger+
    then show ?thesis using n k by (simp add: timespec_shr_def Let_def nanos_def and_one_eq drop_bit_int_def)
  qed
qed

text \<open>The shift ends with the first multiple \<open>2\<^sup>k\<close> of the divisor that exceeds the dividend.\<close>

lemma modShift_eq:
  assumes "0 \<le> tv_sec ts2" and "tv_sec ts2 \<le> nanos ts2" and "0 < nanos ts2" and "nanos ts1 < 2 ^ 62 - 1"
  shows "\<exists>s2 k. modShift ts1 ts2 i = Some (s2, i + k) \<and> nanos s2 = 2 ^ k * nanos ts2 \<and> nanos ts1 < nanos s2"
  using assms(1-3)
proof (induction "nat (nanos ts1 + 1 - nanos ts2)" arbitrary: ts2 i rule: less_induct)
  case less
  show ?case
  proof (cases "nanos ts2 \<le> nanos ts1")
    case True
    then have "tv_sec ts2 < drop_bit 1 LONG_MAX" using less.prems(2) assms(4) by (simp add: drop_bit_int_def)
    then have step: "modShift ts1 ts2 i = modShift ts1 (timespec_shl ts2) (i + 1)"
      using True by (subst modShift.simps) (simp add: timespec_order)
    have "nat (nanos ts1 + 1 - nanos (timespec_shl ts2)) < nat (nanos ts1 + 1 - nanos ts2)" using True less.prems(3) by (simp add: nanos_shl)
    from less.hyps [OF this, of "i + 1"] sec_shl [OF less.prems(1,2)] less.prems(3) obtain s2 k where
      "modShift ts1 (timespec_shl ts2) (i + 1) = Some (s2, i + 1 + k)" "nanos s2 = 2 ^ k * (2 * nanos ts2)" "nanos ts1 < nanos s2"
      by (auto simp: nanos_shl)
    then show ?thesis using step by (intro exI [of _ s2] exI [of _ "Suc k"]) simp
  next
    case False
    then show ?thesis by (subst modShift.simps) (intro exI [of _ ts2] exI [of _ 0], simp add: timespec_order)
  qed
qed

text \<open>The way down is division with remainder by the divisor \<open>d\<close>.\<close>

lemma modSubtract_eq:
  assumes "0 < d" and "nanos ts2 = 2 ^ i * d" and "0 \<le> nanos ts1" and "nanos ts1 < 2 * nanos ts2" and "modSubtract ts1 ts2 i = (r, s)"
  shows "nanos r = nanos ts1 mod d \<and> nanos s = d \<and> (r = ts1 \<or> normalised r)"
  using assms(2-5)
proof (induction i arbitrary: ts1 ts2)
  case 0
  have "nanos ts1 mod d = (if d \<le> nanos ts1 then nanos ts1 - d else nanos ts1)"
  proof (cases "d \<le> nanos ts1")
    case True
    have "nanos ts1 mod d = (nanos ts1 - d) mod d" by simp
    also have "\<dots> = nanos ts1 - d" using True 0 by (intro mod_pos_pos_trivial) simp_all
    finally show ?thesis using True by simp
  qed (use 0 in simp)
  then show ?case using 0 by (auto simp: timespec_order nanos_sub split: if_splits)
next
  case (Suc i)
  let ?t = "if timespec_ge ts1 ts2 then timespec_sub ts1 ts2 else ts1"
  have s: "2 * nanos (timespec_shr ts2) = nanos ts2" "nanos (timespec_shr ts2) = 2 ^ i * d"
    using nanos_shr [of ts2] Suc.prems(1) by simp_all
  have t: "0 \<le> nanos ?t" "nanos ?t < 2 * nanos (timespec_shr ts2)" "?t = ts1 \<or> normalised ?t"
    unfolding s(1) using Suc.prems(2,3) by (auto simp: timespec_order nanos_sub)
  have "nanos ts2 mod d = 0" using Suc.prems(1) by simp
  then have m: "nanos ?t mod d = nanos ts1 mod d" by (simp add: nanos_sub) (metis mod_diff_right_eq diff_zero)
  from Suc.IH [OF s(2) t(1,2)] Suc.prems(4) have "nanos r = nanos ?t mod d \<and> nanos s = d \<and> (r = ?t \<or> normalised r)" by simp
  then show ?case using t(3) m by metis
qed

lemma timespec_mod_eq:
  assumes "\<bar>nanos a\<bar> < 2 ^ 62 - 1"
  shows "\<exists>r. timespec_mod a b = Some r \<and> nanos r = nanos a mod nanos b"
proof (cases "nanos b = 0")
  case True
  then have "timespec_mod a b = Some (timespec_normalise a)" by (simp add: timespec_mod_def normalise_eq [of b])
  then show ?thesis using True normalise_nanos(1) [of a] by simp
next
  case False
  define ts1 ts2 where "ts1 = timespec_normalise a" and "ts2 = timespec_normalise b"
  have ts: "nanos ts1 = nanos a" "normalised ts1" "nanos ts2 = nanos b" "normalised ts2" by (simp_all add: ts1_def ts2_def normalise_nanos)
  have neg: "(tv_sec ts < 0 \<or> tv_nsec ts < 0) \<longleftrightarrow> nanos ts < 0" if "normalised ts" for ts
    using that by (auto simp: nanos_def normalised_def)
  have nz: "\<not> (tv_sec ts2 = 0 \<and> tv_nsec ts2 = 0)" using False ts(3) by (auto simp: nanos_def)
  define p1 p2 where "p1 = (if nanos a < 0 then timespec_neg ts1 else ts1)" and "p2 = (if nanos b < 0 then timespec_neg ts2 else ts2)"
  have p: "nanos p1 = \<bar>nanos a\<bar>" "nanos p2 = \<bar>nanos b\<bar>" using ts by (simp_all add: p1_def p2_def nanos_neg)
  have sec: "0 \<le> tv_sec p2" "tv_sec p2 \<le> nanos p2"
    using ts(3,4) by (auto simp: p2_def timespec_neg_def nanos_def normalised_def)
  have zero: "nanos p1 = 0 \<Longrightarrow> tv_sec p1 = 0 \<and> tv_nsec p1 = 0"
    using ts(1,2) p(1) normalised_unique [of ts1] by (auto simp: p1_def)
  obtain s2 k where sh: "modShift p1 p2 0 = Some (s2, k)" "nanos s2 = 2 ^ k * \<bar>nanos b\<bar>" "nanos p1 < nanos s2"
    using modShift_eq [OF sec, of p1 0] assms False p by auto
  obtain r d where su: "modSubtract p1 s2 k = (r, d)" by (rule prod.exhaust)
  have r: "nanos r = \<bar>nanos a\<bar> mod \<bar>nanos b\<bar>" "nanos d = \<bar>nanos b\<bar>" "r = p1 \<or> normalised r"
    using modSubtract_eq [OF _ sh(2) _ _ su] sh(3) False p by auto
  have "tv_sec r = 0 \<and> tv_nsec r = 0" if "nanos r = 0" using r(3)
  proof
    assume "r = p1"
    then show ?thesis using zero that by simp
  next
    assume "normalised r"
    then show ?thesis using normalised_unique [of r] that by simp
  qed
  moreover have "nanos r = 0" if "tv_sec r = 0 \<and> tv_nsec r = 0" using that by (simp add: nanos_def)
  ultimately have rz: "(tv_sec r \<noteq> 0 \<or> tv_nsec r \<noteq> 0) \<longleftrightarrow> nanos r \<noteq> 0" by blast
  define r1 where "r1 = (if (nanos a < 0) \<noteq> (nanos b < 0) \<and> nanos r \<noteq> 0 then timespec_sub r d else r)"
  have "timespec_mod a b = Some (if nanos a < 0 then timespec_neg r1 else r1)"
    unfolding timespec_mod_def ts1_def [symmetric] ts2_def [symmetric] Let_def neg [OF ts(2)] neg [OF ts(4)] ts(1,3) p1_def [symmetric] p2_def [symmetric]
    using nz sh(1) su rz by (auto simp: r1_def)
  moreover have "nanos a mod nanos b \<noteq> nanos b"
    using False neg_mod_bound [of "nanos b" "nanos a"] pos_mod_bound [of "nanos b" "nanos a"] by linarith
  then have "nanos (if nanos a < 0 then timespec_neg r1 else r1) = nanos a mod nanos b"
    using r(1,2)
    by (auto simp: r1_def nanos_neg nanos_sub abs_if zmod_zminus1_eq_if zmod_zminus2_eq_if split: if_splits)
  ultimately show ?thesis by blast
qed

subsection \<open>Properties\<close>

text \<open>Conversions to milliseconds and to \<open>timeval\<close> and back.\<close>

lemma nanos_from_ms: "nanos (timespec_from_ms ms) = ms * 1000000"
proof -
  have "c_div ms 1000 * NSEC_PER_SEC + c_mod ms 1000 * 1000000 = (c_div ms 1000 * 1000 + c_mod ms 1000) * 1000000" by simp
  also have "\<dots> = ms * 1000000" by (simp only: c_div_mod)
  finally show ?thesis by (simp add: timespec_from_ms_def normalise_nanos nanos_Pair)
qed

lemma to_ms_from_ms: "timespec_to_ms (timespec_from_ms ms) = ms"
proof -
  have n: "normalised (timespec_from_ms ms)" by (simp add: timespec_from_ms_def normalise_nanos)
  have "ms * 1000000 div NSEC_PER_SEC = ms div 1000" "ms * 1000000 mod NSEC_PER_SEC = ms mod 1000 * 1000000"
    using div_mult_mult2 [of 1000000 ms 1000] mod_mult_mult2 [of ms 1000000 1000] by simp_all
  then show ?thesis using normalised_unique [OF n] unfolding timespec_to_ms_def nanos_from_ms by simp
qed

lemma to_timeval_from_timeval:
  assumes "0 \<le> tval_usec tv" and "tval_usec tv < 1000000"
  shows "timespec_to_timeval (timespec_from_timeval tv) = tv"
  using assms by (simp add: timespec_to_timeval_def timespec_from_timeval_def normalise_eq nanos_Pair)

text \<open>A timed wait ends at most the given time after it began, and only failures other than a time-out are logged.\<close>

lemma waitFor_deadline:
  assumes "waitFor (Some now) ms answers = Some (deadline, rv, logged)"
  shows "nanos deadline = nanos now + ms * 1000000 \<and> normalised deadline \<and> rv \<noteq> Interrupted \<and> (logged \<longleftrightarrow> (\<exists>e. rv = Failed e))"
proof -
  have "semRetry answers = Some rv \<Longrightarrow> rv \<noteq> Interrupted" by (induction answers) (auto split: if_splits)
  then show ?thesis using assms by (cases rv) (auto simp: waitFor_def nanos_add nanos_from_ms)
qed

text \<open>
  C40: timespec_normalise computes the normal form: for every \<open>ts\<close>, whatever its fields, its result is the
  one timespec with \<open>0 \<le> tv_nsec < 10\<^sup>9\<close> that denotes the same number of nanoseconds.
\<close>

theorem timespec_normal_form:
  "normalised ts' \<and> nanos ts' = nanos ts \<longleftrightarrow> ts' = timespec_normalise ts"
proof
  assume "normalised ts' \<and> nanos ts' = nanos ts"
  then show "ts' = timespec_normalise ts" using normalised_unique [of ts'] by (simp add: normalise_eq timespec.equality)
qed (simp add: normalise_nanos)

text \<open>
  Sums, differences, comparisons, minimum, maximum and clamping of timespec values are those of the
  numbers of nanoseconds they denote, for every argument, normalised or not; sums and differences are
  normalised; and milliseconds survive the conversion to timespec and back.
\<close>

theorem timespec_operations:
  "nanos (timespec_add a b) = nanos a + nanos b \<and> normalised (timespec_add a b) \<and>
   nanos (timespec_sub a b) = nanos a - nanos b \<and> normalised (timespec_sub a b) \<and>
   timespec_cmp a b = sgn (nanos a - nanos b) \<and> (timespec_eq a b \<longleftrightarrow> nanos a = nanos b) \<and>
   (timespec_lt a b \<longleftrightarrow> nanos a < nanos b) \<and> (timespec_le a b \<longleftrightarrow> nanos a \<le> nanos b) \<and>
   (timespec_gt a b \<longleftrightarrow> nanos a > nanos b) \<and> (timespec_ge a b \<longleftrightarrow> nanos a \<ge> nanos b) \<and>
   nanos (timespec_min a b) = min (nanos a) (nanos b) \<and> nanos (timespec_max a b) = max (nanos a) (nanos b) \<and>
   nanos (timespec_clamp ts a b) = (if nanos b < nanos ts then nanos b else max (nanos a) (nanos ts)) \<and>
   timespec_to_ms (timespec_from_ms ms) = ms"
  by (simp add: nanos_add nanos_sub timespec_order timespec_min_def timespec_max_def timespec_clamp_def min_def max_def to_ms_from_ms)

text \<open>
  timespec_mod, division by shifting and subtracting, returns, and its result denotes the remainder of
  floored division (the sign of the divisor), for every dividend of less than \<open>2\<^sup>6\<^sup>2 - 1\<close> nanoseconds and every
  divisor, zero included, which leaves the dividend.
\<close>

theorem timespec_mod_value:
  assumes "\<bar>nanos a\<bar> < 2 ^ 62 - 1"
  shows "\<exists>r. timespec_mod a b = Some r \<and> nanos r = nanos a mod nanos b"
  using timespec_mod_eq [OF assms] .

theorem timespec_mod_value_witness:
  "\<exists>r. timespec_mod \<lparr>tv_sec = - 3, tv_nsec = 500000000\<rparr> \<lparr>tv_sec = 0, tv_nsec = 2000000000\<rparr> = Some r \<and> nanos r = 1500000000"
  using timespec_mod_value [of "\<lparr>tv_sec = - 3, tv_nsec = 500000000\<rparr>" "\<lparr>tv_sec = 0, tv_nsec = 2000000000\<rparr>"] by (simp add: nanos_def)

end
