(* ===== verification/Psk_Reporter.thy ===== *)
theory Psk_Reporter
  imports FDV_Prelude "HOL-Library.Monad_Syntax"
begin

text \<open>
  The PSK Reporter client (\<^verbatim>\<open>pskreporter.cpp\<close>, \<^verbatim>\<open>pskreporter.h\<close>): the sender records, the sizes and the
  encoding of the datagram, and \<open>reportCommon_\<close> with its error paths. The packet is a byte list of a fixed
  length and every store through a pointer is a \<open>poke\<close> at an offset, which is \<open>None\<close> when it would leave the
  allocation. The results of \<open>time\<close>, \<open>getaddrinfo\<close>, \<open>socket\<close> and \<open>sendto\<close> are an argument (\<open>net\<close>), and what
  is acquired, used and released is returned as a trace. Sizes are natural numbers: the model leaves out
  strings of \<open>2\<^sup>3\<^sup>1\<close> bytes and more. The theorems of this theory say that no store leaves the packet, what the
  packet holds, and that every path releases what it acquired.
\<close>

type_synonym bytes = "u8 list"

subsection \<open>Stores through a pointer\<close>

definition poke :: "nat \<Rightarrow> bytes \<Rightarrow> bytes \<Rightarrow> bytes option" where
  "poke i bs buf = (if i + length bs \<le> length buf then Some (splice_at i bs buf) else None)"

text \<open>The memory representation of \<open>htons(x)\<close> and \<open>htonl(x)\<close>: most significant byte first.\<close>

definition htons :: "16 word \<Rightarrow> bytes" where
  "htons x = [ucast (drop_bit 8 x), ucast x]"

definition htonl :: "u32 \<Rightarrow> bytes" where
  "htonl x = [ucast (drop_bit 24 x), ucast (drop_bit 16 x), ucast (drop_bit 8 x), ucast x]"

subsection \<open>The format headers\<close>

definition rxFormatHeader :: bytes where
  "rxFormatHeader =
    [0x00, 0x03, 0x00, 0x24, 0x99, 0x92, 0x00, 0x03, 0x00, 0x00,
     0x80, 0x02, 0xFF, 0xFF, 0x00, 0x00, 0x76, 0x8F,
     0x80, 0x04, 0xFF, 0xFF, 0x00, 0x00, 0x76, 0x8F,
     0x80, 0x08, 0xFF, 0xFF, 0x00, 0x00, 0x76, 0x8F,
     0x00, 0x00]"

definition txFormatHeader :: bytes where
  "txFormatHeader =
    [0x00, 0x02, 0x00, 0x34, 0x99, 0x93, 0x00, 0x06,
     0x80, 0x01, 0xFF, 0xFF, 0x00, 0x00, 0x76, 0x8F,
     0x80, 0x05, 0x00, 0x05, 0x00, 0x00, 0x76, 0x8F,
     0x80, 0x06, 0x00, 0x01, 0x00, 0x00, 0x76, 0x8F,
     0x80, 0x0A, 0xFF, 0xFF, 0x00, 0x00, 0x76, 0x8F,
     0x80, 0x0B, 0x00, 0x01, 0x00, 0x00, 0x76, 0x8F,
     0x00, 0x96, 0x00, 0x04]"

subsection \<open>SenderRecord\<close>

record sender_record =
  sr_callsign :: bytes
  sr_frequency :: u64
  sr_snr :: u8
  sr_mode :: bytes
  sr_infoSource :: u8
  sr_flowTimeSeconds :: u32

text \<open>The constructor; \<open>now\<close> is the result of \<open>time(0)\<close>, and the mode is \<^verbatim>\<open>FREEDV\<close>.\<close>

definition senderRecord :: "u32 \<Rightarrow> bytes \<Rightarrow> u64 \<Rightarrow> u8 \<Rightarrow> sender_record" where
  "senderRecord now callsign frequency snr =
     \<lparr>sr_callsign = callsign, sr_frequency = frequency, sr_snr = snr,
      sr_mode = [0x46, 0x52, 0x45, 0x45, 0x44, 0x56], sr_infoSource = 1, sr_flowTimeSeconds = now\<rparr>"

definition recordSize :: "sender_record \<Rightarrow> nat" where
  "recordSize r = (1 + length (sr_callsign r)) + 5 + 1 + (1 + length (sr_mode r)) + 1 + 4"

text \<open>\<open>encode(&buf[p])\<close>: the field pointer walks over the record as in the source.\<close>

definition sender_encode :: "sender_record \<Rightarrow> nat \<Rightarrow> bytes \<Rightarrow> bytes option" where
  "sender_encode r p buf = do {
     buf \<leftarrow> poke p [word_of_nat (length (sr_callsign r))] buf;
     buf \<leftarrow> poke (p + 1) (sr_callsign r) buf;
     let p = p + (1 + length (sr_callsign r));
     buf \<leftarrow> poke p [ucast (drop_bit 32 (sr_frequency r) AND 0xff)] buf;
     let p = p + 1;
     buf \<leftarrow> poke p [ucast (drop_bit 24 (sr_frequency r) AND 0xff)] buf;
     let p = p + 1;
     buf \<leftarrow> poke p [ucast (drop_bit 16 (sr_frequency r) AND 0xff)] buf;
     let p = p + 1;
     buf \<leftarrow> poke p [ucast (drop_bit 8 (sr_frequency r) AND 0xff)] buf;
     let p = p + 1;
     buf \<leftarrow> poke p [ucast (sr_frequency r AND 0xff)] buf;
     let p = p + 1;
     buf \<leftarrow> poke p [sr_snr r] buf;
     let p = p + 1;
     buf \<leftarrow> poke p [word_of_nat (length (sr_mode r))] buf;
     buf \<leftarrow> poke (p + 1) (sr_mode r) buf;
     let p = p + (1 + length (sr_mode r));
     buf \<leftarrow> poke p [sr_infoSource r] buf;
     let p = p + 1;
     poke p (htonl (sr_flowTimeSeconds r)) buf
   }"

subsection \<open>PskReporter: sizes and encoding\<close>

record psk_reporter =
  currentSequenceNumber :: u32
  randomIdentifier :: u32
  receiverCallsign :: bytes
  receiverGridSquare :: bytes
  decodingSoftware :: bytes
  recordList :: "sender_record list"

text \<open>The constructor; \<open>ident\<close> is the number the random engine draws.\<close>

definition psk_new :: "u32 \<Rightarrow> bytes \<Rightarrow> bytes \<Rightarrow> bytes \<Rightarrow> psk_reporter" where
  "psk_new ident callsign gridSquare software =
     \<lparr>currentSequenceNumber = 0, randomIdentifier = ident, receiverCallsign = callsign,
      receiverGridSquare = gridSquare, decodingSoftware = software, recordList = []\<rparr>"

definition padSize :: "nat \<Rightarrow> nat" where
  "padSize n = (if n mod 4 > 0 then n + (4 - n mod 4) else n)"

definition getRxDataSize :: "psk_reporter \<Rightarrow> nat" where
  "getRxDataSize s = padSize (4 + (1 + length (receiverCallsign s)) + (1 + length (receiverGridSquare s)) +
     (1 + length (decodingSoftware s)))"

definition getTxDataSize :: "psk_reporter \<Rightarrow> nat" where
  "getTxDataSize s =
     (if length (recordList s) = 0 then 0
      else padSize (foldl (\<lambda>n item. n + recordSize item) 4 (recordList s)))"

definition encodeReceiverRecord :: "psk_reporter \<Rightarrow> nat \<Rightarrow> bytes \<Rightarrow> bytes option" where
  "encodeReceiverRecord s p buf = do {
     buf \<leftarrow> poke p [0x99] buf;
     buf \<leftarrow> poke (p + 1) [0x92] buf;
     let p = p + 2;
     buf \<leftarrow> poke p (htons (word_of_nat (getRxDataSize s))) buf;
     let p = p + 2;
     buf \<leftarrow> poke p [word_of_nat (length (receiverCallsign s))] buf;
     buf \<leftarrow> poke (p + 1) (receiverCallsign s) buf;
     let p = p + (1 + length (receiverCallsign s));
     buf \<leftarrow> poke p [word_of_nat (length (receiverGridSquare s))] buf;
     buf \<leftarrow> poke (p + 1) (receiverGridSquare s) buf;
     let p = p + (1 + length (receiverGridSquare s));
     buf \<leftarrow> poke p [word_of_nat (length (decodingSoftware s))] buf;
     poke (p + 1) (decodingSoftware s) buf
   }"

fun encodeLoop :: "sender_record list \<Rightarrow> nat \<Rightarrow> bytes \<Rightarrow> bytes option" where
  "encodeLoop [] p buf = Some buf"
| "encodeLoop (rec # recs) p buf = do {
     buf \<leftarrow> sender_encode rec p buf;
     encodeLoop recs (p + recordSize rec) buf
   }"

definition encodeSenderRecords :: "psk_reporter \<Rightarrow> nat \<Rightarrow> bytes \<Rightarrow> bytes option" where
  "encodeSenderRecords s p buf =
     (if length (recordList s) = 0 then Some buf
      else do {
        buf \<leftarrow> poke p [0x99] buf;
        buf \<leftarrow> poke (p + 1) [0x93] buf;
        let p = p + 2;
        buf \<leftarrow> poke p (htons (word_of_nat (getTxDataSize s))) buf;
        let p = p + 2;
        encodeLoop (recordList s) p buf
      })"

definition datagramSize :: "psk_reporter \<Rightarrow> nat" where
  "datagramSize s =
     (let dgSize = 16 + length rxFormatHeader + length txFormatHeader + getRxDataSize s + getTxDataSize s
      in if getTxDataSize s = 0 then dgSize - length txFormatHeader else dgSize)"

definition encodePacket :: "u32 \<Rightarrow> psk_reporter \<Rightarrow> bytes option" where
  "encodePacket now s = do {
     let packet = replicate (datagramSize s) 0;
     packet \<leftarrow> poke 0 [0x00] packet;
     packet \<leftarrow> poke 1 [0x0A] packet;
     let p = 2;
     packet \<leftarrow> poke p (htons (word_of_nat (datagramSize s))) packet;
     let p = p + 2;
     packet \<leftarrow> poke p (htonl now) packet;
     let p = p + 4;
     packet \<leftarrow> poke p (htonl (currentSequenceNumber s)) packet;
     let p = p + 4;
     packet \<leftarrow> poke p (htonl (randomIdentifier s)) packet;
     let p = p + 4;
     packet \<leftarrow> poke p rxFormatHeader packet;
     let p = p + length rxFormatHeader;
     (packet, p) \<leftarrow> (if getTxDataSize s > 0
        then map_option (\<lambda>packet. (packet, p + length txFormatHeader)) (poke p txFormatHeader packet)
        else Some (packet, p));
     packet \<leftarrow> encodeReceiverRecord s p packet;
     let p = p + getRxDataSize s;
     encodeSenderRecords s p packet
   }"

subsection \<open>reportCommon and its error paths\<close>

text \<open>What the operating system answers during one report.\<close>

record net =
  net_time :: u32
  getaddrinfo_err :: int
  socket_fd :: int
  sendto_rv :: int

datatype net_event =
    NewPacket | DeletePacket
  | GetAddrInfo int | FreeAddrInfo
  | OpenSocket int | CloseSocket int
  | SendTo int bytes

definition reportCommon :: "net \<Rightarrow> psk_reporter \<Rightarrow> (bool \<times> net_event list \<times> psk_reporter) option" where
  "reportCommon net s = do {
     packet \<leftarrow> encodePacket (net_time net) s;
     let s = s\<lparr>currentSequenceNumber := currentSequenceNumber s + 1, recordList := []\<rparr>;
     let err = getaddrinfo_err net;
     if err \<noteq> 0 then Some (False, [NewPacket, GetAddrInfo err, DeletePacket], s)
     else do {
       let fd = socket_fd net;
       if fd < 0 then Some (False, [NewPacket, GetAddrInfo err, OpenSocket fd, DeletePacket, FreeAddrInfo], s)
       else if sendto_rv net < 0 then
         Some (False, [NewPacket, GetAddrInfo err, OpenSocket fd, SendTo fd packet, DeletePacket, CloseSocket fd, FreeAddrInfo], s)
       else Some (True, [NewPacket, GetAddrInfo err, OpenSocket fd, SendTo fd packet, DeletePacket, CloseSocket fd, FreeAddrInfo], s)
     }
   }"

subsection \<open>Ownership\<close>

text \<open>
  The discipline a trace has to keep, from a state that says whether the packet and the address list are
  allocated and which socket is open: nothing is acquired twice or released without being held, the address
  list is only used while it is held, a datagram is only sent with all three, and nothing is held at the end.
\<close>

fun owned :: "bool \<Rightarrow> bool \<Rightarrow> int option \<Rightarrow> net_event list \<Rightarrow> bool" where
  "owned pkt info fd [] \<longleftrightarrow> \<not> pkt \<and> \<not> info \<and> fd = None"
| "owned pkt info fd (NewPacket # es) \<longleftrightarrow> \<not> pkt \<and> owned True info fd es"
| "owned pkt info fd (DeletePacket # es) \<longleftrightarrow> pkt \<and> owned False info fd es"
| "owned pkt info fd (GetAddrInfo err # es) \<longleftrightarrow> \<not> info \<and> owned pkt (err = 0) fd es"
| "owned pkt info fd (FreeAddrInfo # es) \<longleftrightarrow> info \<and> owned pkt False fd es"
| "owned pkt info fd (OpenSocket f # es) \<longleftrightarrow> info \<and> fd = None \<and> owned pkt info (if f < 0 then None else Some f) es"
| "owned pkt info fd (CloseSocket f # es) \<longleftrightarrow> fd = Some f \<and> owned pkt info None es"
| "owned pkt info fd (SendTo f bs # es) \<longleftrightarrow> pkt \<and> info \<and> fd = Some f \<and> owned pkt info fd es"

definition datagrams :: "net_event list \<Rightarrow> bytes list" where
  "datagrams es = concat (map (\<lambda>e. case e of SendTo fd bs \<Rightarrow> [bs] | _ \<Rightarrow> []) es)"

subsection \<open>What the packet holds\<close>

text \<open>A string with its length byte.\<close>

definition field :: "bytes \<Rightarrow> bytes" where
  "field xs = word_of_nat (length xs) # xs"

definition freqBytes :: "u64 \<Rightarrow> bytes" where
  "freqBytes f = map (\<lambda>k. ucast (drop_bit k f AND 0xff)) [32, 24, 16, 8, 0]"

definition senderBytes :: "sender_record \<Rightarrow> bytes" where
  "senderBytes r = field (sr_callsign r) @ freqBytes (sr_frequency r) @ [sr_snr r] @ field (sr_mode r) @
     [sr_infoSource r] @ htonl (sr_flowTimeSeconds r)"

definition padded :: "bytes \<Rightarrow> bytes" where
  "padded xs = xs @ replicate (padSize (length xs) - length xs) 0"

text \<open>A set of the datagram: its identifier, its length with the padding, and the padded contents.\<close>

definition dataSet :: "bytes \<Rightarrow> bytes \<Rightarrow> bytes" where
  "dataSet ident body = padded (ident @ htons (word_of_nat (padSize (4 + length body))) @ body)"

definition rxBody :: "psk_reporter \<Rightarrow> bytes" where
  "rxBody s = field (receiverCallsign s) @ field (receiverGridSquare s) @ field (decodingSoftware s)"

definition txBody :: "psk_reporter \<Rightarrow> bytes" where
  "txBody s = concat (map senderBytes (recordList s))"

definition packetBytes :: "u32 \<Rightarrow> psk_reporter \<Rightarrow> bytes" where
  "packetBytes now s =
     [0x00, 0x0A] @ htons (word_of_nat (datagramSize s)) @ htonl now @ htonl (currentSequenceNumber s) @ htonl (randomIdentifier s) @
     rxFormatHeader @ (if recordList s = [] then [] else txFormatHeader) @ dataSet [0x99, 0x92] (rxBody s) @
     (if recordList s = [] then [] else dataSet [0x99, 0x93] (txBody s))"

lemma length_htons [simp, byte_simps]: "length (htons x) = 2"
  by (simp add: htons_def)

lemma length_htonl [simp, byte_simps]: "length (htonl x) = 4"
  by (simp add: htonl_def)

lemma length_field [simp, byte_simps]: "length (field xs) = 1 + length xs"
  by (simp add: field_def)

lemma length_senderBytes [simp, byte_simps]: "length (senderBytes r) = recordSize r"
  by (simp add: senderBytes_def recordSize_def freqBytes_def)

lemma length_formats [simp, byte_simps]: "length rxFormatHeader = 36" "length txFormatHeader = 52"
  by (simp_all add: rxFormatHeader_def txFormatHeader_def)

lemma padSize_ge [simp]: "n \<le> padSize n"
  unfolding padSize_def by presburger

lemma padSize_lt: "padSize n < n + 4"
  unfolding padSize_def by presburger

lemma length_padded [simp, byte_simps]: "length (padded xs) = padSize (length xs)"
  by (simp add: padded_def)

text \<open>A store behind everything written so far, in a packet that is zero from there on.\<close>

lemma poke_next:
  assumes "i = length xs" and "length bs \<le> n"
  shows "poke i bs (xs @ replicate n 0) = Some ((xs @ bs) @ replicate (n - length bs) 0)"
  using assms by (simp add: poke_def splice_at_def)

lemma sender_encode_bytes:
  assumes "p = length xs" and "recordSize r \<le> n"
  shows "sender_encode r p (xs @ replicate n 0) = Some ((xs @ senderBytes r) @ replicate (n - recordSize r) 0)"
  using assms unfolding sender_encode_def recordSize_def
  by (simp add: poke_next senderBytes_def field_def freqBytes_def Let_def del: append_assoc append.simps)

lemma encodeReceiverRecord_bytes:
  assumes "p = length xs" and "getRxDataSize s \<le> n"
  shows "encodeReceiverRecord s p (xs @ replicate n 0) =
    Some ((xs @ dataSet [0x99, 0x92] (rxBody s)) @ replicate (n - getRxDataSize s) 0)"
proof -
  let ?used = "4 + (1 + length (receiverCallsign s)) + (1 + length (receiverGridSquare s)) + (1 + length (decodingSoftware s))"
  have fit: "?used \<le> n" using assms(2) padSize_ge [of ?used] unfolding getRxDataSize_def by linarith
  have size: "getRxDataSize s = padSize (4 + length (rxBody s))" "4 + length (rxBody s) = ?used"
    by (simp_all add: getRxDataSize_def rxBody_def add_ac)
  have "encodeReceiverRecord s p (xs @ replicate n 0) =
    Some ((xs @ [0x99, 0x92] @ htons (word_of_nat (getRxDataSize s)) @ rxBody s) @ replicate (n - ?used) 0)"
    using assms(1) fit unfolding encodeReceiverRecord_def
    by (simp add: poke_next rxBody_def field_def Let_def del: append_assoc append.simps)
  moreover have "replicate (n - ?used) (0 :: u8) = replicate (getRxDataSize s - ?used) 0 @ replicate (n - getRxDataSize s) 0"
    using assms(2) padSize_ge [of ?used] size by (simp add: replicate_add [symmetric] del: replicate_add)
  ultimately show ?thesis using size by (simp add: dataSet_def padded_def)
qed

lemma encodeLoop_bytes:
  "p = length xs \<Longrightarrow> length (concat (map senderBytes recs)) \<le> n \<Longrightarrow>
    encodeLoop recs p (xs @ replicate n 0) =
    Some ((xs @ concat (map senderBytes recs)) @ replicate (n - length (concat (map senderBytes recs))) 0)"
proof (induction recs arbitrary: xs p n)
  case (Cons r recs)
  then show ?case using sender_encode_bytes [of p xs r n] Cons.IH [of "p + recordSize r" "xs @ senderBytes r" "n - recordSize r"]
    by simp
qed simp

lemma foldl_recordSize: "foldl (\<lambda>n item. n + recordSize item) k rs = k + length (concat (map senderBytes rs))"
  by (induction rs arbitrary: k) simp_all

lemma getTxDataSize_eq: "getTxDataSize s = (if recordList s = [] then 0 else padSize (4 + length (txBody s)))"
  by (simp add: getTxDataSize_def foldl_recordSize txBody_def)

lemma length_dataSet [simp, byte_simps]: "length ident = 2 \<Longrightarrow> length (dataSet ident body) = padSize (4 + length body)"
  by (simp add: dataSet_def eval_nat_numeral)

lemma encodeSenderRecords_bytes:
  assumes "p = length xs" and "getTxDataSize s = n"
  shows "encodeSenderRecords s p (xs @ replicate n 0) =
    Some (xs @ (if recordList s = [] then [] else dataSet [0x99, 0x93] (txBody s)))"
proof (cases "recordList s = []")
  case True
  then show ?thesis using assms by (simp add: encodeSenderRecords_def getTxDataSize_def)
next
  case False
  then have n: "n = padSize (4 + length (txBody s))" using assms(2) by (simp add: getTxDataSize_eq)
  have fit: "4 + length (txBody s) \<le> n" by (simp add: n)
  let ?pre = "((xs @ [0x99]) @ [0x93]) @ htons (word_of_nat n)"
  have "encodeLoop (recordList s) (length xs + 4) (?pre @ replicate (n - 4) 0) =
    Some ((?pre @ txBody s) @ replicate (n - 4 - length (txBody s)) 0)"
    using fit encodeLoop_bytes [of "length xs + 4" ?pre "recordList s" "n - 4"] by (simp add: txBody_def del: append_assoc)
  then have "encodeSenderRecords s p (xs @ replicate n 0) = Some ((?pre @ txBody s) @ replicate (n - 4 - length (txBody s)) 0)"
    using assms fit False unfolding encodeSenderRecords_def by (simp add: poke_next Let_def eval_nat_numeral del: append_assoc)
  then show ?thesis using False n by (simp add: dataSet_def padded_def eval_nat_numeral)
qed

lemma getTxDataSize_pos: "0 < getTxDataSize s \<longleftrightarrow> recordList s \<noteq> []"
proof -
  have "0 < padSize (4 + length (txBody s))" by (rule less_le_trans [OF _ padSize_ge]) simp
  then show ?thesis by (simp add: getTxDataSize_eq)
qed

lemma datagramSize_eq:
  "datagramSize s = 52 + (if recordList s = [] then 0 else 52) + getRxDataSize s + getTxDataSize s"
  using getTxDataSize_pos [of s] by (auto simp: datagramSize_def Let_def)

lemma getRxDataSize_eq: "getRxDataSize s = padSize (4 + length (rxBody s))"
  by (simp add: getRxDataSize_def rxBody_def add_ac)

lemma length_packetBytes [simp, byte_simps]: "length (packetBytes now s) = datagramSize s"
  by (simp add: packetBytes_def datagramSize_eq getRxDataSize_eq getTxDataSize_eq)

text \<open>No store of the encoder leaves the packet, and every byte of the packet is determined.\<close>

lemma encodePacket_bytes: "encodePacket now s = Some (packetBytes now s)"
proof -
  let ?hdr = "(((([] @ [0x00]) @ [0x0A]) @ htons (word_of_nat (datagramSize s))) @ htonl now) @ htonl (currentSequenceNumber s)"
  let ?fmt = "(?hdr @ htonl (randomIdentifier s)) @ rxFormatHeader"
  let ?tx = "if recordList s = [] then [] else txFormatHeader"
  let ?n = "getRxDataSize s + getTxDataSize s"
  have fmt: "length ?fmt = 52" by simp
  have rx: "encodeReceiverRecord s (52 + length ?tx) ((?fmt @ ?tx) @ replicate ?n 0) =
    Some (((?fmt @ ?tx) @ dataSet [0x99, 0x92] (rxBody s)) @ replicate (getTxDataSize s) 0)"
    using encodeReceiverRecord_bytes [of "52 + length ?tx" "?fmt @ ?tx" s ?n] by (simp del: append_assoc)
  have tx: "encodeSenderRecords s (52 + length ?tx + getRxDataSize s)
      (((?fmt @ ?tx) @ dataSet [0x99, 0x92] (rxBody s)) @ replicate (getTxDataSize s) 0) = Some (packetBytes now s)"
    by (subst encodeSenderRecords_bytes) (simp_all add: packetBytes_def getRxDataSize_eq)
  have zero: "replicate (datagramSize s) (0 :: u8) = [] @ replicate (52 + length ?tx + ?n) 0" by (simp add: datagramSize_eq)
  show ?thesis
  proof (cases "recordList s = []")
    case True
    then show ?thesis using getTxDataSize_pos [of s] rx tx fmt unfolding encodePacket_def Let_def zero
      by (simp add: poke_next eval_nat_numeral del: append_assoc append.simps append_Nil replicate_Suc)
  next
    case False
    then show ?thesis using getTxDataSize_pos [of s] rx tx fmt unfolding encodePacket_def Let_def zero
      by (simp add: poke_next eval_nat_numeral del: append_assoc append.simps append_Nil replicate_Suc)
  qed
qed

text \<open>
  C14: A report never writes outside its packet and always comes to an end; it returns true exactly when the
  name was resolved, a socket was opened and the datagram was handed to the network. A datagram leaves only
  when the first two succeeded, and it is then the packet built from the records. Every path, the three error
  paths included, releases the packet, the address list and the socket exactly once and only uses them while
  it holds them. On every path the record list is empty afterwards and the sequence number has advanced.
\<close>

theorem psk_report_errors:
  "\<exists>ok es. reportCommon net s = Some (ok, es, s\<lparr>currentSequenceNumber := currentSequenceNumber s + 1, recordList := []\<rparr>) \<and>
     (ok \<longleftrightarrow> getaddrinfo_err net = 0 \<and> 0 \<le> socket_fd net \<and> 0 \<le> sendto_rv net) \<and>
     datagrams es = (if getaddrinfo_err net = 0 \<and> 0 \<le> socket_fd net then [packetBytes (net_time net) s] else []) \<and>
     length (packetBytes (net_time net) s) = datagramSize s \<and> owned False False None es"
  by (simp add: reportCommon_def encodePacket_bytes Let_def datagrams_def)

end
