(* ===== verification/Reporter_Log.thy ===== *)
theory Reporter_Log
  imports Main
begin

text \<open>
  The part of the interface \<open>IReporter\<close> (\<^verbatim>\<open>IReporter.h\<close>) that the reporters share: \<open>addReceiveRecord\<close>. What a
  reporter has logged is a list that each call extends by one entry, as long as the reporter is in order. The CSV
  reporter and the PSK reporter are interpretations of the locale.
\<close>

locale record_log =
  fixes ok :: "'s \<Rightarrow> bool"
    and log :: "'s \<Rightarrow> 'v list"
    and entry :: "'r \<Rightarrow> 'v"
    and add :: "'r \<Rightarrow> 's \<Rightarrow> 's"
  assumes ok_add: "ok s \<Longrightarrow> ok (add r s)"
    and log_add: "ok s \<Longrightarrow> log (add r s) = log s @ [entry r]"
begin

lemma ok_fold: "ok s \<Longrightarrow> ok (fold add rs s)"
  by (induction rs arbitrary: s) (simp_all add: ok_add)

lemma log_fold: "ok s \<Longrightarrow> log (fold add rs s) = log s @ map entry rs"
  by (induction rs arbitrary: s) (simp_all add: ok_add log_add)

end

end
