(* ===== verification/Psk_Decode.thy ===== *)
theory Psk_Decode
  imports Psk_Reporter Reporter_Log
begin

text \<open>
  What a collector reads from a PSK Reporter datagram. The decoder is a reference definition, written after the
  IPFIX message format and not after the encoder: it walks over the sets of a message by their length fields,
  takes the field lengths from the template sets the message itself carries, and reads the data sets with them.
  The encoder of \<open>Psk_Reporter\<close> is then related to it: the records come back, in order and unchanged. The last
  part adds the calls (\<open>addReceiveRecord\<close>, \<open>send\<close>, the background thread and the destructor) as a step relation
  and shows that every record that was added is in exactly one datagram or still in the list.
\<close>

subsection \<open>Big-endian numbers\<close>

definition be :: "bytes \<Rightarrow> nat" where
  "be bs = foldl (\<lambda>v b. v * 256 + unat b) 0 bs"

subsection \<open>Messages, sets and templates\<close>

function (sequential) sets :: "bytes \<Rightarrow> (nat \<times> bytes) list option" where
  "sets bs =
     (if bs = [] then Some []
      else if length bs < 4 then None
      else let len = be (take 2 (drop 2 bs)) in
        if len < 4 \<or> length bs < len then None
        else map_option (\<lambda>ss. (be (take 2 bs), drop 4 (take len bs)) # ss) (sets (drop len bs)))"
  by pat_completeness auto

termination
  by (relation "measure length") auto

declare sets.simps [simp del]

text \<open>The lengths of \<open>n\<close> field specifiers; a specifier of an enterprise is followed by its number.\<close>

fun fieldSpecs :: "nat \<Rightarrow> bytes \<Rightarrow> nat list option" where
  "fieldSpecs 0 bs = Some []"
| "fieldSpecs (Suc n) bs =
     (let skip = (if be (take 2 bs) \<ge> 0x8000 then 8 else 4)
      in if length bs < skip then None
         else map_option (\<lambda>ws. be (take 2 (drop 2 bs)) # ws) (fieldSpecs n (drop skip bs)))"

text \<open>Set 2 holds a template, set 3 an options template, which has a count of scope fields.\<close>

definition templateOf :: "nat \<times> bytes \<Rightarrow> (nat \<times> nat list) option" where
  "templateOf = (\<lambda>(ident, body).
     let fields = (\<lambda>n. map_option (Pair (be (take 2 body))) (fieldSpecs (be (take 2 (drop 2 body))) (drop n body)))
     in if ident = 2 then fields 4 else if ident = 3 then fields 6 else None)"

text \<open>A field of length 65535 carries its length in one byte, or in two after a byte 255.\<close>

definition takeField :: "nat \<Rightarrow> bytes \<Rightarrow> (bytes \<times> bytes) option" where
  "takeField n bs = (if length bs < n then None else Some (take n bs, drop n bs))"

definition readField :: "nat \<Rightarrow> bytes \<Rightarrow> (bytes \<times> bytes) option" where
  "readField w bs =
     (if w \<noteq> 65535 then takeField w bs
      else case bs of [] \<Rightarrow> None
        | b # r \<Rightarrow> if b = 255 then (if length r < 2 then None else takeField (be (take 2 r)) (drop 2 r)) else takeField (unat b) r)"

fun readRecord :: "nat list \<Rightarrow> bytes \<Rightarrow> (bytes list \<times> bytes) option" where
  "readRecord [] bs = Some ([], bs)"
| "readRecord (w # ws) bs = do {
     (v, bs) \<leftarrow> readField w bs;
     (vs, bs) \<leftarrow> readRecord ws bs;
     Some (v # vs, bs)
   }"

definition minLength :: "nat list \<Rightarrow> nat" where
  "minLength ws = sum_list (map (\<lambda>w. if w = 65535 then 1 else w) ws)"

text \<open>The records of a data set; what is shorter than any record is padding.\<close>

function readRecords :: "nat list \<Rightarrow> bytes \<Rightarrow> bytes list list" where
  "readRecords ws bs =
     (if length bs < minLength ws then []
      else case readRecord ws bs of None \<Rightarrow> []
        | Some (vs, rest) \<Rightarrow> if length rest < length bs then vs # readRecords ws rest else [vs])"
  by pat_completeness auto

termination
  by (relation "measure (length \<circ> snd)") auto

declare readRecords.simps [simp del]

subsection \<open>The report a collector sees\<close>

record psk_report =
  rep_time :: nat
  rep_sequence :: nat
  rep_identifier :: nat
  rep_callsign :: bytes
  rep_gridSquare :: bytes
  rep_software :: bytes
  rep_senders :: "sender_record list"

definition senderOf :: "bytes list \<Rightarrow> sender_record" where
  "senderOf vs =
     \<lparr>sr_callsign = vs ! 0, sr_frequency = word_of_nat (be (vs ! 1)), sr_snr = word_of_nat (be (vs ! 2)), sr_mode = vs ! 3,
      sr_infoSource = word_of_nat (be (vs ! 4)), sr_flowTimeSeconds = word_of_nat (be (vs ! 5))\<rparr>"

definition psk_decode :: "bytes \<Rightarrow> psk_report option" where
  "psk_decode bs =
     (if length bs < 16 \<or> be (take 2 bs) \<noteq> 10 \<or> be (take 2 (drop 2 bs)) \<noteq> length bs then None
      else do {
        ss \<leftarrow> sets (drop 16 bs);
        let ts = map_of (List.map_filter templateOf ss);
        rx \<leftarrow> map_of ss 0x9992;
        ws \<leftarrow> ts 0x9992;
        (vs, _) \<leftarrow> readRecord ws rx;
        let senders = (case (map_of ss 0x9993, ts 0x9993) of (Some tx, Some ws) \<Rightarrow> map senderOf (readRecords ws tx) | _ \<Rightarrow> []);
        Some \<lparr>rep_time = be (take 4 (drop 4 bs)), rep_sequence = be (take 4 (drop 8 bs)), rep_identifier = be (take 4 (drop 12 bs)),
          rep_callsign = vs ! 0, rep_gridSquare = vs ! 1, rep_software = vs ! 2, rep_senders = senders\<rparr>
      })"

subsection \<open>Numbers come back\<close>

lemma unat_drop: "unat (drop_bit k w) = unat w div 2 ^ k" for w :: "'a :: len word"
proof -
  have "take_bit LENGTH('a) (unat w) = unat w" by (simp add: take_bit_nat_eq_self)
  then have "unat (drop_bit k w) = drop_bit k (unat w)" by (simp only: unsigned_drop_bit_eq)
  then show ?thesis by (simp only: drop_bit_eq_div [where 'a = nat])
qed

lemma unat_byte: "unat (ucast w :: u8) = unat w mod 256"
  by (simp add: unsigned_ucast_eq take_bit_eq_mod)

lemma unat_byte_masked: "unat (ucast (w AND 0xff) :: u8) = unat w mod 256" for w :: u64
proof -
  have "w AND 0xff = take_bit 8 w" by (simp add: take_bit_eq_mask mask_eq_exp_minus_1)
  then have "unat (w AND 0xff) = take_bit 8 (unat w)" by (simp only: unsigned_take_bit_eq)
  then show ?thesis by (simp add: unsigned_ucast_eq take_bit_eq_mod)
qed

text \<open>Putting the quotient and the remainder of a division by 256 together again.\<close>

lemma join_byte: "n div (256 * k) * 256 + n div k mod 256 = n div k" for n k :: nat
  by (simp add: div_mult2_eq mult.commute [of 256])

lemmas join_bytes = div_mult_mod_eq [of _ "256 :: nat"] join_byte [of _ 256, simplified] join_byte [of _ 65536, simplified]
  join_byte [of _ 16777216, simplified]

lemma be_htons [simp]: "be (htons x) = unat x"
proof -
  have "unat x < 65536" using unsigned_less [of x] by simp
  then have "unat x div 256 mod 256 = unat x div 256" by (intro mod_less) (simp add: less_mult_imp_div_less)
  moreover have "be (htons x) = unat x div 256 mod 256 * 256 + unat x mod 256"
    by (simp add: be_def htons_def unat_byte unat_drop)
  ultimately show ?thesis by (simp only: join_bytes)
qed

lemma be_htonl [simp]: "be (htonl x) = unat x"
proof -
  let ?n = "unat x"
  have "?n < 4294967296" using unsigned_less [of x] by simp
  then have "?n div 16777216 mod 256 = ?n div 16777216" by (intro mod_less) (simp add: less_mult_imp_div_less)
  moreover have "be (htonl x) = ((?n div 16777216 mod 256 * 256 + ?n div 65536 mod 256) * 256 + ?n div 256 mod 256) * 256 + ?n mod 256"
    by (simp add: be_def htonl_def unat_byte unat_drop)
  ultimately show ?thesis by (simp only: join_bytes)
qed

lemma be_freqBytes [simp]: "unat f < 2 ^ 40 \<Longrightarrow> be (freqBytes f) = unat f"
proof -
  let ?n = "unat f"
  assume "?n < 2 ^ 40"
  then have "?n div 4294967296 mod 256 = ?n div 4294967296" by (intro mod_less) (simp add: less_mult_imp_div_less)
  moreover have "be (freqBytes f) =
    (((?n div 4294967296 mod 256 * 256 + ?n div 16777216 mod 256) * 256 + ?n div 65536 mod 256) * 256 + ?n div 256 mod 256) * 256 + ?n mod 256"
    by (simp add: be_def freqBytes_def unat_byte_masked unat_drop)
  ultimately show ?thesis by (simp only: join_bytes)
qed

lemma be_single [simp]: "be [b] = unat b"
  by (simp add: be_def)

subsection \<open>Sets, fields and records come back\<close>

lemma sets_Nil [simp]: "sets [] = Some []"
  by (simp add: sets.simps)

lemma sets_append:
  assumes "be (take 2 (drop 2 xs)) = length xs" and "4 \<le> length xs"
  shows "sets (xs @ rest) = map_option (\<lambda>ss. (be (take 2 xs), drop 4 xs) # ss) (sets rest)"
proof -
  have "take 2 (drop 2 (xs @ rest)) = take 2 (drop 2 xs)" "take 2 (xs @ rest) = take 2 xs" using assms(2) by simp_all
  moreover have "xs @ rest \<noteq> []" using assms(2) by auto
  ultimately show ?thesis using assms by (subst sets.simps) (simp add: Let_def)
qed

definition padding :: "bytes \<Rightarrow> bytes" where
  "padding body = replicate (padSize (4 + length body) - (4 + length body)) 0"

lemma length_padding: "length (padding body) < 4"
  using padSize_lt [of "4 + length body"] by (simp add: padding_def)

lemma sets_dataSet [simp]:
  assumes "length ident = 2" and "padSize (4 + length body) < 65536"
  shows "sets (dataSet ident body @ rest) = map_option (\<lambda>ss. (be ident, body @ padding body) # ss) (sets rest)"
proof -
  let ?n = "padSize (4 + length body)"
  have ds: "dataSet ident body = ident @ htons (word_of_nat ?n) @ body @ padding body"
    using assms(1) by (simp add: dataSet_def padded_def padding_def eval_nat_numeral)
  have n: "unat (word_of_nat ?n :: 16 word) = ?n" using assms(2) by (simp add: unat_of_nat)
  have "take 2 (dataSet ident body) = ident" "drop 2 (dataSet ident body) = htons (word_of_nat ?n) @ body @ padding body"
    "drop 4 (dataSet ident body) = body @ padding body" using assms(1) by (simp_all add: ds)
  then show ?thesis
    using assms(1) n order_trans [OF le_add1 padSize_ge [of "4 + length body"]] by (subst sets_append) simp_all
qed

lemma readField_field [simp]: "length xs < 255 \<Longrightarrow> readField 65535 (field xs @ rest) = Some (xs, rest)"
proof -
  assume "length xs < 255"
  then have "unat (word_of_nat (length xs) :: u8) = length xs" by (simp add: unat_of_nat)
  moreover have "word_of_nat (length xs) \<noteq> (255 :: u8)"
  proof
    assume "word_of_nat (length xs) = (255 :: u8)"
    then have "length xs = unat (255 :: u8)" using calculation by simp
    then show False using \<open>length xs < 255\<close> by simp
  qed
  ultimately show ?thesis by (simp add: readField_def field_def takeField_def)
qed

lemma readField_fixed [simp]: "w \<noteq> 65535 \<Longrightarrow> length v = w \<Longrightarrow> readField w (v @ rest) = Some (v, rest)"
  by (auto simp: readField_def takeField_def)

definition senderFields :: "sender_record \<Rightarrow> bytes list" where
  "senderFields r = [sr_callsign r, freqBytes (sr_frequency r), [sr_snr r], sr_mode r, [sr_infoSource r], htonl (sr_flowTimeSeconds r)]"

text \<open>What the format of the data asks of a record: strings with one length byte, a frequency of five bytes.\<close>

definition sender_ok :: "sender_record \<Rightarrow> bool" where
  "sender_ok r \<longleftrightarrow> length (sr_callsign r) < 255 \<and> length (sr_mode r) < 255 \<and> unat (sr_frequency r) < 2 ^ 40"

definition reporter_ok :: "psk_reporter \<Rightarrow> bool" where
  "reporter_ok s \<longleftrightarrow> length (receiverCallsign s) < 255 \<and> length (receiverGridSquare s) < 255 \<and> length (decodingSoftware s) < 255 \<and>
     list_all sender_ok (recordList s)"

lemma length_freqBytes [simp, byte_simps]: "length (freqBytes f) = 5"
  by (simp add: freqBytes_def)

definition senderSpec :: "nat list" where
  "senderSpec = [65535, 5, 1, 65535, 1, 4]"

lemma readRecord_sender:
  "sender_ok r \<Longrightarrow> readRecord senderSpec (senderBytes r @ rest) = Some (senderFields r, rest)"
  using readField_fixed [of 1 "[sr_snr r]"] readField_fixed [of 1 "[sr_infoSource r]"]
  by (simp add: senderSpec_def senderBytes_def senderFields_def sender_ok_def)

lemma minLength_sender: "minLength senderSpec = 13" "recordSize r \<ge> 13"
  by (simp_all add: senderSpec_def minLength_def recordSize_def)

lemma readRecords_senders:
  assumes "list_all sender_ok rs" and "length pad < 4"
  shows "readRecords senderSpec (concat (map senderBytes rs) @ pad) = map senderFields rs"
  using assms(1)
proof (induction rs)
  case Nil
  then show ?case using assms(2) by (subst readRecords.simps) (simp add: minLength_sender)
next
  case (Cons r rs)
  then show ?case using minLength_sender(2) [of r]
    by (subst readRecords.simps) (simp add: minLength_sender(1) readRecord_sender)
qed

lemma senderOf_fields: "sender_ok r \<Longrightarrow> senderOf (senderFields r) = r"
  by (simp add: senderOf_def senderFields_def sender_ok_def)

subsection \<open>The round trip\<close>

lemma format_headers:
  "be (take 2 rxFormatHeader) = 3 \<and> be (take 2 (drop 2 rxFormatHeader)) = 36"
  "be (take 2 txFormatHeader) = 2 \<and> be (take 2 (drop 2 txFormatHeader)) = 52"
  by code_simp+

lemma sets_formats [simp]:
  "sets (rxFormatHeader @ rest) = map_option (\<lambda>ss. (3, drop 4 rxFormatHeader) # ss) (sets rest)"
  "sets (txFormatHeader @ rest) = map_option (\<lambda>ss. (2, drop 4 txFormatHeader) # ss) (sets rest)"
  by (simp_all add: sets_append format_headers)

lemma fieldSpecs_numeral:
  "fieldSpecs (numeral k) bs =
     (let skip = (if be (take 2 bs) \<ge> 0x8000 then 8 else 4)
      in if length bs < skip then None
         else map_option (\<lambda>ws. be (take 2 (drop 2 bs)) # ws) (fieldSpecs (pred_numeral k) (drop skip bs)))"
  by (simp only: numeral_eq_Suc fieldSpecs.simps)

lemma templateOf_formats [simp]:
  "templateOf (3, drop 4 rxFormatHeader) = Some (0x9992, [65535, 65535, 65535])"
  "templateOf (2, drop 4 txFormatHeader) = Some (0x9993, senderSpec)"
  by (simp_all add: templateOf_def rxFormatHeader_def txFormatHeader_def be_def senderSpec_def fieldSpecs_numeral)

lemma templateOf_data [simp]: "ident \<noteq> 2 \<Longrightarrow> ident \<noteq> 3 \<Longrightarrow> templateOf (ident, body) = None"
  by (simp add: templateOf_def Let_def)

lemma be_idents [simp]: "be [0x99, 0x92] = 0x9992" "be [0x99, 0x93] = 0x9993" "be [0x00, 0x0A] = 10"
  by (simp_all add: be_def)

lemma readRecord_receiver:
  "reporter_ok s \<Longrightarrow> readRecord [65535, 65535, 65535] (rxBody s @ rest) =
    Some ([receiverCallsign s, receiverGridSquare s, decodingSoftware s], rest)"
  by (simp add: rxBody_def reporter_ok_def)

lemma map_senderOf: "list_all sender_ok rs \<Longrightarrow> map (senderOf \<circ> senderFields) rs = rs"
  by (induction rs) (simp_all add: senderOf_fields)

definition expectedReport :: "u32 \<Rightarrow> psk_reporter \<Rightarrow> psk_report" where
  "expectedReport now s =
     \<lparr>rep_time = unat now, rep_sequence = unat (currentSequenceNumber s), rep_identifier = unat (randomIdentifier s),
      rep_callsign = receiverCallsign s, rep_gridSquare = receiverGridSquare s, rep_software = decodingSoftware s,
      rep_senders = recordList s\<rparr>"

lemma psk_decode_packet:
  assumes ok: "reporter_ok s" and size: "datagramSize s < 65536"
  shows "psk_decode (packetBytes now s) = Some (expectedReport now s)"
proof -
  let ?p = "packetBytes now s"
  let ?tx = "if recordList s = [] then [] else dataSet [0x99, 0x93] (txBody s)"
  let ?fmt = "if recordList s = [] then [] else txFormatHeader"
  have body: "drop 16 ?p = rxFormatHeader @ ?fmt @ dataSet [0x99, 0x92] (rxBody s) @ ?tx" by (simp add: packetBytes_def)
  have hdr: "take 2 ?p = [0x00, 0x0A]" "take 2 (drop 2 ?p) = htons (word_of_nat (datagramSize s))"
    "take 4 (drop 4 ?p) = htonl now" "take 4 (drop 8 ?p) = htonl (currentSequenceNumber s)"
    "take 4 (drop 12 ?p) = htonl (randomIdentifier s)"
    by (simp_all add: packetBytes_def)
  have len: "unat (word_of_nat (datagramSize s) :: 16 word) = datagramSize s" using size by (simp add: unat_of_nat)
  have small: "16 \<le> datagramSize s" "padSize (4 + length (rxBody s)) < 65536"
    "recordList s \<noteq> [] \<Longrightarrow> padSize (4 + length (txBody s)) < 65536"
    using size by (auto simp: datagramSize_eq getRxDataSize_eq getTxDataSize_eq)
  have tx: "list_all sender_ok (recordList s)" using ok by (simp add: reporter_ok_def)
  show ?thesis
  proof (cases "recordList s = []")
    case True
    have "sets (drop 16 ?p) = Some [(3, drop 4 rxFormatHeader), (0x9992, rxBody s @ padding (rxBody s))]"
      using small(2) sets_dataSet [of "[0x99, 0x92]" "rxBody s" "[]"] True by (simp add: body)
    then show ?thesis using True ok small(1) len
      by (simp add: psk_decode_def hdr map_filter_def readRecord_receiver expectedReport_def del: readRecord.simps)
  next
    case False
    have "sets (drop 16 ?p) = Some [(3, drop 4 rxFormatHeader), (2, drop 4 txFormatHeader), (0x9992, rxBody s @ padding (rxBody s)),
        (0x9993, txBody s @ padding (txBody s))]"
      using small(2,3) sets_dataSet [of "[0x99, 0x93]" "txBody s" "[]"] False by (simp add: body)
    moreover have "map senderOf (readRecords senderSpec (txBody s @ padding (txBody s))) = recordList s"
      using readRecords_senders [OF tx length_padding [of "txBody s"]] map_senderOf [OF tx] by (simp add: txBody_def)
    ultimately show ?thesis using ok small(1) len
      by (simp add: psk_decode_def hdr map_filter_def readRecord_receiver expectedReport_def del: readRecord.simps)
  qed
qed

text \<open>
  C12: A collector that knows only the message format gets the report back: from the packet of \<open>reportCommon_\<close>
  it reads the time, the sequence number, the identifier, the three receiver strings and the list of sender
  records, in order and unchanged. It is required that the strings have fewer than 255 bytes, the frequencies
  fit into their five bytes and the datagram is shorter than 65536 bytes, since each length field is cut off to
  its size.
\<close>

theorem psk_round_trip:
  assumes "reporter_ok s" and "datagramSize s < 65536"
  shows "\<exists>packet. encodePacket now s = Some packet \<and> psk_decode packet = Some (expectedReport now s)"
  using psk_decode_packet [OF assms] by (simp add: encodePacket_bytes)

definition demo_reporter :: psk_reporter where
  "demo_reporter = (psk_new 7 [75, 54, 65, 81] [68, 77, 49, 50] [70])\<lparr>recordList := [senderRecord 9 [78, 49] 14236000 5, senderRecord 10 [] 1 0xF6]\<rparr>"

lemma demo_reporter_ok: "reporter_ok demo_reporter" "datagramSize demo_reporter < 65536"
  by (simp_all add: demo_reporter_def psk_new_def senderRecord_def reporter_ok_def sender_ok_def datagramSize_def
      getRxDataSize_def getTxDataSize_def padSize_def recordSize_def)

theorem psk_round_trip_witness:
  "\<exists>packet. encodePacket 3 demo_reporter = Some packet \<and> psk_decode packet = Some (expectedReport 3 demo_reporter)"
  by (rule psk_round_trip [OF demo_reporter_ok])

subsection \<open>The calls and the background thread\<close>

text \<open>\<open>addReceiveRecord\<close> up to the end of its critical section; the first component is \<open>sendNow\<close>.\<close>

definition addReceiveRecord :: "u32 \<Rightarrow> bytes \<Rightarrow> u64 \<Rightarrow> u8 \<Rightarrow> psk_reporter \<Rightarrow> bool \<times> psk_reporter" where
  "addReceiveRecord now callsign frequency snr s =
     (let s = s\<lparr>recordList := recordList s @ [senderRecord now callsign frequency snr]\<rparr>
      in (length (recordList s) \<ge> 50, s))"

text \<open>The list of records is a log, whatever the state.\<close>

definition psk_add :: "u32 \<times> bytes \<times> u64 \<times> u8 \<Rightarrow> psk_reporter \<Rightarrow> psk_reporter" where
  "psk_add = (\<lambda>(now, callsign, frequency, snr) s. snd (addReceiveRecord now callsign frequency snr s))"

interpretation psk: record_log "\<lambda>_. True" recordList "\<lambda>(now, callsign, frequency, snr). senderRecord now callsign frequency snr" psk_add
  by unfold_locales (auto simp: psk_add_def addReceiveRecord_def)

text \<open>
  One thread calls the reporter; it is outside, inside \<open>send\<close> (before the join), or it has run the destructor.
  \<open>sendThread\<close> says that the background thread was started and has not finished. The last three fields record
  the history: the records added, the packets built and the datagrams handed to the network.
\<close>

datatype psk_caller = Outside | InSend | Destroyed

record psk_sys =
  reporter :: psk_reporter
  caller :: psk_caller
  sendThread :: bool
  added :: "sender_record list"
  packets :: "bytes list"
  sent :: "bytes list"

definition psk_init :: "psk_reporter \<Rightarrow> psk_sys" where
  "psk_init r = \<lparr>reporter = r, caller = Outside, sendThread = False, added = [], packets = [], sent = []\<rparr>"

text \<open>\<open>reportCommon_\<close> holds the lock of the list until it returns, so it is one step.\<close>

definition runReport :: "net \<Rightarrow> psk_sys \<Rightarrow> psk_sys option" where
  "runReport net s = do {
     packet \<leftarrow> encodePacket (net_time net) (reporter s);
     (ok, es, r) \<leftarrow> reportCommon net (reporter s);
     Some (s\<lparr>reporter := r, packets := packets s @ [packet], sent := sent s @ datagrams es\<rparr>)
   }"

inductive psk_step :: "psk_sys \<Rightarrow> psk_sys \<Rightarrow> bool" where
  add: "caller s = Outside \<Longrightarrow> addReceiveRecord now c f n (reporter s) = (sendNow, r) \<Longrightarrow>
    psk_step s (s\<lparr>reporter := r, caller := (if sendNow then InSend else Outside), added := added s @ [senderRecord now c f n]\<rparr>)"
| send: "caller s = Outside \<Longrightarrow> psk_step s (s\<lparr>caller := InSend\<rparr>)"
| spawn: "caller s = InSend \<Longrightarrow> \<not> sendThread s \<Longrightarrow> psk_step s (s\<lparr>caller := Outside, sendThread := True\<rparr>)"
| report: "sendThread s \<Longrightarrow> runReport net s = Some s' \<Longrightarrow> psk_step s (s'\<lparr>sendThread := False\<rparr>)"
| destroy: "caller s = Outside \<Longrightarrow> \<not> sendThread s \<Longrightarrow>
    (if recordList (reporter s) \<noteq> [] then runReport net s else Some s) = Some s' \<Longrightarrow>
    psk_step s (s'\<lparr>caller := Destroyed\<rparr>)"

text \<open>The records a collector reads from the packets.\<close>

definition collected :: "bytes list \<Rightarrow> sender_record list" where
  "collected ps = concat (map (\<lambda>p. case psk_decode p of None \<Rightarrow> [] | Some r \<Rightarrow> rep_senders r) ps)"

lemma collected_append [simp]: "collected (ps @ qs) = collected ps @ collected qs"
  by (simp add: collected_def)

definition receiver_ok :: "psk_reporter \<Rightarrow> bool" where
  "receiver_ok r \<longleftrightarrow> length (receiverCallsign r) < 255 \<and> length (receiverGridSquare r) < 255 \<and> length (decodingSoftware r) < 255"

text \<open>How long the list can be: one more than the threshold when the caller meets a running report.\<close>

definition listBound :: "psk_sys \<Rightarrow> nat" where
  "listBound s = (case caller s of Outside \<Rightarrow> if sendThread s then 50 else 49 | InSend \<Rightarrow> if sendThread s then 51 else 50 | Destroyed \<Rightarrow> 0)"

definition psk_inv :: "psk_sys \<Rightarrow> bool" where
  "psk_inv s \<longleftrightarrow> receiver_ok (reporter s) \<and> length (recordList (reporter s)) \<le> listBound s \<and>
     currentSequenceNumber (reporter s) = word_of_nat (length (packets s)) \<and> (caller s = Destroyed \<longrightarrow> \<not> sendThread s) \<and>
     set (sent s) \<subseteq> set (packets s) \<and>
     (list_all sender_ok (added s) \<longrightarrow>
       collected (packets s) @ recordList (reporter s) = added s \<and> list_all (\<lambda>p. length p \<le> 65507) (packets s) \<and>
       map (\<lambda>p. map_option rep_sequence (psk_decode p)) (packets s) = map (\<lambda>i. Some (i mod 2 ^ 32)) [0..<length (packets s)])"

text \<open>With a bounded list the packet fits into a UDP datagram and its length fields are not cut off.\<close>

lemma senders_length:
  "list_all sender_ok rs \<Longrightarrow> length (concat (map senderBytes rs)) \<le> length rs * 521"
  by (induction rs) (auto simp: sender_ok_def recordSize_def)

lemma datagramSize_bound:
  assumes "reporter_ok r" and "length (recordList r) \<le> 51"
  shows "datagramSize r \<le> 65507"
proof -
  have "length (txBody r) \<le> 51 * 521"
    using assms senders_length [of "recordList r"] by (auto simp: reporter_ok_def txBody_def intro: order_trans)
  moreover have "length (rxBody r) \<le> 3 * 255" using assms(1) by (simp add: reporter_ok_def rxBody_def)
  ultimately show ?thesis using padSize_lt [of "4 + length (rxBody r)"] padSize_lt [of "4 + length (txBody r)"]
    by (simp add: datagramSize_eq getRxDataSize_eq getTxDataSize_eq)
qed

lemma runReport_eq:
  "runReport net s = Some s' \<Longrightarrow>
    reporter s' = (reporter s)\<lparr>currentSequenceNumber := currentSequenceNumber (reporter s) + 1, recordList := []\<rparr> \<and>
    packets s' = packets s @ [packetBytes (net_time net) (reporter s)] \<and> caller s' = caller s \<and> sendThread s' = sendThread s \<and>
    added s' = added s \<and> set (sent s') \<subseteq> set (sent s) \<union> {packetBytes (net_time net) (reporter s)}"
  by (auto simp: runReport_def encodePacket_bytes reportCommon_def datagrams_def Let_def split: if_splits)

lemma runReport_inv:
  assumes inv: "psk_inv s" and run: "runReport net s = Some s'" and c: "c = caller s \<or> c = Destroyed"
  shows "psk_inv (s'\<lparr>sendThread := False, caller := c\<rparr>)"
proof -
  note r = runReport_eq [OF run]
  let ?p = "packetBytes (net_time net) (reporter s)"
  have bound: "length (recordList (reporter s)) \<le> 51"
    using inv by (auto simp: psk_inv_def listBound_def split: psk_caller.splits if_splits)
  have "psk_decode ?p = Some (expectedReport (net_time net) (reporter s)) \<and> length ?p \<le> 65507" if "list_all sender_ok (added s)"
  proof -
    have "set (recordList (reporter s)) \<subseteq> set (added s)" using that inv unfolding psk_inv_def by (metis Un_upper2 set_append)
    then have "reporter_ok (reporter s)" using that inv by (auto simp: psk_inv_def reporter_ok_def receiver_ok_def list_all_iff)
    then show ?thesis using datagramSize_bound [OF _ bound] by (auto intro!: psk_decode_packet)
  qed
  then show ?thesis using inv r unfolding psk_inv_def
    by (auto simp: listBound_def receiver_ok_def collected_def expectedReport_def unat_of_nat)
qed

lemma psk_step_inv: "psk_step s s' \<Longrightarrow> psk_inv s \<Longrightarrow> psk_inv s'"
proof (induction rule: psk_step.induct)
  case (add s now c f n sendNow r)
  then show ?case
    by (auto simp: psk_inv_def listBound_def addReceiveRecord_def Let_def receiver_ok_def split: if_splits)
next
  case (send s)
  then show ?case by (auto simp: psk_inv_def listBound_def split: if_splits)
next
  case (spawn s)
  then show ?case by (auto simp: psk_inv_def listBound_def)
next
  case (report s net s')
  have "s'\<lparr>sendThread := False, caller := caller s\<rparr> = s'\<lparr>sendThread := False\<rparr>"
    using runReport_eq [OF report(2)] by (intro psk_sys.equality) simp_all
  then show ?case using runReport_inv [OF report(3,2), of "caller s"] by simp
next
  case (destroy s net s')
  show ?case
  proof (cases "recordList (reporter s) = []")
    case True
    then show ?thesis using destroy by (auto simp: psk_inv_def listBound_def)
  next
    case False
    then have run: "runReport net s = Some s'" using destroy(3) by simp
    have "s'\<lparr>sendThread := False, caller := Destroyed\<rparr> = s'\<lparr>caller := Destroyed\<rparr>"
      using runReport_eq [OF run] destroy(2) by (intro psk_sys.equality) simp_all
    then show ?thesis using runReport_inv [OF destroy(4) run, of Destroyed] by simp
  qed
qed

lemma psk_reachable_inv:
  assumes "psk_step\<^sup>*\<^sup>* (psk_init r) s" and "receiver_ok r" and "currentSequenceNumber r = 0" and "recordList r = []"
  shows "psk_inv s"
  using assms(1)
proof (induction rule: rtranclp_induct)
  case base
  then show ?case using assms(2-4) by (simp add: psk_inv_def psk_init_def listBound_def collected_def)
next
  case (step s t)
  then show ?case using psk_step_inv by blast
qed

text \<open>
  C13: For every order in which a thread adds records, sends and destroys the reporter while the background
  thread reports: what a collector reads from the packets built so far, followed by the records still in the
  list, is exactly the list of records added, so none is lost, doubled or reordered, and after the destructor
  none is left. The packets carry the sequence numbers 0, 1, 2, ..., each fits into a UDP datagram, at most 51
  records are ever waiting, and only such packets are sent.
\<close>

theorem psk_conservation:
  assumes "psk_step\<^sup>*\<^sup>* (psk_init (psk_new ident callsign grid software)) s"
    and "length callsign < 255" and "length grid < 255" and "length software < 255" and "list_all sender_ok (added s)"
  shows "collected (packets s) @ recordList (reporter s) = added s \<and>
    (caller s = Destroyed \<longrightarrow> recordList (reporter s) = []) \<and>
    map (\<lambda>p. map_option rep_sequence (psk_decode p)) (packets s) = map (\<lambda>i. Some (i mod 2 ^ 32)) [0..<length (packets s)] \<and>
    list_all (\<lambda>p. length p \<le> 65507) (packets s) \<and> set (sent s) \<subseteq> set (packets s) \<and> length (recordList (reporter s)) \<le> 51"
proof -
  have inv: "psk_inv s" by (rule psk_reachable_inv [OF assms(1)]) (use assms(2-4) in \<open>simp_all add: receiver_ok_def psk_new_def\<close>)
  then have "length (recordList (reporter s)) \<le> 51" "caller s = Destroyed \<longrightarrow> recordList (reporter s) = []"
    by (auto simp: psk_inv_def listBound_def split: psk_caller.splits if_splits)
  then show ?thesis using inv assms(5) by (simp only: psk_inv_def simp_thms)
qed

text \<open>A run: one record is added, and the destructor reports it.\<close>

lemma psk_demo_run:
  "\<exists>s. psk_step\<^sup>*\<^sup>* (psk_init (psk_new 7 [75] [68] [70])) s \<and> caller s = Destroyed \<and> added s = [senderRecord 3 [78] 14236000 5] \<and>
     length (packets s) = 1 \<and> sent s = packets s"
proof -
  let ?net = "\<lparr>net_time = 4, getaddrinfo_err = 0, socket_fd = 5, sendto_rv = 1\<rparr>"
  let ?s0 = "psk_init (psk_new 7 [75] [68] [70])"
  let ?s1 = "?s0\<lparr>reporter := (reporter ?s0)\<lparr>recordList := [senderRecord 3 [78] 14236000 5]\<rparr>, caller := Outside,
    added := [senderRecord 3 [78] 14236000 5]\<rparr>"
  obtain s2 where run: "runReport ?net ?s1 = Some s2" and sent: "sent s2 = packets s2"
    by (simp add: runReport_def encodePacket_bytes reportCommon_def datagrams_def psk_init_def)
  have "psk_step ?s0 ?s1"
    using psk_step.add [of ?s0 3 "[78]" 14236000 5 False] by (simp add: psk_init_def psk_new_def addReceiveRecord_def)
  moreover have "psk_step ?s1 (s2\<lparr>caller := Destroyed\<rparr>)"
    using run by (intro psk_step.destroy [where net = ?net]) (simp_all add: psk_init_def)
  ultimately have "psk_step\<^sup>*\<^sup>* ?s0 (s2\<lparr>caller := Destroyed\<rparr>)" by (meson converse_rtranclp_into_rtranclp r_into_rtranclp)
  then show ?thesis using runReport_eq [OF run] sent by (intro exI [of _ "s2\<lparr>caller := Destroyed\<rparr>"]) (simp add: psk_init_def)
qed

theorem psk_conservation_witness:
  "\<exists>s. psk_step\<^sup>*\<^sup>* (psk_init (psk_new 7 [75] [68] [70])) s \<and> length (packets s) = 1 \<and> sent s = packets s \<and>
     collected (packets s) = [senderRecord 3 [78] 14236000 5]"
proof -
  obtain s where s: "psk_step\<^sup>*\<^sup>* (psk_init (psk_new 7 [75] [68] [70])) s" "caller s = Destroyed" "added s = [senderRecord 3 [78] 14236000 5]"
    "length (packets s) = 1" "sent s = packets s" using psk_demo_run by blast
  have "list_all sender_ok (added s)" by (simp add: s(3) senderRecord_def sender_ok_def)
  from psk_conservation [OF s(1) _ _ _ this] show ?thesis using s by (intro exI [of _ s]) auto
qed

end
