(* ===== verification/Transition_System.thy ===== *)
theory Transition_System
  imports Main
begin

text \<open>
  Runs of a labelled step relation, with the labels of the steps in order, and the contract of an invariant: what
  every step keeps, every run keeps. The threads of \<open>Threaded_Timer\<close> and \<open>Threaded_Object\<close> are such systems.
\<close>

inductive lrun :: "('s \<Rightarrow> 'l \<Rightarrow> 's \<Rightarrow> bool) \<Rightarrow> 's \<Rightarrow> 'l list \<Rightarrow> 's \<Rightarrow> bool" for step where
  run_Nil: "lrun step s [] s"
| run_Cons: "step s l s1 \<Longrightarrow> lrun step s1 ls s2 \<Longrightarrow> lrun step s (l # ls) s2"

lemma lrun_append: "lrun step s ls s1 \<Longrightarrow> lrun step s1 ks s2 \<Longrightarrow> lrun step s (ls @ ks) s2"
  by (induction rule: lrun.induct) (auto intro: run_Cons)

text \<open>
  \<open>inv\<close> is kept by every step.
\<close>

locale stable_system =
  fixes step :: "'s \<Rightarrow> 'l \<Rightarrow> 's \<Rightarrow> bool"
    and inv :: "'s \<Rightarrow> bool"
  assumes step_stable: "step s l s' \<Longrightarrow> inv s \<Longrightarrow> inv s'"
begin

lemma run_stable: "lrun step s ls s' \<Longrightarrow> inv s \<Longrightarrow> inv s'"
  by (induction rule: lrun.induct) (auto intro: step_stable)

text \<open>A second property that holds as long as no label of a set occurs; its steps have no label of another set.\<close>

lemma run_without:
  assumes "lrun step s ls s'" and "inv s" and "P s" and "set ls \<inter> A = {}"
    and "\<And>s l s'. step s l s' \<Longrightarrow> inv s \<Longrightarrow> P s \<Longrightarrow> l \<notin> A \<Longrightarrow> P s' \<and> l \<notin> B"
  shows "P s' \<and> set ls \<inter> B = {}"
  using assms(1-4)
proof (induction rule: lrun.induct)
  case (run_Cons s l s1 ls s2)
  then show ?case using assms(5) [of s l s1] step_stable [of s l s1] by auto
qed simp

end

end
