(* ===== verification/Threaded_Timer.thy ===== *)
theory Threaded_Timer
  imports FDV_Prelude Transition_System "HOL-Library.Multiset"
begin

text \<open>
  \<open>ThreadedTimer\<close> and its \<open>TimerServer\<close> (\<^verbatim>\<open>ThreadedTimer.cpp\<close>, \<^verbatim>\<open>ThreadedTimer.h\<close>) as a labelled step relation. A
  critical section under \<open>mutex_\<close> is one step; a callback runs between a \<open>Fire\<close> step and the \<open>Fired\<close> step, and
  any thread, the server's own from inside a callback included, may call the operations in between. The vector
  \<open>timerQueue_\<close> is a list; the standard heap algorithms are relations that promise what the standard does: any
  rearrangement, and a heap when their precondition holds. Shown: the queue is a heap without duplicates and
  holds exactly the running timers; a timer never fires early or before an earlier one; and once \<open>stop\<close> has
  returned the timer's callback neither runs nor will run until the timer is started again.
\<close>

subsection \<open>Standard heap algorithms\<close>

text \<open>A heap for the order of \<open>FireTimeComparator\<close>: no element is due before its parent.\<close>

definition is_heap :: "('a \<Rightarrow> int) \<Rightarrow> 'a list \<Rightarrow> bool" where
  "is_heap key xs \<longleftrightarrow> (\<forall>i \<in> {1..<length xs}. key (xs ! ((i - 1) div 2)) \<le> key (xs ! i))"

definition make_heap :: "('a \<Rightarrow> int) \<Rightarrow> 'a list \<Rightarrow> 'a list \<Rightarrow> bool" where
  "make_heap key xs ys \<longleftrightarrow> mset ys = mset xs \<and> is_heap key ys"

definition push_heap :: "('a \<Rightarrow> int) \<Rightarrow> 'a list \<Rightarrow> 'a list \<Rightarrow> bool" where
  "push_heap key xs ys \<longleftrightarrow> mset ys = mset xs \<and> (is_heap key (butlast xs) \<longrightarrow> is_heap key ys)"

definition pop_heap :: "('a \<Rightarrow> int) \<Rightarrow> 'a list \<Rightarrow> 'a list \<Rightarrow> bool" where
  "pop_heap key xs ys \<longleftrightarrow> mset ys = mset xs \<and> (is_heap key xs \<longrightarrow> last ys = hd xs \<and> is_heap key (butlast ys))"

subsection \<open>Timers and the server\<close>

type_synonym tid = nat

record timer =
  fn :: "nat option"
  timeoutMilliseconds :: int
  repeat :: bool
  scheduledIntervalMs :: int
  scheduledRepeat :: bool
  nextFireTime :: int
  isRunning :: bool

text \<open>A callback is a number here; an empty \<open>std::function\<close> is \<open>None\<close>.\<close>

definition timer_new :: "int \<Rightarrow> nat option \<Rightarrow> bool \<Rightarrow> timer" where
  "timer_new milliseconds f rep =
     \<lparr>fn = f, timeoutMilliseconds = milliseconds, repeat = rep, scheduledIntervalMs = 0, scheduledRepeat = False, nextFireTime = 0, isRunning = False\<rparr>"

definition setTimeout :: "int \<Rightarrow> timer \<Rightarrow> timer" where
  "setTimeout milliseconds x = x\<lparr>timeoutMilliseconds := milliseconds\<rparr>"

definition setCallback :: "nat option \<Rightarrow> timer \<Rightarrow> timer" where
  "setCallback f x = x\<lparr>fn := f\<rparr>"

definition setRepeat :: "bool \<Rightarrow> timer \<Rightarrow> timer" where
  "setRepeat rep x = x\<lparr>repeat := rep\<rparr>"

text \<open>
  The threads are the server's and the clients. \<open>waiting th = Some t\<close> while the client \<open>th\<close> waits in
  \<open>unregisterTimer\<close> for a callback of \<open>t\<close>; \<open>clock\<close> is the steady clock in milliseconds. \<open>callback\<close> is the local
  copy of the function in \<open>fire_\<close>, once it has been made.
\<close>

datatype thread = Server | Client nat

record timer_server =
  timers :: "tid \<Rightarrow> timer"
  timerQueue :: "tid list"
  firingTimer :: "tid option"
  callback :: "nat option option"
  serverDestroying :: bool
  clock :: int
  waiting :: "thread \<Rightarrow> tid option"

definition server_new :: "(tid \<Rightarrow> timer) \<Rightarrow> int \<Rightarrow> timer_server" where
  "server_new ts now =
     \<lparr>timers = ts, timerQueue = [], firingTimer = None, callback = None, serverDestroying = False, clock = now, waiting = (\<lambda>_. None)\<rparr>"

abbreviation dueAt :: "timer_server \<Rightarrow> tid \<Rightarrow> int" where
  "dueAt s t \<equiv> nextFireTime (timers s t)"

definition updTimer :: "tid \<Rightarrow> (timer \<Rightarrow> timer) \<Rightarrow> timer_server \<Rightarrow> timer_server" where
  "updTimer t f s = s\<lparr>timers := (timers s)(t := f (timers s t))\<rparr>"

text \<open>\<open>removeLocked_\<close>: erase the first occurrence and rebuild the heap.\<close>

definition removeLocked :: "tid \<Rightarrow> timer_server \<Rightarrow> timer_server \<Rightarrow> bool" where
  "removeLocked t s s' \<longleftrightarrow>
     (if t \<in> set (timerQueue s)
      then \<exists>q. make_heap (dueAt s) (remove1 t (timerQueue s)) q \<and> s' = s\<lparr>timerQueue := q\<rparr>
      else s' = s)"

text \<open>\<open>push_back\<close> followed by \<open>push_heap\<close>.\<close>

definition pushTimer :: "tid \<Rightarrow> timer_server \<Rightarrow> timer_server \<Rightarrow> bool" where
  "pushTimer t s s' \<longleftrightarrow> (\<exists>q. push_heap (dueAt s) (timerQueue s @ [t]) q \<and> s' = s\<lparr>timerQueue := q\<rparr>)"

definition scheduleTimer :: "tid \<Rightarrow> int \<Rightarrow> bool \<Rightarrow> timer_server \<Rightarrow> timer_server" where
  "scheduleTimer t intervalMs rep s =
     updTimer t (\<lambda>x. x\<lparr>scheduledIntervalMs := intervalMs, scheduledRepeat := rep, nextFireTime := clock s + intervalMs, isRunning := True\<rparr>) s"

definition registerTimer :: "tid \<Rightarrow> int \<Rightarrow> bool \<Rightarrow> timer_server \<Rightarrow> timer_server \<Rightarrow> bool" where
  "registerTimer t intervalMs rep s s' \<longleftrightarrow> (\<exists>s1. removeLocked t s s1 \<and> pushTimer t (scheduleTimer t intervalMs rep s1) s')"

text \<open>\<open>unregisterTimer\<close> up to the point where a client starts to wait; the server's thread does not wait.\<close>

definition unregisterTimer :: "thread \<Rightarrow> tid \<Rightarrow> timer_server \<Rightarrow> timer_server \<Rightarrow> bool" where
  "unregisterTimer th t s s' \<longleftrightarrow> (\<exists>s1. removeLocked t s s1 \<and>
     s' = (let s2 = updTimer t (\<lambda>x. x\<lparr>isRunning := False\<rparr>) s1
           in if th \<noteq> Server then s2\<lparr>waiting := (waiting s2)(th := Some t)\<rparr> else s2))"

text \<open>What \<open>eventLoop_\<close> does with the earliest timer once it is due, up to the start of the callback.\<close>

definition rescheduleTimer :: "tid \<Rightarrow> timer_server \<Rightarrow> timer_server \<Rightarrow> bool" where
  "rescheduleTimer t s s' \<longleftrightarrow>
     (if scheduledRepeat (timers s t)
      then pushTimer t (updTimer t (\<lambda>x. x\<lparr>nextFireTime := nextFireTime x + scheduledIntervalMs x\<rparr>) s) s'
      else s' = updTimer t (\<lambda>x. x\<lparr>isRunning := False\<rparr>) s)"

definition fireNext :: "tid \<Rightarrow> timer_server \<Rightarrow> timer_server \<Rightarrow> bool" where
  "fireNext t s s' \<longleftrightarrow> timerQueue s \<noteq> [] \<and> \<not> clock s < dueAt s (hd (timerQueue s)) \<and>
     (\<exists>q s1. pop_heap (dueAt s) (timerQueue s) q \<and> t = last q \<and>
       rescheduleTimer t (s\<lparr>timerQueue := butlast q\<rparr>) s1 \<and> s' = s1\<lparr>firingTimer := Some t, callback := None\<rparr>)"

subsection \<open>The step relation\<close>

datatype tlabel =
    Tick
  | Configure tid
  | Start thread tid
  | Stop thread tid
  | Stopped thread tid
  | Fire tid
  | Copy tid
  | Fired tid
  | Shutdown

text \<open>
  A thread that waits does nothing else, and the server's thread calls operations only from a callback.
  \<open>start\<close> and \<open>restart\<close> read the configuration and register; \<open>stop\<close> and the destructor unregister.
\<close>

definition canCall :: "thread \<Rightarrow> timer_server \<Rightarrow> bool" where
  "canCall th s \<longleftrightarrow> waiting s th = None \<and> (th = Server \<longrightarrow> firingTimer s \<noteq> None \<and> (\<exists>f. callback s = Some (Some f)))"

inductive timer_step :: "timer_server \<Rightarrow> tlabel \<Rightarrow> timer_server \<Rightarrow> bool" where
  tick: "clock s \<le> now \<Longrightarrow> timer_step s Tick (s\<lparr>clock := now\<rparr>)"
| set_timeout: "timer_step s (Configure t) (updTimer t (setTimeout ms) s)"
| set_callback: "timer_step s (Configure t) (updTimer t (setCallback f) s)"
| set_repeat: "timer_step s (Configure t) (updTimer t (setRepeat rep) s)"
| start: "canCall th s \<Longrightarrow> registerTimer t (timeoutMilliseconds (timers s t)) (repeat (timers s t)) s s' \<Longrightarrow> timer_step s (Start th t) s'"
| stop: "canCall th s \<Longrightarrow> unregisterTimer th t s s' \<Longrightarrow> timer_step s (Stop th t) s'"
| stopped: "waiting s th = Some t \<Longrightarrow> firingTimer s \<noteq> Some t \<Longrightarrow> timer_step s (Stopped th t) (s\<lparr>waiting := (waiting s)(th := None)\<rparr>)"
| fire: "\<not> serverDestroying s \<Longrightarrow> firingTimer s = None \<Longrightarrow> fireNext t s s' \<Longrightarrow> timer_step s (Fire t) s'"
| copy: "firingTimer s = Some t \<Longrightarrow> callback s = None \<Longrightarrow> timer_step s (Copy t) (s\<lparr>callback := Some (fn (timers s t))\<rparr>)"
| fired: "firingTimer s = Some t \<Longrightarrow> callback s = Some f \<Longrightarrow> timer_step s (Fired t) (s\<lparr>firingTimer := None, callback := None\<rparr>)"
| shutdown: "timer_step s Shutdown (s\<lparr>serverDestroying := True\<rparr>)"

abbreviation timer_run :: "timer_server \<Rightarrow> tlabel list \<Rightarrow> timer_server \<Rightarrow> bool" where
  "timer_run \<equiv> lrun timer_step"

subsection \<open>Heaps\<close>

lemma heap_front_least: "is_heap key xs \<Longrightarrow> i < length xs \<Longrightarrow> key (hd xs) \<le> key (xs ! i)"
proof (induction i rule: less_induct)
  case (less i)
  show ?case
  proof (cases "i = 0")
    case True
    then show ?thesis using less.prems by (simp add: hd_conv_nth)
  next
    case False
    then have "(i - 1) div 2 < i" by simp
    then have "key (hd xs) \<le> key (xs ! ((i - 1) div 2))" using less by simp
    also have "\<dots> \<le> key (xs ! i)" using less.prems False by (simp add: is_heap_def)
    finally show ?thesis .
  qed
qed

lemma is_heap_cong:
  assumes "\<And>x. x \<in> set xs \<Longrightarrow> key x = key' x"
  shows "is_heap key xs = is_heap key' xs"
proof -
  have "key (xs ! i) = key' (xs ! i) \<and> key (xs ! ((i - 1) div 2)) = key' (xs ! ((i - 1) div 2))" if "i \<in> {1..<length xs}" for i
  proof -
    have "(i - 1) div 2 \<le> i" by presburger
    then have "(i - 1) div 2 < length xs" using that by simp
    then show ?thesis using that assms by simp
  qed
  then show ?thesis unfolding is_heap_def by (intro ball_cong) simp_all
qed

lemma is_heap_Nil [simp]: "is_heap key []"
  by (simp add: is_heap_def)

subsection \<open>The queue\<close>

text \<open>A queue the heap algorithms may be used on.\<close>

definition queue_ok :: "timer_server \<Rightarrow> bool" where
  "queue_ok s \<longleftrightarrow> is_heap (dueAt s) (timerQueue s) \<and> distinct (timerQueue s)"

lemma mset_distinct: "mset ys = mset xs \<Longrightarrow> distinct xs \<Longrightarrow> distinct ys \<and> set ys = set xs"
  using mset_eq_imp_distinct_iff mset_eq_setD by blast

lemma queue_ok_upd:
  assumes "queue_ok s" and "t \<notin> set (timerQueue s) \<or> nextFireTime (f (timers s t)) = nextFireTime (timers s t)"
  shows "queue_ok (updTimer t f s)"
proof -
  have "is_heap (dueAt (updTimer t f s)) (timerQueue s) = is_heap (dueAt s) (timerQueue s)"
    by (rule is_heap_cong) (use assms(2) in \<open>auto simp: updTimer_def\<close>)
  then show ?thesis using assms(1) by (simp add: queue_ok_def updTimer_def)
qed

lemma updTimer_simps [simp]:
  "timerQueue (updTimer t f s) = timerQueue s" "firingTimer (updTimer t f s) = firingTimer s" "clock (updTimer t f s) = clock s"
  "waiting (updTimer t f s) = waiting s" "serverDestroying (updTimer t f s) = serverDestroying s"
  "timers (updTimer t f s) u = (if u = t then f (timers s t) else timers s u)"
  by (simp_all add: updTimer_def)

lemma removeLocked_ok:
  assumes "queue_ok s" and "removeLocked t s s'"
  obtains q where "s' = s\<lparr>timerQueue := q\<rparr>" and "queue_ok s'" and "set q = set (timerQueue s) - {t}"
proof (cases "t \<in> set (timerQueue s)")
  case True
  then obtain q where q: "mset q = mset (remove1 t (timerQueue s))" "is_heap (dueAt s) q" "s' = s\<lparr>timerQueue := q\<rparr>"
    using assms(2) by (auto simp: removeLocked_def make_heap_def)
  have "distinct q \<and> set q = set (timerQueue s) - {t}"
    using mset_distinct [OF q(1)] assms(1) by (simp add: queue_ok_def set_remove1_eq)
  then show thesis using q by (intro that [of q]) (simp_all add: queue_ok_def)
next
  case False
  then show thesis using assms by (intro that [of "timerQueue s"]) (simp_all add: removeLocked_def)
qed

lemma pushTimer_ok:
  assumes "queue_ok s" and "t \<notin> set (timerQueue s)" and "pushTimer t s s'"
  obtains q where "s' = s\<lparr>timerQueue := q\<rparr>" and "queue_ok s'" and "set q = insert t (set (timerQueue s))"
proof -
  obtain q where q: "mset q = mset (timerQueue s @ [t])" "is_heap (dueAt s) q" "s' = s\<lparr>timerQueue := q\<rparr>"
    using assms(1,3) by (auto simp: pushTimer_def push_heap_def queue_ok_def)
  have "distinct q \<and> set q = insert t (set (timerQueue s))"
    using mset_distinct [OF q(1)] assms(1,2) by (simp add: queue_ok_def)
  then show thesis using q by (intro that [of q]) (simp_all add: queue_ok_def)
qed

lemma pop_ok:
  assumes "queue_ok s" and "timerQueue s \<noteq> []" and "pop_heap (dueAt s) (timerQueue s) q"
  shows "last q = hd (timerQueue s) \<and> queue_ok (s\<lparr>timerQueue := butlast q\<rparr>) \<and> last q \<notin> set (butlast q) \<and>
    set (timerQueue s) = insert (last q) (set (butlast q))"
proof -
  have q: "mset q = mset (timerQueue s)" "last q = hd (timerQueue s)" "is_heap (dueAt s) (butlast q)"
    using assms(1,3) by (auto simp: pop_heap_def queue_ok_def)
  have d: "distinct q" "set q = set (timerQueue s)" using mset_distinct [OF q(1)] assms(1) by (auto simp: queue_ok_def)
  then have "q \<noteq> []" using assms(2) by auto
  then obtain ys y where y: "q = ys @ [y]" by (meson rev_exhaust)
  then show ?thesis using d q by (auto simp: queue_ok_def)
qed

subsection \<open>The invariant\<close>

definition timer_inv :: "timer_server \<Rightarrow> bool" where
  "timer_inv s \<longleftrightarrow> queue_ok s \<and> (\<forall>t. isRunning (timers s t) \<longleftrightarrow> t \<in> set (timerQueue s)) \<and> waiting s Server = None"

lemma registerTimer_inv:
  assumes "timer_inv s" and "registerTimer t ms rep s s'"
  shows "timer_inv s' \<and> set (timerQueue s') = insert t (set (timerQueue s)) \<and> firingTimer s' = firingTimer s \<and> waiting s' = waiting s"
proof -
  obtain s1 where s1: "removeLocked t s s1" and push: "pushTimer t (scheduleTimer t ms rep s1) s'"
    using assms(2) by (auto simp: registerTimer_def)
  obtain q where q: "s1 = s\<lparr>timerQueue := q\<rparr>" "queue_ok s1" "set q = set (timerQueue s) - {t}"
    using removeLocked_ok [OF _ s1] assms(1) by (auto simp: timer_inv_def)
  have ok: "queue_ok (scheduleTimer t ms rep s1)" unfolding scheduleTimer_def by (rule queue_ok_upd [OF q(2)]) (simp add: q)
  obtain q' where q': "s' = (scheduleTimer t ms rep s1)\<lparr>timerQueue := q'\<rparr>" "queue_ok s'" "set q' = insert t (set q)"
    using pushTimer_ok [OF ok _ push] q by (auto simp: scheduleTimer_def)
  show ?thesis using assms(1) q q' by (auto simp: timer_inv_def scheduleTimer_def)
qed

lemma unregisterTimer_inv:
  assumes "timer_inv s" and "unregisterTimer th t s s'"
  shows "timer_inv s' \<and> set (timerQueue s') = set (timerQueue s) - {t} \<and> firingTimer s' = firingTimer s \<and>
    waiting s' = (if th = Server then waiting s else (waiting s)(th := Some t))"
proof -
  obtain s1 where s1: "removeLocked t s s1" and s': "s' = (let s2 = updTimer t (\<lambda>x. x\<lparr>isRunning := False\<rparr>) s1
      in if th \<noteq> Server then s2\<lparr>waiting := (waiting s2)(th := Some t)\<rparr> else s2)"
    using assms(2) by (auto simp: unregisterTimer_def)
  obtain q where q: "s1 = s\<lparr>timerQueue := q\<rparr>" "queue_ok s1" "set q = set (timerQueue s) - {t}"
    using removeLocked_ok [OF _ s1] assms(1) by (auto simp: timer_inv_def)
  have "queue_ok (updTimer t (\<lambda>x. x\<lparr>isRunning := False\<rparr>) s1)" by (rule queue_ok_upd [OF q(2)]) simp
  then show ?thesis using assms(1) q s' by (auto simp: timer_inv_def Let_def queue_ok_def)
qed

lemma rescheduleTimer_ok:
  assumes "queue_ok s" and "t \<notin> set (timerQueue s)" and "rescheduleTimer t s s'"
  shows "queue_ok s' \<and> waiting s' = waiting s \<and>
    set (timerQueue s') = set (timerQueue s) \<union> (if scheduledRepeat (timers s t) then {t} else {}) \<and>
    dueAt s' t = dueAt s t + (if scheduledRepeat (timers s t) then scheduledIntervalMs (timers s t) else 0) \<and>
    (\<forall>u. isRunning (timers s' u) \<longleftrightarrow> isRunning (timers s u) \<and> (u = t \<longrightarrow> scheduledRepeat (timers s t)))"
proof (cases "scheduledRepeat (timers s t)")
  case True
  let ?s1 = "updTimer t (\<lambda>x. x\<lparr>nextFireTime := nextFireTime x + scheduledIntervalMs x\<rparr>) s"
  have ok: "queue_ok ?s1" by (rule queue_ok_upd [OF assms(1)]) (simp add: assms(2))
  have push: "pushTimer t ?s1 s'" using assms(3) True by (simp add: rescheduleTimer_def)
  obtain q where "s' = ?s1\<lparr>timerQueue := q\<rparr>" "queue_ok s'" "set q = insert t (set (timerQueue s))"
    using pushTimer_ok [OF ok _ push] assms(2) by auto
  then show ?thesis using True by auto
next
  case False
  then have "s' = updTimer t (\<lambda>x. x\<lparr>isRunning := False\<rparr>) s" using assms(3) by (simp add: rescheduleTimer_def)
  moreover have "queue_ok (updTimer t (\<lambda>x. x\<lparr>isRunning := False\<rparr>) s)" by (rule queue_ok_upd [OF assms(1)]) simp
  ultimately show ?thesis using False by auto
qed

text \<open>The timer that fires is one of the earliest, it is due, and it stays in the queue exactly if it repeats.\<close>

lemma fireNext_inv:
  assumes "timer_inv s" and "fireNext t s s'"
  shows "timer_inv s' \<and> t \<in> set (timerQueue s) \<and> dueAt s t \<le> clock s \<and> (\<forall>u \<in> set (timerQueue s). dueAt s t \<le> dueAt s u) \<and>
    set (timerQueue s') = (if scheduledRepeat (timers s t) then set (timerQueue s) else set (timerQueue s) - {t}) \<and>
    dueAt s' t = dueAt s t + (if scheduledRepeat (timers s t) then scheduledIntervalMs (timers s t) else 0) \<and>
    firingTimer s' = Some t \<and> waiting s' = waiting s"
proof -
  obtain q s1 where ne: "timerQueue s \<noteq> []" "\<not> clock s < dueAt s (hd (timerQueue s))" and pop: "pop_heap (dueAt s) (timerQueue s) q"
    and t: "t = last q" and re: "rescheduleTimer t (s\<lparr>timerQueue := butlast q\<rparr>) s1" and s': "s' = s1\<lparr>firingTimer := Some t, callback := None\<rparr>"
    using assms(2) by (auto simp: fireNext_def)
  have inv: "queue_ok s" "\<And>u. isRunning (timers s u) \<longleftrightarrow> u \<in> set (timerQueue s)" "waiting s Server = None"
    using assms(1) by (auto simp: timer_inv_def)
  have p: "t = hd (timerQueue s)" "queue_ok (s\<lparr>timerQueue := butlast q\<rparr>)" "t \<notin> set (butlast q)"
    "set (timerQueue s) = insert t (set (butlast q))"
    using pop_ok [OF inv(1) ne(1) pop] t by auto
  have least: "\<forall>u \<in> set (timerQueue s). dueAt s t \<le> dueAt s u"
    using heap_front_least [of "dueAt s" "timerQueue s"] inv(1) p(1) by (auto simp: queue_ok_def in_set_conv_nth)
  have r: "queue_ok s1" "waiting s1 = waiting s" "set (timerQueue s1) = set (butlast q) \<union> (if scheduledRepeat (timers s t) then {t} else {})"
    "dueAt s1 t = dueAt s t + (if scheduledRepeat (timers s t) then scheduledIntervalMs (timers s t) else 0)"
    "\<And>u. isRunning (timers s1 u) \<longleftrightarrow> isRunning (timers s u) \<and> (u = t \<longrightarrow> scheduledRepeat (timers s t))"
    using rescheduleTimer_ok [OF p(2) _ re] p(3) by auto
  have "timer_inv s'" using s' r p(3,4) inv by (auto simp: timer_inv_def queue_ok_def split: if_splits)
  then show ?thesis using s' r p least ne(2) by auto
qed

lemma timer_step_inv: "timer_step s l s' \<Longrightarrow> timer_inv s \<Longrightarrow> timer_inv s'"
proof (induction rule: timer_step.induct)
  case (set_timeout s t ms)
  then show ?case by (auto simp: timer_inv_def setTimeout_def intro: queue_ok_upd)
next
  case (set_callback s t f)
  then show ?case by (auto simp: timer_inv_def setCallback_def intro: queue_ok_upd)
next
  case (set_repeat s t rep)
  then show ?case by (auto simp: timer_inv_def setRepeat_def intro: queue_ok_upd)
next
  case (start th s t s')
  then show ?case using registerTimer_inv by blast
next
  case (stop th s t s')
  then show ?case using unregisterTimer_inv by blast
next
  case (fire s t s')
  then show ?case using fireNext_inv by blast
qed (auto simp: timer_inv_def queue_ok_def)

interpretation timer: stable_system timer_step timer_inv
  by unfold_locales (rule timer_step_inv)

text \<open>A timer comes into the queue only by being started, and its callback runs only after it fired.\<close>

lemma timer_step_stopped:
  assumes "timer_step s l s'" and "timer_inv s" and "t \<notin> set (timerQueue s)" and "\<forall>th. l \<noteq> Start th t"
  shows "t \<notin> set (timerQueue s') \<and> l \<noteq> Fire t \<and> (firingTimer s \<noteq> Some t \<longrightarrow> firingTimer s' \<noteq> Some t)"
  using assms(1)
proof cases
  case (start th u)
  then show ?thesis using registerTimer_inv [OF assms(2) start(3)] assms(3,4) by auto
next
  case (stop th u)
  then show ?thesis using unregisterTimer_inv [OF assms(2) stop(3)] assms(3) by auto
next
  case (fire u)
  then show ?thesis using fireNext_inv [OF assms(2) fire(4)] assms(3) by (auto split: if_splits)
qed (use assms(3) in auto)

lemma timer_run_stopped:
  assumes "timer_run s ls s'" and "timer_inv s" and "t \<notin> set (timerQueue s)" and "\<forall>th. Start th t \<notin> set ls"
  shows "t \<notin> set (timerQueue s') \<and> Fire t \<notin> set ls \<and> (firingTimer s \<noteq> Some t \<longrightarrow> firingTimer s' \<noteq> Some t)"
proof -
  have no_start: "set ls \<inter> range (\<lambda>th. Start th t) = {}" using assms(4) by auto
  have "t \<notin> set (timerQueue s') \<and> set ls \<inter> {Fire t} = {}"
    by (rule timer.run_without [where P = "\<lambda>s. t \<notin> set (timerQueue s)", OF assms(1-3) no_start]) (use timer_step_stopped in fastforce)
  moreover have "t \<notin> set (timerQueue s') \<and> firingTimer s' \<noteq> Some t" if "firingTimer s \<noteq> Some t"
  proof -
    have "(t \<notin> set (timerQueue s') \<and> firingTimer s' \<noteq> Some t) \<and> set ls \<inter> {} = {}"
      by (rule timer.run_without [where P = "\<lambda>s. t \<notin> set (timerQueue s) \<and> firingTimer s \<noteq> Some t", OF assms(1,2) _ no_start]) (use that assms(3) timer_step_stopped in fastforce)+
    then show ?thesis by blast
  qed
  ultimately show ?thesis by blast
qed

lemma server_new_inv: "timer_inv (server_new (\<lambda>t. timer_new (ms t) (f t) (rep t)) now)"
  by (simp add: timer_inv_def server_new_def timer_new_def queue_ok_def)

text \<open>
  C24: After \<open>stop\<close> (or the destructor) has returned to a client thread, the timer is not scheduled, its
  callback is not running, and it does not run again, for every interleaving with the server and with other
  threads in which nobody starts that timer again; no callback of it begins while \<open>stop\<close> waits either.
\<close>

theorem timer_stop_is_final:
  assumes "timer_run (server_new (\<lambda>t. timer_new (ms t) (f t) (rep t)) now) ls s"
    and "timer_step s (Stop (Client c) t) s1" and "timer_run s1 ls1 s2"
    and "timer_step s2 (Stopped (Client c) t) s3" and "timer_run s3 ls2 s4"
    and "\<forall>th. Start th t \<notin> set (ls1 @ ls2)"
  shows "t \<notin> set (timerQueue s4) \<and> \<not> isRunning (timers s4 t) \<and> firingTimer s4 \<noteq> Some t \<and> Fire t \<notin> set (ls1 @ ls2)"
proof -
  have inv: "timer_inv s" "timer_inv s1" using timer.run_stable [OF assms(1) server_new_inv] timer_step_inv [OF assms(2)] by auto
  have "t \<notin> set (timerQueue s1)" using assms(2) by cases (use unregisterTimer_inv [OF inv(1)] in auto)
  then have s2: "t \<notin> set (timerQueue s2)" "Fire t \<notin> set ls1" "timer_inv s2"
    using timer_run_stopped [OF assms(3) inv(2)] timer.run_stable [OF assms(3) inv(2)] assms(6) by auto
  have s3: "t \<notin> set (timerQueue s3)" "firingTimer s3 \<noteq> Some t" using assms(4) s2(1) by (cases, auto)+
  have inv3: "timer_inv s3" using timer_step_inv [OF assms(4) s2(3)] .
  then show ?thesis using timer_run_stopped [OF assms(5) inv3 s3(1)] timer.run_stable [OF assms(5) inv3] s2(2) s3(2) assms(6)
    by (auto simp: timer_inv_def)
qed

text \<open>
  C29: In every reachable state the queue has no duplicates and holds exactly the timers that report themselves
  as running, and the server's own thread never waits in \<open>stop\<close>. When a timer fires, its time has come and no
  scheduled timer is due before it. A repeating timer stays scheduled and its next time is its previous time plus
  the interval, not the present plus the interval, so it does not drift; any other timer is no longer running.
\<close>

theorem timer_schedule:
  assumes "timer_run (server_new (\<lambda>t. timer_new (ms t) (f t) (rep t)) now) ls s" and "timer_step s (Fire t) s'"
  shows "distinct (timerQueue s) \<and> (\<forall>u. isRunning (timers s u) \<longleftrightarrow> u \<in> set (timerQueue s)) \<and> waiting s Server = None \<and>
    dueAt s t \<le> clock s \<and> (\<forall>u. isRunning (timers s u) \<longrightarrow> dueAt s t \<le> dueAt s u) \<and>
    (if scheduledRepeat (timers s t) then isRunning (timers s' t) \<and> dueAt s' t = dueAt s t + scheduledIntervalMs (timers s t)
     else \<not> isRunning (timers s' t))"
proof -
  have inv: "timer_inv s" by (rule timer.run_stable [OF assms(1) server_new_inv])
  have f: "fireNext t s s'" using assms(2) by cases
  show ?thesis using inv fireNext_inv [OF inv f] unfolding timer_inv_def queue_ok_def by auto
qed

subsection \<open>A run\<close>

text \<open>A one-shot timer of 10 ms is started and fires; it is stopped while its callback runs.\<close>

definition demo_timer :: "int \<Rightarrow> bool \<Rightarrow> timer" where
  "demo_timer due running =
     \<lparr>fn = Some 1, timeoutMilliseconds = 10, repeat = False, scheduledIntervalMs = 10, scheduledRepeat = False, nextFireTime = due, isRunning = running\<rparr>"

definition demo_server :: "bool \<Rightarrow> tid option \<Rightarrow> nat option option \<Rightarrow> int \<Rightarrow> tid option \<Rightarrow> timer_server" where
  "demo_server running firing cb now wait =
     \<lparr>timers = (\<lambda>t. timer_new 10 (Some 1) False)(0 := demo_timer 10 running), timerQueue = (if running then [0] else []), firingTimer = firing, callback = cb,
      serverDestroying = False, clock = now, waiting = (\<lambda>_. None)(Client 0 := wait)\<rparr>"

lemma demo_steps:
  "timer_step (server_new (\<lambda>t. timer_new 10 (Some 1) False) 0) (Start (Client 0) 0) (demo_server True None None 0 None)"
  "timer_step (demo_server True None None 0 None) Tick (demo_server True None None 10 None)"
  "timer_step (demo_server True None None 10 None) (Fire 0) (demo_server False (Some 0) None 10 None)"
  "timer_step (demo_server False (Some 0) None 10 None) (Copy 0) (demo_server False (Some 0) (Some (Some 1)) 10 None)"
  "timer_step (demo_server False (Some 0) (Some (Some 1)) 10 None) (Stop (Client 0) 0) (demo_server False (Some 0) (Some (Some 1)) 10 (Some 0))"
  "timer_step (demo_server False (Some 0) (Some (Some 1)) 10 (Some 0)) (Fired 0) (demo_server False None None 10 (Some 0))"
  "timer_step (demo_server False None None 10 (Some 0)) (Stopped (Client 0) 0) (demo_server False None None 10 None)"
proof -
  note defs = demo_server_def demo_timer_def server_new_def timer_new_def updTimer_def fun_eq_iff
  show "timer_step (server_new (\<lambda>t. timer_new 10 (Some 1) False) 0) (Start (Client 0) 0) (demo_server True None None 0 None)"
    by (rule timer_step.start) (auto simp: canCall_def registerTimer_def removeLocked_def scheduleTimer_def pushTimer_def push_heap_def is_heap_def defs)
  show "timer_step (demo_server True None None 0 None) Tick (demo_server True None None 10 None)"
    using timer_step.tick [of "demo_server True None None 0 None" 10] by (simp add: defs)
  have pop: "pop_heap k [0] q \<longleftrightarrow> q = [0]" for k and q :: "nat list" by (auto simp: pop_heap_def is_heap_def)
  show "timer_step (demo_server False (Some 0) None 10 None) (Copy 0) (demo_server False (Some 0) (Some (Some 1)) 10 None)"
    using timer_step.copy [of "demo_server False (Some 0) None 10 None" 0] by (simp add: defs)
  show "timer_step (demo_server True None None 10 None) (Fire 0) (demo_server False (Some 0) None 10 None)"
    by (rule timer_step.fire) (simp_all add: fireNext_def pop rescheduleTimer_def defs)
  show "timer_step (demo_server False (Some 0) (Some (Some 1)) 10 None) (Stop (Client 0) 0) (demo_server False (Some 0) (Some (Some 1)) 10 (Some 0))"
    by (rule timer_step.stop) (simp_all add: canCall_def unregisterTimer_def removeLocked_def defs)
  show "timer_step (demo_server False (Some 0) (Some (Some 1)) 10 (Some 0)) (Fired 0) (demo_server False None None 10 (Some 0))"
    using timer_step.fired [of "demo_server False (Some 0) (Some (Some 1)) 10 (Some 0)" 0 "Some 1"] by (simp add: defs)
  show "timer_step (demo_server False None None 10 (Some 0)) (Stopped (Client 0) 0) (demo_server False None None 10 None)"
    using timer_step.stopped [of "demo_server False None None 10 (Some 0)" "Client 0" 0] by (simp add: defs)
qed

lemma demo_runs:
  "timer_run (server_new (\<lambda>t. timer_new 10 (Some 1) False) 0) [Start (Client 0) 0, Tick] (demo_server True None None 10 None)"
  "timer_run (server_new (\<lambda>t. timer_new 10 (Some 1) False) 0) [Start (Client 0) 0, Tick, Fire 0, Copy 0] (demo_server False (Some 0) (Some (Some 1)) 10 None)"
  "timer_run (demo_server False (Some 0) (Some (Some 1)) 10 (Some 0)) [Fired 0] (demo_server False None None 10 (Some 0))"
  using demo_steps by (meson run_Nil run_Cons)+

theorem timer_stop_is_final_witness:
  "timer_run (demo_server False None None 10 None) [] (demo_server False None None 10 None) \<and>
    0 \<notin> set (timerQueue (demo_server False None None 10 None)) \<and> firingTimer (demo_server False None None 10 None) \<noteq> Some 0 \<and> Fire 0 \<notin> set [Fired 0]"
  using timer_stop_is_final [OF demo_runs(2) demo_steps(5) demo_runs(3) demo_steps(7) run_Nil] run_Nil by simp

theorem timer_schedule_witness:
  "timer_step (demo_server True None None 10 None) (Fire 0) (demo_server False (Some 0) None 10 None) \<and>
    dueAt (demo_server True None None 10 None) 0 \<le> clock (demo_server True None None 10 None)"
  using timer_schedule [OF demo_runs(1) demo_steps(3)] demo_steps(3) by simp

end
