(* ===== verification/Threaded_Object.thy ===== *)
theory Threaded_Object
  imports FDV_Prelude Transition_System "HOL-Library.Sublist"
begin

text \<open>
  \<open>ThreadedObject\<close> (\<^verbatim>\<open>ThreadedObject.cpp\<close>, \<^verbatim>\<open>ThreadedObject.h\<close>) without a parent: an object with a queue of tasks
  and a thread that runs them, which the TCP, UDP and socket.io clients inherit. The operations are a labelled
  step relation over the worker thread and any number of client threads; \<open>enqueue_\<close> reads its flag outside the
  lock and is two steps, and a task may call the operations of its own object. Shown: tasks run one at a time
  in the order in which they were queued; \<open>waitForAllTasksComplete_\<close> returns only when every task queued until
  then has run to its end; and no task starts once the destructor has cleared the queue.
\<close>

subsection \<open>State\<close>

text \<open>
  The program points of the worker: at the head of its loop, with a task taken from the queue, inside the task,
  or ended. A client may be in \<open>waitForAllTasksComplete_\<close>, called directly or by the destructor.
\<close>

datatype 'a worker = AtHead | Taken 'a | Inside 'a | Ended

datatype owner = Worker | Client nat

datatype wait_kind = Called | Destructor

record 'a tobj =
  eventQueue :: "'a list"
  suppressEnqueue :: bool
  taskCurrentlyExecuting :: bool
  isDestroying :: bool
  worker :: "'a worker"
  pending :: "owner \<Rightarrow> 'a option"
  waitingFor :: "owner \<Rightarrow> wait_kind option"
  destroyer :: "owner option"
  queued :: "'a list"
  begun :: "'a list"
  finished :: "'a list"

text \<open>The last three fields record the history: the tasks pushed, begun and finished so far.\<close>

definition tobj_new :: "'a tobj" where
  "tobj_new = \<lparr>eventQueue = [], suppressEnqueue = False, taskCurrentlyExecuting = False, isDestroying = False, worker = AtHead,
     pending = (\<lambda>_. None), waitingFor = (\<lambda>_. None), destroyer = None, queued = [], begun = [], finished = []\<rparr>"

subsection \<open>Operations\<close>

text \<open>\<open>enqueue_\<close>: the test of the flag, and the push under the lock.\<close>

definition enqueueCheck :: "owner \<Rightarrow> 'a \<Rightarrow> 'a tobj \<Rightarrow> 'a tobj" where
  "enqueueCheck th f s = (if suppressEnqueue s then s else s\<lparr>pending := (pending s)(th := Some f)\<rparr>)"

definition enqueuePush :: "owner \<Rightarrow> 'a \<Rightarrow> 'a tobj \<Rightarrow> 'a tobj" where
  "enqueuePush th f s = s\<lparr>eventQueue := eventQueue s @ [f], pending := (pending s)(th := None), queued := queued s @ [f]\<rparr>"

text \<open>With a timeout, the lock may not be obtained in time and the task is given up.\<close>

definition enqueueGiveUp :: "owner \<Rightarrow> 'a tobj \<Rightarrow> 'a tobj" where
  "enqueueGiveUp th s = s\<lparr>pending := (pending s)(th := None)\<rparr>"

text \<open>The three parts of an iteration of \<open>eventLoop_\<close>: dequeue, run unless destroying, and mark as done.\<close>

definition takeTask :: "'a tobj \<Rightarrow> 'a tobj" where
  "takeTask s = s\<lparr>worker := Taken (hd (eventQueue s)), eventQueue := tl (eventQueue s), taskCurrentlyExecuting := True\<rparr>"

definition beginTask :: "'a \<Rightarrow> 'a tobj \<Rightarrow> 'a tobj" where
  "beginTask f s = s\<lparr>worker := Inside f, begun := begun s @ [f]\<rparr>"

definition finishTask :: "'a \<Rightarrow> 'a tobj \<Rightarrow> 'a tobj" where
  "finishTask f s = s\<lparr>worker := AtHead, taskCurrentlyExecuting := False, finished := finished s @ [f]\<rparr>"

definition skipTask :: "'a tobj \<Rightarrow> 'a tobj" where
  "skipTask s = s\<lparr>worker := AtHead, taskCurrentlyExecuting := False\<rparr>"

text \<open>\<open>waitForAllTasksComplete_\<close>: entry, the condition it polls under the lock, and return.\<close>

definition waitEnter :: "owner \<Rightarrow> wait_kind \<Rightarrow> 'a tobj \<Rightarrow> 'a tobj" where
  "waitEnter th k s = (if th = Worker then s else s\<lparr>suppressEnqueue := True, waitingFor := (waitingFor s)(th := Some k)\<rparr>)"

definition allTasksComplete :: "'a tobj \<Rightarrow> bool" where
  "allTasksComplete s \<longleftrightarrow> \<not> (eventQueue s \<noteq> [] \<or> taskCurrentlyExecuting s)"

definition waitReturn :: "owner \<Rightarrow> wait_kind \<Rightarrow> 'a tobj \<Rightarrow> 'a tobj" where
  "waitReturn th k s = s\<lparr>suppressEnqueue := False, waitingFor := (waitingFor s)(th := None),
     destroyer := (if k = Destructor then Some th else destroyer s)\<rparr>"

text \<open>The destructor after the wait: clear the queue and set the flag; the join is the worker having ended.\<close>

definition destroyQueue :: "'a tobj \<Rightarrow> 'a tobj" where
  "destroyQueue s = s\<lparr>eventQueue := [], isDestroying := True\<rparr>"

subsection \<open>The step relation\<close>

text \<open>A client calls while it is in no other call; the worker calls from inside a task.\<close>

definition mayCall :: "owner \<Rightarrow> 'a tobj \<Rightarrow> bool" where
  "mayCall th s \<longleftrightarrow> pending s th = None \<and> waitingFor s th = None \<and>
     (th = Worker \<longrightarrow> (case worker s of Inside f \<Rightarrow> True | _ \<Rightarrow> False))"

datatype 'a olabel =
    EnqCheck owner 'a | EnqPush owner 'a | EnqGiveUp owner 'a
  | Take | Begin 'a | Finish 'a | Skip 'a | End
  | WaitEnter owner wait_kind | WaitReturn owner wait_kind | Destroy owner

inductive tobj_step :: "'a tobj \<Rightarrow> 'a olabel \<Rightarrow> 'a tobj \<Rightarrow> bool" where
  enq_check: "mayCall th s \<Longrightarrow> tobj_step s (EnqCheck th f) (enqueueCheck th f s)"
| enq_push: "pending s th = Some f \<Longrightarrow> tobj_step s (EnqPush th f) (enqueuePush th f s)"
| enq_give_up: "pending s th = Some f \<Longrightarrow> tobj_step s (EnqGiveUp th f) (enqueueGiveUp th s)"
| take: "worker s = AtHead \<Longrightarrow> \<not> isDestroying s \<Longrightarrow> eventQueue s \<noteq> [] \<Longrightarrow> tobj_step s Take (takeTask s)"
| begin_task: "worker s = Taken f \<Longrightarrow> \<not> isDestroying s \<Longrightarrow> tobj_step s (Begin f) (beginTask f s)"
| finish: "worker s = Inside f \<Longrightarrow> pending s Worker = None \<Longrightarrow> tobj_step s (Finish f) (finishTask f s)"
| skip: "worker s = Taken f \<Longrightarrow> isDestroying s \<Longrightarrow> tobj_step s (Skip f) (skipTask s)"
| end_loop: "worker s = AtHead \<Longrightarrow> isDestroying s \<Longrightarrow> tobj_step s End (s\<lparr>worker := Ended\<rparr>)"
| wait_enter: "mayCall th s \<Longrightarrow> (k = Destructor \<Longrightarrow> th \<noteq> Worker) \<Longrightarrow> tobj_step s (WaitEnter th k) (waitEnter th k s)"
| wait_return: "waitingFor s th = Some k \<Longrightarrow> allTasksComplete s \<Longrightarrow> tobj_step s (WaitReturn th k) (waitReturn th k s)"
| destroy: "destroyer s = Some th \<Longrightarrow> \<not> isDestroying s \<Longrightarrow> tobj_step s (Destroy th) (destroyQueue s)"

abbreviation tobj_run :: "'a tobj \<Rightarrow> 'a olabel list \<Rightarrow> 'a tobj \<Rightarrow> bool" where
  "tobj_run \<equiv> lrun tobj_step"

subsection \<open>The invariant\<close>

fun taken :: "'a worker \<Rightarrow> 'a list" where
  "taken (Taken f) = [f]"
| "taken _ = []"

fun inside :: "'a worker \<Rightarrow> 'a list" where
  "inside (Inside f) = [f]"
| "inside _ = []"

text \<open>Every queued task is finished, running, taken, or in the queue, in this order, until the queue is cleared.\<close>

definition tobj_inv :: "'a tobj \<Rightarrow> bool" where
  "tobj_inv s \<longleftrightarrow> begun s = finished s @ inside (worker s) \<and> prefix (begun s) (queued s) \<and>
     (\<not> isDestroying s \<longrightarrow> queued s = begun s @ taken (worker s) @ eventQueue s) \<and>
     (taskCurrentlyExecuting s \<longleftrightarrow> taken (worker s) @ inside (worker s) \<noteq> []) \<and>
     (worker s = Ended \<longrightarrow> isDestroying s)"

lemmas tobj_op_defs = enqueueCheck_def enqueuePush_def enqueueGiveUp_def takeTask_def beginTask_def finishTask_def skipTask_def
  waitEnter_def waitReturn_def destroyQueue_def

lemma tobj_new_inv: "tobj_inv tobj_new"
  by (simp add: tobj_inv_def tobj_new_def)

lemma tobj_step_inv: "tobj_step s l s' \<Longrightarrow> tobj_inv s \<Longrightarrow> tobj_inv s'"
  by (induction rule: tobj_step.induct) (auto simp: tobj_inv_def tobj_op_defs)

interpretation tobj: stable_system tobj_step tobj_inv
  by unfold_locales (rule tobj_step_inv)

text \<open>The history of finished tasks only grows, and once destruction has begun no task starts.\<close>

lemma tobj_step_finished: "tobj_step s l s' \<Longrightarrow> prefix (finished s) (finished s')"
  by (induction rule: tobj_step.induct) (auto simp: tobj_op_defs)

lemma tobj_run_finished: "tobj_run s ls s' \<Longrightarrow> prefix (finished s) (finished s')"
  by (induction rule: lrun.induct) (auto dest!: tobj_step_finished intro: prefix_order.trans)

lemma tobj_step_destroying: "tobj_step s l s' \<Longrightarrow> isDestroying s \<Longrightarrow> isDestroying s' \<and> (\<forall>f. l \<noteq> Begin f) \<and> begun s' = begun s"
  by (induction rule: tobj_step.induct) (auto simp: tobj_op_defs)

lemma tobj_run_destroying:
  "tobj_run s ls s' \<Longrightarrow> isDestroying s \<Longrightarrow> (\<forall>f. Begin f \<notin> set ls) \<and> begun s' = begun s"
  by (induction rule: lrun.induct) (auto dest!: tobj_step_destroying)

subsection \<open>The worker drains the queue\<close>

definition worker_label :: "'a olabel \<Rightarrow> bool" where
  "worker_label l = (case l of Take \<Rightarrow> True | Begin f \<Rightarrow> True | Finish f \<Rightarrow> True | _ \<Rightarrow> False)"

definition drains :: "'a tobj \<Rightarrow> bool" where
  "drains s \<longleftrightarrow> (\<exists>ls s'. tobj_run s ls s' \<and> allTasksComplete s' \<and> waitingFor s' = waitingFor s \<and> list_all worker_label ls)"

lemma drains_step:
  assumes "tobj_step s l s1" and "worker_label l" and "waitingFor s1 = waitingFor s" and "drains s1"
  shows "drains s"
  using assms unfolding drains_def by (metis list.pred_inject(2) run_Cons)

text \<open>From inside a task, with a task taken, or at the head of the loop: the worker alone empties the queue.\<close>

lemma drains_any:
  "tobj_inv s \<Longrightarrow> \<not> isDestroying s \<Longrightarrow> pending s Worker = None \<Longrightarrow> worker s \<noteq> Ended \<Longrightarrow> drains s"
proof (induction "3 * length (eventQueue s) + (case worker s of Taken f \<Rightarrow> 2 | Inside f \<Rightarrow> 1 | _ \<Rightarrow> 0)" arbitrary: s rule: less_induct)
  case less
  note next_step = drains_step [OF _ _ _ less.hyps]
  show ?case
  proof (cases "worker s")
    case (Inside f)
    have step: "tobj_step s (Finish f) (finishTask f s)" using Inside less.prems by (auto intro: tobj_step.intros)
    show ?thesis by (rule next_step [OF step]) (use Inside less.prems tobj_step_inv [OF step] in \<open>simp_all add: finishTask_def worker_label_def\<close>)
  next
    case (Taken f)
    have step: "tobj_step s (Begin f) (beginTask f s)" using Taken less.prems by (auto intro: tobj_step.intros)
    show ?thesis by (rule next_step [OF step]) (use Taken less.prems tobj_step_inv [OF step] in \<open>simp_all add: beginTask_def worker_label_def\<close>)
  next
    case AtHead
    show ?thesis
    proof (cases "eventQueue s = []")
      case True
      then have "allTasksComplete s" using AtHead less.prems(1) by (simp add: allTasksComplete_def tobj_inv_def)
      then show ?thesis unfolding drains_def by (intro exI [of _ "[]"] exI [of _ s]) (simp add: run_Nil)
    next
      case False
      have step: "tobj_step s Take (takeTask s)" using AtHead False less.prems by (auto intro: tobj_step.intros)
      have "length (eventQueue s) = Suc (length (tl (eventQueue s)))" using False by (cases "eventQueue s") simp_all
      then show ?thesis
        by (intro next_step [OF step]) (use AtHead less.prems tobj_step_inv [OF step] in \<open>simp_all add: takeTask_def worker_label_def\<close>)
    qed
  qed (use less.prems in simp)
qed

subsection \<open>The properties\<close>

text \<open>
  C30: In every reachable state the tasks that have begun are a prefix, in the same order, of the tasks queued,
  and at most the last of them is still running. When \<open>waitForAllTasksComplete_\<close> returns (before destruction
  has begun), every task queued until then has finished and the worker is idle; and from every state in which the
  worker is not itself queueing, the worker alone can bring the object to the point where the waiting call
  returns, so the wait depends on nothing but the tasks coming to their end.
\<close>

theorem wait_means_done:
  assumes "tobj_run tobj_new ls s"
  shows "prefix (begun s) (queued s) \<and> begun s = finished s @ inside (worker s) \<and>
    (\<forall>th k s'. tobj_step s (WaitReturn th k) s' \<and> \<not> isDestroying s \<longrightarrow> finished s = queued s \<and> worker s \<noteq> Ended \<and> inside (worker s) = []) \<and>
    (\<not> isDestroying s \<and> pending s Worker = None \<longrightarrow>
      (\<exists>ks s'. tobj_run s ks s' \<and> allTasksComplete s' \<and> waitingFor s' = waitingFor s \<and> list_all worker_label ks))"
proof -
  have inv: "tobj_inv s" by (rule tobj.run_stable [OF assms tobj_new_inv])
  have complete: "finished s = queued s \<and> worker s \<noteq> Ended \<and> inside (worker s) = []"
    if "tobj_step s (WaitReturn th k) s'" "\<not> isDestroying s" for th k s'
    using that inv by cases (auto simp: tobj_inv_def allTasksComplete_def)
  show ?thesis using inv complete drains_any [OF inv] unfolding tobj_inv_def drains_def by blast
qed

text \<open>
  Destruction is orderly: every task queued before the destructor's wait returned has run to its end, no
  task begins after the queue has been cleared, and when the worker has ended, which is what the destructor
  joins, no task is running.
\<close>

theorem destructor_is_final:
  assumes "tobj_run tobj_new ls0 s0" and "tobj_step s0 (WaitReturn th Destructor) s1" and "\<not> isDestroying s0"
    and "tobj_run s1 ls1 s2" and "tobj_step s2 (Destroy th) s3" and "tobj_run s3 ls2 s4"
  shows "prefix (queued s0) (finished s4) \<and> (\<forall>f. Begin f \<notin> set ls2) \<and> (worker s4 = Ended \<longrightarrow> finished s4 = begun s2)"
proof -
  have inv0: "tobj_inv s0" by (rule tobj.run_stable [OF assms(1) tobj_new_inv])
  have inv4: "tobj_inv s4"
    using tobj.run_stable [OF assms(6)] tobj_step_inv [OF assms(5)] tobj.run_stable [OF assms(4)] tobj_step_inv [OF assms(2) inv0] by blast
  have "finished s0 = queued s0" using assms(2) inv0 assms(3) by cases (auto simp: tobj_inv_def allTasksComplete_def)
  moreover have "prefix (finished s0) (finished s4)"
    using tobj_step_finished [OF assms(2)] tobj_run_finished [OF assms(4)] tobj_step_finished [OF assms(5)] tobj_run_finished [OF assms(6)]
    by (meson prefix_order.trans)
  moreover have "isDestroying s3" "begun s3 = begun s2" using assms(5) by (cases, simp add: destroyQueue_def)+
  then have "(\<forall>f. Begin f \<notin> set ls2) \<and> begun s4 = begun s2" using tobj_run_destroying [OF assms(6)] by simp
  ultimately show ?thesis using inv4 by (auto simp: tobj_inv_def)
qed

subsection \<open>A run\<close>

text \<open>A client queues a task, which runs; the client destroys the object.\<close>

definition demo_obj :: "nat list \<Rightarrow> nat worker \<Rightarrow> bool \<Rightarrow> wait_kind option \<Rightarrow> owner option \<Rightarrow> nat list \<Rightarrow> nat list \<Rightarrow> nat tobj" where
  "demo_obj q w destroying wait d b f =
     \<lparr>eventQueue = q, suppressEnqueue = (wait \<noteq> None), taskCurrentlyExecuting = (taken w @ inside w \<noteq> []), isDestroying = destroying, worker = w,
      pending = (\<lambda>_. None), waitingFor = (\<lambda>_. None)(Client 0 := wait), destroyer = d, queued = [7], begun = b, finished = f\<rparr>"

lemma demo_obj_steps:
  "tobj_run (tobj_new :: nat tobj) [EnqCheck (Client 0) 7, EnqPush (Client 0) 7] (demo_obj [7] AtHead False None None [] [])"
  "tobj_run (demo_obj [7] AtHead False None None [] []) [Take, Begin 7, Finish 7] (demo_obj [] AtHead False None None [7] [7])"
  "tobj_step (demo_obj [] AtHead False None None [7] [7]) (WaitEnter (Client 0) Destructor) (demo_obj [] AtHead False (Some Destructor) None [7] [7])"
  "tobj_step (demo_obj [] AtHead False (Some Destructor) None [7] [7]) (WaitReturn (Client 0) Destructor)
     (demo_obj [] AtHead False None (Some (Client 0)) [7] [7])"
  "tobj_step (demo_obj [] AtHead False None (Some (Client 0)) [7] [7]) (Destroy (Client 0)) (demo_obj [] AtHead True None (Some (Client 0)) [7] [7])"
  "tobj_step (demo_obj [] AtHead True None (Some (Client 0)) [7] [7]) End (demo_obj [] Ended True None (Some (Client 0)) [7] [7])"
proof -
  note defs = demo_obj_def tobj_new_def tobj_op_defs mayCall_def allTasksComplete_def
  have 1: "tobj_step (tobj_new :: nat tobj) (EnqCheck (Client 0) 7) (tobj_new\<lparr>pending := (\<lambda>_. None)(Client 0 := Some 7)\<rparr>)"
    using tobj_step.enq_check [of "Client 0" tobj_new "7 :: nat"] by (simp add: defs)
  have 2: "tobj_step (tobj_new\<lparr>pending := (\<lambda>_. None)(Client 0 := Some (7 :: nat))\<rparr>) (EnqPush (Client 0) 7) (demo_obj [7] AtHead False None None [] [])"
    using tobj_step.enq_push [of "tobj_new\<lparr>pending := (\<lambda>_. None)(Client 0 := Some (7 :: nat))\<rparr>" "Client 0" 7] by (simp add: defs)
  show "tobj_run (tobj_new :: nat tobj) [EnqCheck (Client 0) 7, EnqPush (Client 0) 7] (demo_obj [7] AtHead False None None [] [])"
    using 1 2 by (meson run_Nil run_Cons)
  have "tobj_step (demo_obj [7] AtHead False None None [] []) Take (demo_obj [] (Taken 7) False None None [] [])"
    "tobj_step (demo_obj [] (Taken 7) False None None [] []) (Begin 7) (demo_obj [] (Inside 7) False None None [7] [])"
    "tobj_step (demo_obj [] (Inside 7) False None None [7] []) (Finish 7) (demo_obj [] AtHead False None None [7] [7])"
    using tobj_step.take [of "demo_obj [7] AtHead False None None [] []"] tobj_step.begin_task [of "demo_obj [] (Taken 7) False None None [] []" 7]
      tobj_step.finish [of "demo_obj [] (Inside 7) False None None [7] []" 7] by (simp_all add: defs)
  then show "tobj_run (demo_obj [7] AtHead False None None [] []) [Take, Begin 7, Finish 7] (demo_obj [] AtHead False None None [7] [7])"
    by (meson run_Nil run_Cons)
  show "tobj_step (demo_obj [] AtHead False None None [7] [7]) (WaitEnter (Client 0) Destructor) (demo_obj [] AtHead False (Some Destructor) None [7] [7])"
    using tobj_step.wait_enter [of "Client 0" "demo_obj [] AtHead False None None [7] [7]" Destructor] by (simp add: defs)
  show "tobj_step (demo_obj [] AtHead False (Some Destructor) None [7] [7]) (WaitReturn (Client 0) Destructor)
     (demo_obj [] AtHead False None (Some (Client 0)) [7] [7])"
    using tobj_step.wait_return [of "demo_obj [] AtHead False (Some Destructor) None [7] [7]" "Client 0" Destructor] by (simp add: defs)
  show "tobj_step (demo_obj [] AtHead False None (Some (Client 0)) [7] [7]) (Destroy (Client 0)) (demo_obj [] AtHead True None (Some (Client 0)) [7] [7])"
    using tobj_step.destroy [of "demo_obj [] AtHead False None (Some (Client 0)) [7] [7]" "Client 0"] by (simp add: defs)
  show "tobj_step (demo_obj [] AtHead True None (Some (Client 0)) [7] [7]) End (demo_obj [] Ended True None (Some (Client 0)) [7] [7])"
    using tobj_step.end_loop [of "demo_obj [] AtHead True None (Some (Client 0)) [7] [7]"] by (simp add: defs)
qed

theorem wait_means_done_witness:
  "\<exists>ks s'. tobj_run (demo_obj [7] AtHead False None None [] []) ks s' \<and> allTasksComplete s'"
  using wait_means_done [OF demo_obj_steps(1)] by (auto simp: demo_obj_def)

theorem destructor_is_final_witness:
  "worker (demo_obj [] Ended True None (Some (Client 0)) [7] [7]) = Ended \<and> (\<forall>f. Begin f \<notin> set [End :: nat olabel]) \<and>
    prefix [7] (finished (demo_obj [] Ended True None (Some (Client 0)) [7] [7]))"
proof -
  have run: "tobj_run tobj_new ([EnqCheck (Client 0) 7, EnqPush (Client 0) 7] @ [Take, Begin 7, Finish 7] @ [WaitEnter (Client 0) Destructor])
    (demo_obj [] AtHead False (Some Destructor) None [7] [7])"
    by (intro lrun_append [OF demo_obj_steps(1)] lrun_append [OF demo_obj_steps(2)] run_Cons [where step = tobj_step, OF demo_obj_steps(3)] run_Nil)
  show ?thesis using destructor_is_final [OF run demo_obj_steps(4) _ run_Nil demo_obj_steps(5) run_Cons [where step = tobj_step, OF demo_obj_steps(6) run_Nil]]
    by (simp add: demo_obj_def)
qed

end
