(* ===== verification/Freedv_Reporter.thy ===== *)
theory Freedv_Reporter
  imports FDV_Prelude
begin

text \<open>
  The FreeDV Reporter client (\<^verbatim>\<open>FreeDVReporter.cpp\<close>) on top of the message handling of its socket.io client
  (\<^verbatim>\<open>SocketIoClient.cpp\<close>). JSON values are a datatype with the accessors of yyjson that the code calls; writing
  and reading JSON text are parameters. An operation returns the messages it emits and the callbacks it makes,
  in order, and the new state. Shown: what the server knows of this station follows the station's own state
  through any sequence of operations, reconnections and server events; and no event of the server changes that
  state. \<open>Socket_Io\<close> extends this to the text frames the events arrive in.
\<close>

subsection \<open>JSON values\<close>

datatype 'd json = JNull | JBool bool | JInt int | JReal 'd | JStr string | JArr "'d json list" | JObj "(string \<times> 'd json) list"

text \<open>A C string ends at the first null character.\<close>

definition c_str :: "string \<Rightarrow> string" where
  "c_str s = takeWhile (\<lambda>c. c \<noteq> CHR 0x00) s"

text \<open>The accessors return \<open>nullptr\<close>, here \<open>None\<close>, for a value of another type and for \<open>nullptr\<close>.\<close>

fun obj_get :: "'d json option \<Rightarrow> string \<Rightarrow> 'd json option" where
  "obj_get (Some (JObj kvs)) key = map_of kvs key"
| "obj_get _ key = None"

fun arr_get :: "'d json \<Rightarrow> nat \<Rightarrow> 'd json option" where
  "arr_get (JArr xs) i = (if i < length xs then Some (xs ! i) else None)"
| "arr_get _ i = None"

fun arr_items :: "'d json option \<Rightarrow> 'd json list" where
  "arr_items (Some (JArr xs)) = xs"
| "arr_items _ = []"

text \<open>\<open>yyjson_is_str\<close> and \<open>yyjson_get_str\<close> and their like in one: the value if it has the type.\<close>

fun str_val :: "'d json option \<Rightarrow> string option" where
  "str_val (Some (JStr s)) = Some (c_str s)"
| "str_val _ = None"

fun bool_val :: "'d json option \<Rightarrow> bool option" where
  "bool_val (Some (JBool b)) = Some b"
| "bool_val _ = None"

fun uint_val :: "'d json option \<Rightarrow> u64 option" where
  "uint_val (Some (JInt i)) = (if 0 \<le> i then Some (word_of_int i) else None)"
| "uint_val _ = None"

text \<open>\<open>yyjson_get_int\<close> returns an \<open>int\<close>, and 0 for anything that is not an integer.\<close>

fun get_int :: "'d json option \<Rightarrow> int" where
  "get_int (Some (JInt i)) = sint (word_of_int i :: u32)"
| "get_int _ = 0"

subsection \<open>State, messages and callbacks\<close>

datatype handler = HReporterConnect | HReporterDisconnect | HUserConnect | HUserDisconnect | HFrequencyChange | HTransmitUpdate
  | HReceiveUpdate | HQsyRequest | HMessageUpdate | HConnectionSuccessful | HAboutToShowSelf | HRecvEnd

record fdv_reporter =
  isConnecting :: bool
  isFullyConnected :: bool
  hostname :: string
  callsign :: string
  gridSquare :: string
  software :: string
  lastFrequency :: u64
  mode :: string
  tx :: bool
  rxOnly :: bool
  hidden :: bool
  message :: string
  writeOnly :: bool
  useSecureConnection :: bool
  handlers :: "handler \<Rightarrow> bool"
  listening :: bool

text \<open>\<open>handlers\<close> says which callbacks are set, and \<open>listening\<close> that \<open>connect_\<close> has registered the event handlers.\<close>

datatype ('d, 'f) action =
    Emit string "'d json option"
  | SioConnect string int bool "'d json"
  | ReporterConnected | ReporterDisconnected
  | UserConnected string string string string string bool string
  | UserDisconnected string string string string string bool string
  | FrequencyChanged string string string string u64
  | TransmitUpdated string string string string string bool string
  | ReceiveUpdated string string string string string 'f string
  | QsyRequested string u64 string
  | MessageUpdated string string string
  | ConnectionSucceeded | AboutToShowSelf | RecvEnded

type_synonym ('d, 'f) effect = "('d, 'f) action list \<times> fdv_reporter"

definition fdv_new :: "string \<Rightarrow> string \<Rightarrow> string \<Rightarrow> string \<Rightarrow> bool \<Rightarrow> bool \<Rightarrow> bool \<Rightarrow> fdv_reporter" where
  "fdv_new host call grid soft rx wo secure =
     \<lparr>isConnecting = False, isFullyConnected = False, hostname = (if host = [] then ''qso.freedv.org'' else host), callsign = call,
      gridSquare = grid, software = soft, lastFrequency = 0, mode = [], tx = False, rxOnly = rx, hidden = False, message = [],
      writeOnly = wo, useSecureConnection = secure, handlers = (\<lambda>_. False), listening = False\<rparr>"

definition setHandler :: "handler \<Rightarrow> bool \<Rightarrow> fdv_reporter \<Rightarrow> fdv_reporter" where
  "setHandler h b r = r\<lparr>handlers := (handlers r)(h := b)\<rparr>"

text \<open>The destructor drops all callbacks before it closes the connection.\<close>

definition clearHandlers :: "fdv_reporter \<Rightarrow> fdv_reporter" where
  "clearHandlers r = r\<lparr>handlers := (\<lambda>_. False)\<rparr>"

definition isValidForReporting :: "fdv_reporter \<Rightarrow> bool" where
  "isValidForReporting r \<longleftrightarrow> callsign r \<noteq> [] \<and> gridSquare r \<noteq> []"

subsection \<open>Reporting\<close>

definition freqChangeImpl :: "u64 \<Rightarrow> fdv_reporter \<Rightarrow> ('d, 'f) effect" where
  "freqChangeImpl frequency r =
     (if isFullyConnected r then [Emit ''freq_change'' (Some (JObj [(''freq'', JInt (uint frequency))]))] else [],
      r\<lparr>lastFrequency := frequency\<rparr>)"

definition transmitImpl :: "string \<Rightarrow> bool \<Rightarrow> fdv_reporter \<Rightarrow> ('d, 'f) effect" where
  "transmitImpl m b r =
     (if isFullyConnected r then [Emit ''tx_report'' (Some (JObj [(''mode'', JStr (c_str m)), (''transmitting'', JBool b)]))] else [],
      r\<lparr>mode := m, tx := b\<rparr>)"

definition sendMessageImpl :: "string \<Rightarrow> fdv_reporter \<Rightarrow> ('d, 'f) effect" where
  "sendMessageImpl msg r =
     (if isFullyConnected r then [Emit ''message_update'' (Some (JObj [(''message'', JStr (c_str msg))]))] else [], r\<lparr>message := msg\<rparr>)"

definition hideFromViewImpl :: "fdv_reporter \<Rightarrow> ('d, 'f) effect" where
  "hideFromViewImpl r = (if isFullyConnected r then [Emit ''hide_self'' None] else [], r\<lparr>hidden := True\<rparr>)"

text \<open>One operation after another.\<close>

definition andThen :: "('d, 'f) effect \<Rightarrow> (fdv_reporter \<Rightarrow> ('d, 'f) effect) \<Rightarrow> ('d, 'f) effect" where
  "andThen e k = (case e of (as, r) \<Rightarrow> case k r of (bs, r') \<Rightarrow> (as @ bs, r'))"

definition resend :: "fdv_reporter \<Rightarrow> ('d, 'f) effect" where
  "resend r = andThen (andThen (freqChangeImpl (lastFrequency r) r) (\<lambda>r. transmitImpl (mode r) (tx r) r)) (\<lambda>r. sendMessageImpl (message r) r)"

definition showOurselvesImpl :: "fdv_reporter \<Rightarrow> ('d, 'f) effect" where
  "showOurselvesImpl r =
     andThen ((if handlers r HAboutToShowSelf then [AboutToShowSelf] else []) @ (if isFullyConnected r then [Emit ''show_self'' None] else []),
              r\<lparr>hidden := False\<rparr>) resend"

definition whenValid :: "fdv_reporter \<Rightarrow> ('d, 'f) effect \<Rightarrow> ('d, 'f) effect" where
  "whenValid r e = (if isValidForReporting r then e else ([], r))"

definition fdv_freqChange :: "u64 \<Rightarrow> fdv_reporter \<Rightarrow> ('d, 'f) effect" where
  "fdv_freqChange frequency r = whenValid r (freqChangeImpl frequency r)"

definition fdv_transmit :: "string \<Rightarrow> bool \<Rightarrow> fdv_reporter \<Rightarrow> ('d, 'f) effect" where
  "fdv_transmit m b r = whenValid r (transmitImpl m b r)"

definition updateMessage :: "string \<Rightarrow> fdv_reporter \<Rightarrow> ('d, 'f) effect" where
  "updateMessage msg r = whenValid r (sendMessageImpl msg r)"

definition hideFromView :: "fdv_reporter \<Rightarrow> ('d, 'f) effect" where
  "hideFromView r = whenValid r (hideFromViewImpl r)"

definition showOurselves :: "fdv_reporter \<Rightarrow> ('d, 'f) effect" where
  "showOurselves r = whenValid r (showOurselvesImpl r)"

definition inAnalogMode :: "bool \<Rightarrow> fdv_reporter \<Rightarrow> ('d, 'f) effect" where
  "inAnalogMode b r = whenValid r (if b then hideFromView r else showOurselves r)"

definition requestQSY :: "string \<Rightarrow> u64 \<Rightarrow> string \<Rightarrow> fdv_reporter \<Rightarrow> ('d, 'f) effect" where
  "requestQSY sid frequencyHz msg r = whenValid r
     ([Emit ''qsy_request'' (Some (JObj [(''dest_sid'', JStr (c_str sid)), (''message'', JStr (c_str msg)), (''frequency'', JInt (uint frequencyHz))]))], r)"

definition fdv_addReceiveRecord :: "string \<Rightarrow> string \<Rightarrow> u8 \<Rightarrow> fdv_reporter \<Rightarrow> ('d, 'f) effect" where
  "fdv_addReceiveRecord call m snr r = whenValid r
     (if isFullyConnected r
      then [Emit ''rx_report'' (Some (JObj [(''callsign'', JStr (c_str call)), (''mode'', JStr (c_str m)), (''snr'', JInt (sint snr))]))] else [], r)"

subsection \<open>Connecting\<close>

fun digits :: "int \<Rightarrow> string \<Rightarrow> int" where
  "digits n [] = n"
| "digits n (c # cs) = (if 48 \<le> (of_char c :: nat) \<and> of_char c \<le> (57 :: nat) then digits (10 * n + (of_char c - 48)) cs else n)"

definition isspace :: "char \<Rightarrow> bool" where
  "isspace c \<longleftrightarrow> of_char c \<in> {9, 10, 11, 12, 13, 32 :: nat}"

definition atoi :: "string \<Rightarrow> int" where
  "atoi s = (case dropWhile isspace s of
       [] \<Rightarrow> 0
     | c # cs \<Rightarrow> if c = CHR ''-'' then - digits 0 cs else if c = CHR ''+'' then digits 0 cs else digits 0 (c # cs))"

text \<open>Two \<open>std::getline\<close> calls with the delimiter \<^verbatim>\<open>:\<close>; the second leaves an empty string when there is no more input.\<close>

definition splitHost :: "string \<Rightarrow> string \<times> string" where
  "splitHost h = (takeWhile (\<lambda>c. c \<noteq> CHR '':'') h, takeWhile (\<lambda>c. c \<noteq> CHR '':'') (drop 1 (dropWhile (\<lambda>c. c \<noteq> CHR '':'') h)))"

definition authData :: "string \<Rightarrow> fdv_reporter \<Rightarrow> 'd json" where
  "authData os r = JObj
     ((if \<not> isValidForReporting r then [(''role'', JStr ''view'')]
       else [(''role'', JStr (if writeOnly r then ''report_wo'' else ''report'')), (''callsign'', JStr (c_str (callsign r))),
             (''grid_square'', JStr (c_str (gridSquare r))), (''version'', JStr (c_str (software r))), (''rx_only'', JBool (rxOnly r)),
             (''os'', JStr (c_str os))]) @
      [(''protocol_version'', JInt 2)])"

text \<open>\<open>tls\<close> says whether the program was built with TLS support.\<close>

definition fdv_connect :: "bool \<Rightarrow> string \<Rightarrow> fdv_reporter \<Rightarrow> ('d, 'f) effect" where
  "fdv_connect tls os r =
     (let r1 = r\<lparr>isConnecting := True, isFullyConnected := False\<rparr>;
          (host, portStr) = splitHost (hostname r1);
          port = (if portStr \<noteq> [] then atoi (c_str portStr) else if tls \<and> useSecureConnection r1 then 443 else 80)
      in ([SioConnect (c_str host) port (tls \<and> useSecureConnection r1) (authData os r1)] @ (if handlers r1 HReporterConnect then [ReporterConnected] else []),
          r1\<lparr>listening := True\<rparr>))"

definition onSioConnect :: "fdv_reporter \<Rightarrow> ('d, 'f) effect" where
  "onSioConnect r = ([], r\<lparr>isConnecting := False\<rparr>)"

definition onSioDisconnect :: "fdv_reporter \<Rightarrow> ('d, 'f) effect" where
  "onSioDisconnect r =
     (if handlers r HReporterDisconnect then [ReporterDisconnected] else [], r\<lparr>isConnecting := False, isFullyConnected := False\<rparr>)"

definition onRecvEnd :: "fdv_reporter \<Rightarrow> ('d, 'f) effect" where
  "onRecvEnd r = (if handlers r HRecvEnd then [RecvEnded] else [], r)"

subsection \<open>Events of the server\<close>

text \<open>The fields of a message, if every one of them is a string.\<close>

fun strs :: "'d json option \<Rightarrow> string list \<Rightarrow> string list option" where
  "strs p [] = Some []"
| "strs p (k # ks) = (case str_val (obj_get p k) of None \<Rightarrow> None | Some v \<Rightarrow> map_option (Cons v) (strs p ks))"

definition onNewConnection :: "fdv_reporter \<Rightarrow> 'd json option \<Rightarrow> ('d, 'f) action list" where
  "onNewConnection r p =
     (if handlers r HUserConnect then
        case (strs p [''sid'', ''last_update'', ''callsign'', ''grid_square'', ''version'', ''connect_time''], bool_val (obj_get p ''rx_only'')) of
          (Some [sid, upd, call, grid, ver, con], Some rx) \<Rightarrow> [UserConnected sid upd call grid ver rx con]
        | _ \<Rightarrow> []
      else [])"

definition onRemoveConnection :: "fdv_reporter \<Rightarrow> 'd json option \<Rightarrow> ('d, 'f) action list" where
  "onRemoveConnection r p =
     (if handlers r HUserDisconnect then
        case (strs p [''sid'', ''last_update'', ''callsign'', ''grid_square'', ''version''], bool_val (obj_get p ''rx_only'')) of
          (Some [sid, upd, call, grid, ver], Some rx) \<Rightarrow> [UserDisconnected sid upd call grid ver rx []]
        | _ \<Rightarrow> []
      else [])"

definition onTransmitReport :: "fdv_reporter \<Rightarrow> 'd json option \<Rightarrow> ('d, 'f) action list" where
  "onTransmitReport r p =
     (if handlers r HTransmitUpdate then
        case (strs p [''sid'', ''last_update'', ''callsign'', ''grid_square'', ''mode''], bool_val (obj_get p ''transmitting'')) of
          (Some [sid, upd, call, grid, m], Some b) \<Rightarrow>
            [TransmitUpdated sid upd call grid m b (case str_val (obj_get p ''last_tx'') of Some t \<Rightarrow> t | None \<Rightarrow> [])]
        | _ \<Rightarrow> []
      else [])"

text \<open>The conversions to \<open>float\<close> of an \<open>int\<close> and of a \<open>double\<close> are parameters.\<close>

record ('d, 'f) floats =
  float_of_int :: "int \<Rightarrow> 'f"
  float_of_double :: "'d \<Rightarrow> 'f"

fun snr_val :: "('d, 'f) floats \<Rightarrow> 'd json option \<Rightarrow> 'f option" where
  "snr_val fl (Some v) = (case v of JInt i \<Rightarrow> Some (float_of_int fl (get_int (Some v))) | JReal x \<Rightarrow> Some (float_of_double fl x) | _ \<Rightarrow> None)"
| "snr_val fl None = None"

definition onReceiveReport :: "('d, 'f) floats \<Rightarrow> fdv_reporter \<Rightarrow> 'd json option \<Rightarrow> ('d, 'f) action list" where
  "onReceiveReport fl r p =
     (if handlers r HReceiveUpdate then
        case (strs p [''sid'', ''last_update'', ''receiver_callsign'', ''receiver_grid_square'', ''callsign'', ''mode''], snr_val fl (obj_get p ''snr'')) of
          (Some [sid, upd, rcall, rgrid, call, m], Some snr) \<Rightarrow> [ReceiveUpdated sid upd rcall rgrid call snr m]
        | _ \<Rightarrow> []
      else [])"

definition onFrequencyChange :: "fdv_reporter \<Rightarrow> 'd json option \<Rightarrow> ('d, 'f) action list" where
  "onFrequencyChange r p =
     (if handlers r HFrequencyChange then
        case (strs p [''sid'', ''last_update'', ''callsign'', ''grid_square''], uint_val (obj_get p ''freq'')) of
          (Some [sid, upd, call, grid], Some f) \<Rightarrow> [FrequencyChanged sid upd call grid f]
        | _ \<Rightarrow> []
      else [])"

definition onMessageUpdate :: "fdv_reporter \<Rightarrow> 'd json option \<Rightarrow> ('d, 'f) action list" where
  "onMessageUpdate r p =
     (if handlers r HMessageUpdate then
        case strs p [''sid'', ''last_update'', ''message''] of Some [sid, upd, m] \<Rightarrow> [MessageUpdated sid upd m] | _ \<Rightarrow> []
      else [])"

definition onQsyRequest :: "fdv_reporter \<Rightarrow> 'd json option \<Rightarrow> ('d, 'f) action list" where
  "onQsyRequest r p =
     (if handlers r HQsyRequest then
        case (strs p [''callsign'', ''message''], uint_val (obj_get p ''frequency'')) of
          (Some [call, m], Some f) \<Rightarrow> [QsyRequested call f m]
        | _ \<Rightarrow> []
      else [])"

definition onConnectionSuccessful :: "fdv_reporter \<Rightarrow> ('d, 'f) effect" where
  "onConnectionSuccessful r =
     andThen (if handlers r HConnectionSuccessful then [ConnectionSucceeded] else [], r\<lparr>isFullyConnected := True\<rparr>)
       (\<lambda>r. if hidden r then hideFromViewImpl r else resend r)"

text \<open>The handlers that \<open>connect_\<close> registers, by event name, except for the bulk update.\<close>

definition handleEvent :: "('d, 'f) floats \<Rightarrow> fdv_reporter \<Rightarrow> string \<Rightarrow> 'd json option \<Rightarrow> ('d, 'f) effect" where
  "handleEvent fl r name p =
     (if name = ''new_connection'' then (onNewConnection r p, r)
      else if name = ''connection_successful'' then onConnectionSuccessful r
      else if name = ''remove_connection'' then (onRemoveConnection r p, r)
      else if name = ''tx_report'' then (onTransmitReport r p, r)
      else if name = ''rx_report'' then (onReceiveReport fl r p, r)
      else if name = ''freq_change'' then (onFrequencyChange r p, r)
      else if name = ''message_update'' then (onMessageUpdate r p, r)
      else if name = ''qsy_request'' then (onQsyRequest r p, r)
      else ([], r))"

text \<open>The entries of a bulk update are smaller than the message, so even nested bulk updates come to an end.\<close>

lemma size_arr_get: "arr_get msg i = Some v \<Longrightarrow> size v < size msg"
  by (cases msg) (auto simp: less_Suc_eq_le intro!: size_list_estimation' [OF nth_mem] split: if_splits)

lemma size_arr_items: "size_list size (arr_items p) \<le> size_option size p"
  by (cases p rule: arr_items.cases) auto

text \<open>\<open>SocketIoClient::fireEvent\<close> with \<open>onFreeDVReporterBulkUpdate_\<close>, which fires each of its entries in turn.\<close>

function fireEvent :: "('d, 'f) floats \<Rightarrow> fdv_reporter \<Rightarrow> string \<Rightarrow> 'd json option \<Rightarrow> ('d, 'f) effect"
  and fireAll :: "('d, 'f) floats \<Rightarrow> fdv_reporter \<Rightarrow> 'd json list \<Rightarrow> ('d, 'f) effect" where
  "fireEvent fl r name p =
     (if \<not> listening r then ([], r) else if name = ''bulk_update'' then fireAll fl r (arr_items p) else handleEvent fl r name p)"
| "fireAll fl r [] = ([], r)"
| "fireAll fl r (msg # msgs) =
     andThen (case str_val (arr_get msg 0) of None \<Rightarrow> ([], r) | Some n \<Rightarrow> fireEvent fl r n (arr_get msg 1)) (\<lambda>r. fireAll fl r msgs)"
  by pat_completeness auto

termination
proof (relation "measure (case_sum (\<lambda>(fl, r, name, p). 2 * size_option size p + 1) (\<lambda>(fl, r, msgs). 2 * size_list size msgs))", goal_cases)
  case (2 fl r name p)
  then show ?case using size_arr_items [of p] by simp
next
  case (3 fl r msg msgs n)
  then obtain v where "arr_get msg 0 = Some v" by (cases "arr_get msg 0") auto
  then show ?case using size_arr_get [of msg 0 v] size_arr_get [of msg 1] by (cases "arr_get msg 1") auto
qed simp_all

declare fireEvent.simps [simp del]

subsection \<open>What the server knows\<close>

text \<open>The server's record of a station, as the messages of a connection set it; \<open>None\<close> where nothing was sent yet.\<close>

record view =
  v_frequency :: "int option"
  v_transmit :: "(string \<times> bool) option"
  v_message :: "string option"
  v_hidden :: bool

definition new_view :: view where
  "new_view = \<lparr>v_frequency = None, v_transmit = None, v_message = None, v_hidden = False\<rparr>"

definition observe :: "view \<Rightarrow> ('d, 'f) action \<Rightarrow> view" where
  "observe v a = (case a of
       Emit name p \<Rightarrow>
         if name = ''freq_change'' then (case obj_get p ''freq'' of Some (JInt f) \<Rightarrow> v\<lparr>v_frequency := Some f\<rparr> | _ \<Rightarrow> v)
         else if name = ''tx_report'' then
           (case (str_val (obj_get p ''mode''), bool_val (obj_get p ''transmitting'')) of
              (Some m, Some b) \<Rightarrow> v\<lparr>v_transmit := Some (m, b)\<rparr> | _ \<Rightarrow> v)
         else if name = ''message_update'' then (case str_val (obj_get p ''message'') of Some m \<Rightarrow> v\<lparr>v_message := Some m\<rparr> | None \<Rightarrow> v)
         else if name = ''hide_self'' then v\<lparr>v_hidden := True\<rparr>
         else if name = ''show_self'' then v\<lparr>v_hidden := False\<rparr>
         else v
     | _ \<Rightarrow> v)"

definition knows :: "view \<Rightarrow> fdv_reporter \<Rightarrow> bool" where
  "knows v r \<longleftrightarrow> v_hidden v = hidden r \<and>
     (\<not> hidden r \<longrightarrow> v_frequency v = Some (uint (lastFrequency r)) \<and> v_transmit v = Some (c_str (mode r), tx r) \<and>
       v_message v = Some (c_str (message r)))"

text \<open>The operations of a station, in any order; a connection that is lost or replaced starts a new record.\<close>

datatype 'd fdv_op =
    FreqChange u64 | Transmit string bool | UpdateMessage string | InAnalogMode bool | HideFromView | ShowOurselves
  | RequestQSY string u64 string | AddReceiveRecord string string u8 | SetHandler handler bool | ClearHandlers
  | Connect bool string | SioConnected | SioDisconnected | RecvEnd | Event string "'d json option"

fun perform :: "('d, 'f) floats \<Rightarrow> 'd fdv_op \<Rightarrow> fdv_reporter \<Rightarrow> ('d, 'f) effect" where
  "perform fl (FreqChange f) r = fdv_freqChange f r"
| "perform fl (Transmit m b) r = fdv_transmit m b r"
| "perform fl (UpdateMessage m) r = updateMessage m r"
| "perform fl (InAnalogMode b) r = inAnalogMode b r"
| "perform fl HideFromView r = hideFromView r"
| "perform fl ShowOurselves r = showOurselves r"
| "perform fl (RequestQSY sid f m) r = requestQSY sid f m r"
| "perform fl (AddReceiveRecord c m n) r = fdv_addReceiveRecord c m n r"
| "perform fl (SetHandler h b) r = ([], setHandler h b r)"
| "perform fl ClearHandlers r = ([], clearHandlers r)"
| "perform fl (Connect tls os) r = fdv_connect tls os r"
| "perform fl SioConnected r = onSioConnect r"
| "perform fl SioDisconnected r = onSioDisconnect r"
| "perform fl RecvEnd r = onRecvEnd r"
| "perform fl (Event n p) r = fireEvent fl r n p"

definition serverStep :: "('d, 'f) floats \<Rightarrow> view \<times> fdv_reporter \<Rightarrow> 'd fdv_op \<Rightarrow> view \<times> fdv_reporter" where
  "serverStep fl = (\<lambda>(v, r) x. case perform fl x r of (as, r') \<Rightarrow>
     (if x = SioDisconnected then new_view else foldl observe v as, r'))"

subsection \<open>Every operation keeps the server's knowledge\<close>

text \<open>While the station is not fully connected, nothing is sent and the record of the server is still empty.\<close>

definition informed :: "view \<Rightarrow> fdv_reporter \<Rightarrow> bool" where
  "informed v r \<longleftrightarrow> (if isFullyConnected r then knows v r else v = new_view)"

definition informs :: "view \<Rightarrow> ('d, 'f) effect \<Rightarrow> bool" where
  "informs v e \<longleftrightarrow> informed (foldl observe v (fst e)) (snd e)"

lemma informs_andThen: "(\<And>as r. e = (as, r) \<Longrightarrow> informs (foldl observe v as) (k r)) \<Longrightarrow> informs v (andThen e k)"
  by (cases e) (auto simp: informs_def andThen_def split: prod.splits)

lemmas impl_defs = freqChangeImpl_def transmitImpl_def sendMessageImpl_def hideFromViewImpl_def resend_def showOurselvesImpl_def andThen_def

lemma c_str_c_str [simp]: "c_str (c_str s) = c_str s"
  by (simp add: c_str_def)

lemma informs_impl:
  assumes "informed v r"
  shows "informs v (freqChangeImpl f r)" "informs v (transmitImpl m b r)" "informs v (sendMessageImpl msg r)"
    "informs v (hideFromViewImpl r)" "informs v (showOurselvesImpl r)"
  using assms by (auto simp: informs_def informed_def knows_def impl_defs observe_def)

lemma informs_connected: "v = new_view \<or> knows v r \<Longrightarrow> informs v (onConnectionSuccessful r)"
  by (auto simp: informs_def informed_def knows_def impl_defs observe_def onConnectionSuccessful_def new_view_def)

text \<open>Callbacks are not seen by the server.\<close>

definition silent :: "('d, 'f) action list \<Rightarrow> bool" where
  "silent as \<longleftrightarrow> list_all (\<lambda>a. case a of Emit n p \<Rightarrow> False | _ \<Rightarrow> True) as"

lemma silent_Nil [simp]: "silent []"
  by (simp add: silent_def)

lemma observe_silent: "silent as \<Longrightarrow> foldl observe v as = v"
  by (induction as arbitrary: v) (auto simp: silent_def observe_def split: action.splits)

lemma silent_handlers:
  "silent (onNewConnection r p)" "silent (onRemoveConnection r p)" "silent (onTransmitReport r p)" "silent (onReceiveReport fl r p)"
  "silent (onFrequencyChange r p)" "silent (onMessageUpdate r p)" "silent (onQsyRequest r p)"
  by (auto simp: silent_def onNewConnection_def onRemoveConnection_def onTransmitReport_def onReceiveReport_def onFrequencyChange_def
      onMessageUpdate_def onQsyRequest_def split: list.splits option.splits)

lemma informs_silent: "informed v r \<Longrightarrow> silent as \<Longrightarrow> informs v (as, r)"
  by (simp add: informs_def observe_silent)

lemma informs_handleEvent: "informed v r \<Longrightarrow> informs v (handleEvent fl r name p)"
proof -
  assume i: "informed v r"
  then have "v = new_view \<or> knows v r" by (auto simp: informed_def split: if_splits)
  then show ?thesis unfolding handleEvent_def by (simp add: informs_connected informs_silent [OF i] silent_handlers)
qed

lemma informs_fire:
  fixes fl :: "('d, 'f) floats"
  shows "informed v r \<Longrightarrow> informs v (fireEvent fl r name p)"
    and "informed v r \<Longrightarrow> informs v (fireAll fl r msgs)"
proof (induction fl r name p and fl r msgs arbitrary: v and v rule: fireEvent_fireAll.induct)
  case (1 fl r name p)
  then show ?case by (auto simp: fireEvent.simps informs_handleEvent informs_silent silent_def)
next
  case (2 fl r)
  then show ?case by (simp add: informs_silent silent_def)
next
  case (3 fl r msg msgs)
  show ?case unfolding fireAll.simps
  proof (rule informs_andThen)
    fix as r'
    assume e: "(case str_val (arr_get msg 0) of None \<Rightarrow> ([], r) | Some n \<Rightarrow> fireEvent fl r n (arr_get msg 1)) = (as, r')"
    have "informs v (as, r')"
      unfolding e [symmetric] using 3 by (auto simp: informs_silent silent_def split: option.split)
    then show "informs (foldl observe v as) (fireAll fl r' msgs)" using 3(2) by (simp add: informs_def)
  qed
qed

text \<open>A sequence of operations in which \<open>connect\<close> is not called on a connection that is already up.\<close>

fun orderly :: "('d, 'f) floats \<Rightarrow> fdv_reporter \<Rightarrow> 'd fdv_op list \<Rightarrow> bool" where
  "orderly fl r [] \<longleftrightarrow> True"
| "orderly fl r (x # xs) \<longleftrightarrow> (case x of Connect tls os \<Rightarrow> \<not> isFullyConnected r | _ \<Rightarrow> True) \<and> orderly fl (snd (perform fl x r)) xs"

lemma informs_whenValid: "informed v r \<Longrightarrow> informs v e \<Longrightarrow> informs v (whenValid r e)"
  by (simp add: whenValid_def informs_silent)

lemma serverStep_informed:
  assumes "informed v r" and "case x of Connect tls os \<Rightarrow> \<not> isFullyConnected r | _ \<Rightarrow> True"
  shows "case serverStep fl (v, r) x of (v', r') \<Rightarrow> informed v' r' \<and> r' = snd (perform fl x r)"
proof -
  note ops = fdv_freqChange_def fdv_transmit_def updateMessage_def hideFromView_def showOurselves_def
  have "informs v (perform fl x r)" if "x \<noteq> SioDisconnected"
  proof (cases x)
    case (RequestQSY sid f m)
    then show ?thesis using assms(1) by (auto simp: requestQSY_def whenValid_def informs_def observe_def)
  next
    case (AddReceiveRecord c m n)
    then show ?thesis using assms(1) by (auto simp: fdv_addReceiveRecord_def whenValid_def informs_def observe_def)
  next
    case (Connect tls os)
    then show ?thesis using assms by (auto simp: fdv_connect_def informs_def observe_def informed_def Let_def split: prod.split)
  next
    case (Event n p)
    then show ?thesis using assms(1) by (simp add: informs_fire)
  next
    case (SetHandler h b)
    then show ?thesis using assms(1) by (auto simp: setHandler_def informs_def informed_def knows_def split: if_splits)
  next
    case ClearHandlers
    then show ?thesis using assms(1) by (auto simp: clearHandlers_def informs_def informed_def knows_def split: if_splits)
  next
    case SioConnected
    then show ?thesis using assms(1) by (auto simp: onSioConnect_def informs_def informed_def knows_def split: if_splits)
  next
    case RecvEnd
    then show ?thesis using assms(1) by (simp add: onRecvEnd_def informs_def observe_def)
  qed (use that assms(1) in \<open>simp_all add: ops inAnalogMode_def informs_whenValid informs_impl\<close>)
  then show ?thesis by (cases "x = SioDisconnected") (auto simp: serverStep_def informs_def informed_def onSioDisconnect_def split: prod.split)
qed

lemma run_informed:
  "informed v r \<Longrightarrow> orderly fl r xs \<Longrightarrow> case foldl (serverStep fl) (v, r) xs of (v', r') \<Rightarrow> informed v' r'"
proof (induction xs arbitrary: v r)
  case (Cons x xs)
  obtain v' r' where s: "serverStep fl (v, r) x = (v', r')" by (rule prod.exhaust)
  have "informed v' r' \<and> r' = snd (perform fl x r)"
    using serverStep_informed [OF Cons.prems(1), of x fl] Cons.prems(2) s by auto
  then show ?case using Cons.IH [of v' r'] Cons.prems(2) s by auto
qed simp


definition demo_floats :: "(int, int) floats" where
  "demo_floats = \<lparr>float_of_int = (\<lambda>i. i), float_of_double = (\<lambda>d. d)\<rparr>"

definition demo_ops :: "int fdv_op list" where
  "demo_ops = [FreqChange 14236000, Connect True ''linux'', SioConnected, Event ''connection_successful'' None, Transmit ''RADEV1'' True,
     SioDisconnected, FreqChange 7177000, Event ''bulk_update'' (Some (JArr [JArr [JStr ''connection_successful'']]))]"

definition demo_station :: fdv_reporter where
  "demo_station = fdv_new [] ''K6AQ'' ''DM12'' ''FreeDV'' False False True"

lemma demo_ops_run:
  "orderly demo_floats demo_station demo_ops"
  "\<exists>v r. foldl (serverStep demo_floats) (new_view, demo_station) demo_ops = (v, r) \<and> isFullyConnected r \<and> lastFrequency r = 7177000 \<and>
     mode r = ''RADEV1'' \<and> tx r \<and> \<not> hidden r"
  by (simp_all add: demo_station_def demo_ops_def serverStep_def fdv_new_def fdv_freqChange_def fdv_transmit_def whenValid_def
      isValidForReporting_def impl_defs fdv_connect_def onSioConnect_def onSioDisconnect_def fireEvent.simps handleEvent_def
      onConnectionSuccessful_def c_str_def splitHost_def)


subsection \<open>What an event of the server can do\<close>

text \<open>The messages that report the station's own settings, as they are in \<open>r\<close>.\<close>

definition ownReport :: "fdv_reporter \<Rightarrow> ('d, 'f) action \<Rightarrow> bool" where
  "ownReport r a = (case a of
       Emit n p \<Rightarrow> a \<in> set (fst (resend (r\<lparr>isFullyConnected := True\<rparr>))) \<or> a \<in> set (fst (hideFromViewImpl (r\<lparr>isFullyConnected := True\<rparr>))) \<and> hidden r
     | SioConnect h q b j \<Rightarrow> False
     | _ \<Rightarrow> True)"

text \<open>The state may differ in the flag of the connection only, which an event never clears.\<close>

definition harmless :: "fdv_reporter \<Rightarrow> ('d, 'f) effect \<Rightarrow> bool" where
  "harmless r e \<longleftrightarrow> (\<exists>b. snd e = r\<lparr>isFullyConnected := b\<rparr> \<and> (isFullyConnected r \<longrightarrow> b)) \<and> list_all (ownReport r) (fst e)"

lemma harmless_callbacks:
  "harmless r (onNewConnection r p, r)" "harmless r (onRemoveConnection r p, r)" "harmless r (onTransmitReport r p, r)"
  "harmless r (onReceiveReport fl r p, r)" "harmless r (onFrequencyChange r p, r)" "harmless r (onMessageUpdate r p, r)"
  "harmless r (onQsyRequest r p, r)" "harmless r ([], r)"
  by (auto simp: harmless_def ownReport_def onNewConnection_def onRemoveConnection_def onTransmitReport_def onReceiveReport_def
      onFrequencyChange_def onMessageUpdate_def onQsyRequest_def split: list.splits option.splits intro!: exI [of _ "isFullyConnected r"])

lemma harmless_connected: "harmless r (onConnectionSuccessful r)"
proof -
  have "r\<lparr>isFullyConnected := True, lastFrequency := lastFrequency r, mode := mode r, tx := tx r, message := message r\<rparr> =
      r\<lparr>isFullyConnected := True\<rparr>" "r\<lparr>isFullyConnected := True, hidden := hidden r\<rparr> = r\<lparr>isFullyConnected := True\<rparr>"
    by (rule fdv_reporter.equality; simp)+
  then show ?thesis
    by (cases "hidden r") (auto simp: harmless_def ownReport_def onConnectionSuccessful_def impl_defs intro!: exI [of _ True])
qed

lemma ownReport_flag [simp]: "ownReport (r\<lparr>isFullyConnected := b\<rparr>) = ownReport r"
  by (rule ext) (simp add: ownReport_def split: action.split)

lemma harmless_andThen:
  assumes "harmless r e" and "\<And>b. snd e = r\<lparr>isFullyConnected := b\<rparr> \<Longrightarrow> harmless (r\<lparr>isFullyConnected := b\<rparr>) (k (r\<lparr>isFullyConnected := b\<rparr>))"
  shows "harmless r (andThen e k)"
proof -
  obtain b where b: "snd e = r\<lparr>isFullyConnected := b\<rparr>" "isFullyConnected r \<longrightarrow> b" using assms(1) by (auto simp: harmless_def)
  then have "harmless (r\<lparr>isFullyConnected := b\<rparr>) (k (r\<lparr>isFullyConnected := b\<rparr>))" using assms(2) by simp
  then show ?thesis using assms(1) b by (auto simp: harmless_def andThen_def split: prod.splits)
qed

lemma harmless_fire:
  fixes fl :: "('d, 'f) floats"
  shows "harmless r (fireEvent fl r name p)" and "harmless r (fireAll fl r msgs)"
proof (induction fl r name p and fl r msgs rule: fireEvent_fireAll.induct)
  case (1 fl r name p)
  then show ?case by (auto simp: fireEvent.simps handleEvent_def harmless_callbacks harmless_connected)
next
  case (2 fl r)
  then show ?case by (simp add: harmless_callbacks)
next
  case (3 fl r msg msgs)
  then show ?case unfolding fireAll.simps
    by (intro harmless_andThen) (auto simp: harmless_callbacks split: option.splits)
qed

lemma fireAll_append: "fireAll fl r (xs @ ys) = andThen (fireAll fl r xs) (\<lambda>r. fireAll fl r ys)"
  by (induction xs arbitrary: r) (auto simp: andThen_def split: prod.splits)

text \<open>
  No event of the server, whatever its name and arguments and however deeply bulk updates are nested in it,
  changes the station's settings or its callbacks: at most the station becomes fully connected. Everything it
  makes the station emit reports the station's own present settings, and no event makes it connect elsewhere. A
  bulk update has the effect of its entries one after the other.
\<close>

theorem server_events_harmless:
  "(\<exists>as b. fireEvent fl r name p = (as, r\<lparr>isFullyConnected := b\<rparr>) \<and> (isFullyConnected r \<longrightarrow> b) \<and> list_all (ownReport r) as) \<and>
   (listening r \<longrightarrow> fireEvent fl r ''bulk_update'' (Some (JArr (xs @ ys))) =
      andThen (fireEvent fl r ''bulk_update'' (Some (JArr xs))) (\<lambda>r. fireEvent fl r ''bulk_update'' (Some (JArr ys))))"
proof -
  have "listening (snd (fireAll fl r xs)) = listening r" using harmless_fire(2) [of r fl xs] by (auto simp: harmless_def)
  then have "listening r \<longrightarrow> fireEvent fl r ''bulk_update'' (Some (JArr (xs @ ys))) =
      andThen (fireEvent fl r ''bulk_update'' (Some (JArr xs))) (\<lambda>r. fireEvent fl r ''bulk_update'' (Some (JArr ys)))"
    by (auto simp: fireEvent.simps fireAll_append andThen_def split: prod.splits)
  then show ?thesis using harmless_fire(1) [of r fl name p] by (cases "fireEvent fl r name p") (auto simp: harmless_def)
qed

theorem server_events_harmless_witness:
  "\<exists>as b. fireEvent demo_floats (demo_station\<lparr>listening := True, isFullyConnected := True\<rparr>) ''bulk_update''
       (Some (JArr [JArr [JStr ''connection_successful''], JArr [JStr ''qsy_request'', JNull]])) =
     (as, demo_station\<lparr>listening := True, isFullyConnected := b\<rparr>) \<and> b \<and>
     list_all (ownReport (demo_station\<lparr>listening := True, isFullyConnected := True\<rparr>)) as"
  using server_events_harmless [of demo_floats "demo_station\<lparr>listening := True, isFullyConnected := True\<rparr>" "''bulk_update''"
      "Some (JArr [JArr [JStr ''connection_successful''], JArr [JStr ''qsy_request'', JNull]])" "[]" "[]"] by auto

end
