(* ===== verification/Socket_Io.thy ===== *)
theory Socket_Io
  imports Freedv_Reporter
begin

text \<open>
  The message layer of the socket.io client (\<^verbatim>\<open>SocketIoClient.cpp\<close>): what is done with a text frame of the
  websocket, and the frames that \<open>emit\<close> sends. Reading and writing JSON text are parameters. The websocket and
  TCP layers below are not modelled. A frame made by \<open>emit\<close> is decoded to the event it stands for, and together
  with \<open>Freedv_Reporter\<close> it follows that no text a server can send changes the station's settings.
\<close>

subsection \<open>Frames\<close>

datatype 'd sio_action =
    SioSend string
  | PingStart int
  | PingRestart
  | SioDisconnect
  | SioOnConnect
  | SioQueue "'d json"

text \<open>\<open>ptr[0]\<close> of a C string: the null character at its end.\<close>

definition first_char :: "string \<Rightarrow> char" where
  "first_char s = (case s of [] \<Rightarrow> CHR 0x00 | c # cs \<Rightarrow> c)"

definition isdigit :: "char \<Rightarrow> bool" where
  "isdigit c \<longleftrightarrow> 48 \<le> (of_char c :: nat) \<and> of_char c \<le> (57 :: nat)"

definition emit :: "('d json \<Rightarrow> string) \<Rightarrow> string \<Rightarrow> 'd json option \<Rightarrow> string" where
  "emit json_write name p = ''42'' @ c_str (json_write (JArr (JStr (c_str name) # (case p of None \<Rightarrow> [] | Some v \<Rightarrow> [v]))))"

text \<open>The queued task of \<open>emit\<close>: the frame is sent if there is a connection.\<close>

definition emitTask :: "bool \<Rightarrow> string \<Rightarrow> 'd sio_action list" where
  "emitTask connected frame = (if connected then [SioSend frame] else [])"

definition handleSocketIoMessage :: "(string \<Rightarrow> 'd json option) \<Rightarrow> string \<Rightarrow> 'd sio_action list" where
  "handleSocketIoMessage json_read ptr =
     (if first_char ptr = CHR ''0'' then [SioOnConnect]
      else if first_char ptr = CHR ''2'' then (case json_read (c_str (drop 1 ptr)) of None \<Rightarrow> [] | Some doc \<Rightarrow> [SioQueue doc])
      else if first_char ptr = CHR ''4'' then [SioDisconnect]
      else [])"

definition handleEngineIoMessage :: "(string \<Rightarrow> 'd json option) \<Rightarrow> string \<Rightarrow> 'd sio_action list" where
  "handleEngineIoMessage json_read ptr =
     (if first_char ptr = CHR ''0'' then
        let rootVal = json_read (c_str (drop 1 ptr))
        in [PingStart (get_int (obj_get rootVal ''pingInterval'') + get_int (obj_get rootVal ''pingTimeout''))]
      else if first_char ptr = CHR ''1'' then [SioDisconnect]
      else if first_char ptr = CHR ''2'' then [SioSend ''3'', PingRestart]
      else if first_char ptr = CHR ''4'' then handleSocketIoMessage json_read (drop 1 ptr)
      else if \<not> isdigit (first_char ptr) then [SioDisconnect]
      else [])"

text \<open>The task that \<open>handleSocketIoMessage_\<close> queues for an event, with the reporter as the receiver.\<close>

definition eventTask :: "('d, 'f) floats \<Rightarrow> 'd json \<Rightarrow> fdv_reporter \<Rightarrow> ('d, 'f) effect" where
  "eventTask fl doc r = (case str_val (arr_get doc 0) of None \<Rightarrow> ([], r) | Some name \<Rightarrow> fireEvent fl r name (arr_get doc 1))"

text \<open>The actions that reach the reporter: its connect callback and the queued events, in order.\<close>

fun deliver :: "('d, 'f) floats \<Rightarrow> 'd sio_action list \<Rightarrow> fdv_reporter \<Rightarrow> ('d, 'f) effect" where
  "deliver fl [] r = ([], r)"
| "deliver fl (a # as) r =
     andThen (case a of SioOnConnect \<Rightarrow> onSioConnect r | SioQueue doc \<Rightarrow> eventTask fl doc r | _ \<Rightarrow> ([], r)) (deliver fl as)"

definition handleFrame :: "('d, 'f) floats \<Rightarrow> (string \<Rightarrow> 'd json option) \<Rightarrow> string \<Rightarrow> fdv_reporter \<Rightarrow> ('d, 'f) effect" where
  "handleFrame fl json_read body r = deliver fl (handleEngineIoMessage json_read body) r"

subsection \<open>Lemmas\<close>

text \<open>A frame made by \<open>emit\<close> is the event it was made for, if reading inverts writing on that value.\<close>

lemma emit_received:
  assumes "json_read (c_str (json_write (JArr [JStr (c_str name), p]))) = Some (JArr [JStr (c_str name), p])" and "c_str name = name"
  shows "handleFrame fl json_read (emit json_write name (Some p)) r = fireEvent fl r name (Some p)"
  using assms by (simp add: handleFrame_def handleEngineIoMessage_def handleSocketIoMessage_def emit_def first_char_def eventTask_def andThen_def
      split: prod.split)

lemma ping_is_answered: "handleEngineIoMessage json_read (CHR ''2'' # rest) = [SioSend ''3'', PingRestart]"
  by (simp add: handleEngineIoMessage_def first_char_def)

text \<open>An empty frame, and one that does not begin with a digit, ends the connection.\<close>

lemma invalid_frame_disconnects:
  "body = [] \<or> \<not> isdigit (hd body) \<Longrightarrow> handleEngineIoMessage json_read body = [SioDisconnect]"
  by (cases body) (auto simp: handleEngineIoMessage_def first_char_def isdigit_def)

lemma handleEngineIo_cases:
  "\<exists>ks. handleEngineIoMessage json_read body = ks \<and> (ks = [SioOnConnect] \<or> (\<exists>doc. ks = [SioQueue doc]) \<or>
     list_all (\<lambda>a. case a of SioOnConnect \<Rightarrow> False | SioQueue doc \<Rightarrow> False | _ \<Rightarrow> True) ks)"
  by (auto simp: handleEngineIoMessage_def handleSocketIoMessage_def Let_def split: option.split)

lemma deliver_nothing:
  "list_all (\<lambda>a. case a of SioOnConnect \<Rightarrow> False | SioQueue doc \<Rightarrow> False | _ \<Rightarrow> True) ks \<Longrightarrow> deliver fl ks r = ([], r)"
  by (induction ks) (auto simp: andThen_def split: sio_action.splits)

text \<open>
  C26: Whatever text the server sends, the station's settings stay as they are: only the two flags of the
  connection may change, and whatever the station emits in answer reports its own present settings.
\<close>

theorem server_text_harmless:
  "\<exists>as c b. handleFrame fl json_read body r = (as, r\<lparr>isConnecting := c, isFullyConnected := b\<rparr>) \<and>
     (isFullyConnected r \<longrightarrow> b) \<and> list_all (ownReport r) as"
proof -
  consider "handleEngineIoMessage json_read body = [SioOnConnect]" | doc where "handleEngineIoMessage json_read body = [SioQueue doc]"
    | "list_all (\<lambda>a. case a of SioOnConnect \<Rightarrow> False | SioQueue doc \<Rightarrow> False | _ \<Rightarrow> True) (handleEngineIoMessage json_read body)"
    using handleEngineIo_cases [of json_read body] by blast
  then show ?thesis
  proof cases
    case 1
    then show ?thesis by (intro exI [of _ "[]"] exI [of _ False] exI [of _ "isFullyConnected r"]) (simp add: handleFrame_def onSioConnect_def andThen_def)
  next
    case (2 doc)
    have "harmless r (eventTask fl doc r)" by (auto simp: eventTask_def harmless_fire harmless_callbacks split: option.split)
    then obtain as b where "eventTask fl doc r = (as, r\<lparr>isFullyConnected := b\<rparr>)" "isFullyConnected r \<longrightarrow> b" "list_all (ownReport r) as"
      by (cases "eventTask fl doc r") (auto simp: harmless_def)
    then show ?thesis using 2
      by (intro exI [of _ as] exI [of _ "isConnecting r"] exI [of _ b]) (simp add: handleFrame_def andThen_def)
  next
    case 3
    then show ?thesis
      by (intro exI [of _ "[]"] exI [of _ "isConnecting r"] exI [of _ "isFullyConnected r"]) (simp add: handleFrame_def deliver_nothing)
  qed
qed

theorem server_text_harmless_witness:
  "\<exists>as c b. handleFrame demo_floats (\<lambda>s. Some (JArr [JStr s])) ''42connection_successful'' (demo_station\<lparr>listening := True, isFullyConnected := True\<rparr>) =
     (as, demo_station\<lparr>listening := True, isConnecting := c, isFullyConnected := b\<rparr>) \<and> b"
  using server_text_harmless [of demo_floats "\<lambda>s. Some (JArr [JStr s])" "''42connection_successful''"
      "demo_station\<lparr>listening := True, isFullyConnected := True\<rparr>"] by auto

end
