(* ===== verification/Csv_Reporter.thy ===== *)
theory Csv_Reporter
  imports FDV_Prelude Reporter_Log
begin

text \<open>
  The CSV log (\<^verbatim>\<open>CsvReporter.cpp\<close>). The file is a string; whether it could be opened is an argument, as is the
  broken-down time that \<open>gmtime\<close> returns. A reference reader for RFC 4180, with the line feed as the end of a
  record, shows that the file always reads as the header followed by the records in order, whatever characters a
  callsign received over the air contains.
\<close>

subsection \<open>Numbers and times as text\<close>

fun show_nat :: "nat \<Rightarrow> string" where
  "show_nat n = (if n < 10 then [char_of (48 + n)] else show_nat (n div 10) @ [char_of (48 + n mod 10)])"

declare show_nat.simps [simp del]

definition show_int :: "int \<Rightarrow> string" where
  "show_int i = (if i < 0 then CHR ''-'' # show_nat (nat (- i)) else show_nat (nat i))"

definition pad2 :: "nat \<Rightarrow> string" where
  "pad2 n = (if n < 10 then CHR ''0'' # show_nat n else show_nat n)"

record tm =
  tm_year :: nat
  tm_mon :: nat
  tm_mday :: nat
  tm_hour :: nat
  tm_min :: nat
  tm_sec :: nat

text \<open>\<open>strftime\<close> with \<^verbatim>\<open>%Y-%m-%d\<close> and \<^verbatim>\<open>%H:%M:%S\<close>; the buffers of 100 characters are never too short.\<close>

definition strftime_date :: "tm \<Rightarrow> string" where
  "strftime_date t = show_nat (1900 + tm_year t) @ ''-'' @ pad2 (tm_mon t + 1) @ ''-'' @ pad2 (tm_mday t)"

definition strftime_time :: "tm \<Rightarrow> string" where
  "strftime_time t = pad2 (tm_hour t) @ '':'' @ pad2 (tm_min t) @ '':'' @ pad2 (tm_sec t)"

subsection \<open>The reporter\<close>

definition special :: "char \<Rightarrow> bool" where
  "special c \<longleftrightarrow> c = CHR '','' \<or> c = CHR 0x22 \<or> c = CHR 0x0D \<or> c = CHR 0x0A"

definition csvField :: "string \<Rightarrow> string" where
  "csvField value =
     (if \<not> list_ex special value then value
      else [CHR 0x22] @ concat (map (\<lambda>c. if c = CHR 0x22 then [CHR 0x22, c] else [c]) value) @ [CHR 0x22])"

definition csv_header :: string where
  "csv_header = ''date,time,callsign,mode,frequency_hz,snr_db'' @ [CHR 0x0A]"

record csv_reporter =
  is_open :: bool
  csv_file :: string

definition csv_new :: "bool \<Rightarrow> string \<Rightarrow> csv_reporter" where
  "csv_new opened old =
     (if \<not> opened then \<lparr>is_open = False, csv_file = old\<rparr>
      else \<lparr>is_open = True, csv_file = (if length old = 0 then csv_header else old)\<rparr>)"

definition csv_addReceiveRecord :: "tm \<Rightarrow> string \<Rightarrow> string \<Rightarrow> u64 \<Rightarrow> u8 \<Rightarrow> csv_reporter \<Rightarrow> csv_reporter" where
  "csv_addReceiveRecord curTime callsign mode frequency snr s =
     (if \<not> is_open s then s
      else s\<lparr>csv_file := csv_file s @ strftime_date curTime @ '','' @ strftime_time curTime @ '','' @ csvField callsign @ '','' @
             csvField mode @ '','' @ show_nat (unat frequency) @ '','' @ show_int (sint snr) @ [CHR 0x0A]\<rparr>)"

subsection \<open>A reader for CSV files\<close>

text \<open>
  The reader is at the start of a field, in a plain field, inside quotes, or behind a quote inside quotes. It
  keeps the characters of the present field and the fields of the present record, in reverse.
\<close>

datatype csv_state = AtStart | Plain | Quoted | Closing

fun csv_read :: "csv_state \<Rightarrow> string \<Rightarrow> string list \<Rightarrow> string \<Rightarrow> string list list" where
  "csv_read st f fs [] = (if st = AtStart \<and> fs = [] then [] else [rev (rev f # fs)])"
| "csv_read AtStart f fs (c # cs) =
     (if c = CHR 0x22 then csv_read Quoted [] fs cs
      else if c = CHR '','' then csv_read AtStart [] ([] # fs) cs
      else if c = CHR 0x0A then rev ([] # fs) # csv_read AtStart [] [] cs
      else csv_read Plain [c] fs cs)"
| "csv_read Plain f fs (c # cs) =
     (if c = CHR '','' then csv_read AtStart [] (rev f # fs) cs
      else if c = CHR 0x0A then rev (rev f # fs) # csv_read AtStart [] [] cs
      else csv_read Plain (c # f) fs cs)"
| "csv_read Quoted f fs (c # cs) = (if c = CHR 0x22 then csv_read Closing f fs cs else csv_read Quoted (c # f) fs cs)"
| "csv_read Closing f fs (c # cs) =
     (if c = CHR 0x22 then csv_read Quoted (c # f) fs cs
      else if c = CHR '','' then csv_read AtStart [] (rev f # fs) cs
      else if c = CHR 0x0A then rev (rev f # fs) # csv_read AtStart [] [] cs
      else csv_read Plain (c # f) fs cs)"

definition csv_records :: "string \<Rightarrow> string list list" where
  "csv_records file = csv_read AtStart [] [] file"

text \<open>A string that ends a field: a comma or a line feed comes next.\<close>

definition field_end :: "char \<Rightarrow> string list \<Rightarrow> string \<Rightarrow> string list list" where
  "field_end c fs cs = (if c = CHR '','' then csv_read AtStart [] fs cs else rev fs # csv_read AtStart [] [] cs)"

lemma read_plain:
  "\<not> list_ex special v \<Longrightarrow> c = CHR '','' \<or> c = CHR 0x0A \<Longrightarrow>
    csv_read Plain f fs (v @ c # cs) = field_end c ((rev f @ v) # fs) cs"
  by (induction v arbitrary: f) (auto simp: field_end_def special_def)

lemma read_quoted:
  "csv_read Quoted f fs (concat (map (\<lambda>c. if c = CHR 0x22 then [CHR 0x22, c] else [c]) v) @ CHR 0x22 # cs) = csv_read Closing (rev v @ f) fs cs"
  by (induction v arbitrary: f) auto

text \<open>The reader takes every field back that \<open>csvField\<close> wrote.\<close>

lemma read_csvField:
  assumes "c = CHR '','' \<or> c = CHR 0x0A"
  shows "csv_read AtStart [] fs (csvField v @ c # cs) = field_end c (v # fs) cs"
proof (cases "list_ex special v")
  case True
  then show ?thesis using assms read_quoted [of "[]" fs v "c # cs"] by (auto simp: csvField_def field_end_def)
next
  case False
  then show ?thesis
  proof (cases v)
    case Nil
    then show ?thesis using assms by (auto simp: csvField_def field_end_def)
  next
    case (Cons x xs)
    then show ?thesis using False assms read_plain [of xs c "[x]" fs cs] by (auto simp: csvField_def special_def)
  qed
qed

lemma csvField_plain: "\<not> list_ex special v \<Longrightarrow> csvField v = v"
  by (simp add: csvField_def)

subsection \<open>Numbers and times need no quotes\<close>

lemma digit_plain: "n < 10 \<Longrightarrow> \<not> special (char_of (48 + n :: nat))"
proof -
  assume "n < 10"
  then have "n \<in> {0, 1, 2, 3, 4, 5, 6, 7, 8, 9}" by auto
  then show ?thesis by (auto simp: special_def char_of_def)
qed

lemma show_nat_plain [simp]: "\<not> list_ex special (show_nat n)"
proof (induction n rule: show_nat.induct)
  case (1 n)
  then show ?case using digit_plain [of n] digit_plain [of "n mod 10"] by (subst show_nat.simps) auto
qed

lemma plain_texts [simp]:
  "\<not> list_ex special (show_int i)" "\<not> list_ex special (strftime_date t)" "\<not> list_ex special (strftime_time t)"
  by (auto simp: show_int_def strftime_date_def strftime_time_def pad2_def special_def)

subsection \<open>The file reads as the header and the records\<close>

definition recordFields :: "tm \<times> string \<times> string \<times> u64 \<times> u8 \<Rightarrow> string list" where
  "recordFields = (\<lambda>(t, callsign, mode, frequency, snr).
     [strftime_date t, strftime_time t, callsign, mode, show_nat (unat frequency), show_int (sint snr)])"

definition recordText :: "tm \<times> string \<times> string \<times> u64 \<times> u8 \<Rightarrow> string" where
  "recordText = (\<lambda>(t, callsign, mode, frequency, snr).
     csvField (strftime_date t) @ '','' @ csvField (strftime_time t) @ '','' @ csvField callsign @ '','' @ csvField mode @ '','' @
     csvField (show_nat (unat frequency)) @ '','' @ csvField (show_int (sint snr)) @ [CHR 0x0A])"

lemma read_record: "csv_read AtStart [] [] (recordText x @ rest) = recordFields x # csv_read AtStart [] [] rest"
  by (cases x) (simp add: recordText_def recordFields_def read_csvField field_end_def)

definition csv_add :: "tm \<times> string \<times> string \<times> u64 \<times> u8 \<Rightarrow> csv_reporter \<Rightarrow> csv_reporter" where
  "csv_add = (\<lambda>(t, callsign, mode, frequency, snr). csv_addReceiveRecord t callsign mode frequency snr)"

definition header_fields :: "string list" where
  "header_fields = [''date'', ''time'', ''callsign'', ''mode'', ''frequency_hz'', ''snr_db'']"

lemma read_header: "csv_read AtStart [] [] (csv_header @ rest) = header_fields # csv_read AtStart [] [] rest"
  by (simp add: csv_header_def header_fields_def)

lemma read_file: "csv_records (csv_header @ concat (map recordText xs)) = header_fields # map recordFields xs"
proof -
  have "csv_read AtStart [] [] (concat (map recordText xs)) = map recordFields xs" by (induction xs) (simp_all add: read_record)
  then show ?thesis by (simp add: csv_records_def read_header)
qed

text \<open>An open log that holds the header and whole records.\<close>

definition csv_ok :: "csv_reporter \<Rightarrow> bool" where
  "csv_ok s \<longleftrightarrow> is_open s \<and> (\<exists>xs. csv_file s = csv_header @ concat (map recordText xs))"

lemma csv_add_file: "is_open s \<Longrightarrow> csv_add x s = s\<lparr>csv_file := csv_file s @ recordText x\<rparr>"
  by (cases x) (simp add: csv_add_def csv_addReceiveRecord_def recordText_def csvField_plain)

lemma csv_add_ok:
  assumes "csv_ok s"
  shows "csv_ok (csv_add x s) \<and> csv_records (csv_file (csv_add x s)) = csv_records (csv_file s) @ [recordFields x]"
proof -
  obtain xs where s: "is_open s" "csv_file s = csv_header @ concat (map recordText xs)" using assms by (auto simp: csv_ok_def)
  have f: "csv_file (csv_add x s) = csv_header @ concat (map recordText (xs @ [x]))" using s by (simp add: csv_add_file)
  then have "csv_records (csv_file (csv_add x s)) = csv_records (csv_file s) @ [recordFields x]"
    unfolding f s(2) read_file by simp
  moreover have "csv_ok (csv_add x s)" unfolding csv_ok_def f using s(1) by (auto simp: csv_add_file intro: exI [of _ "xs @ [x]"])
  ultimately show ?thesis by blast
qed

interpretation csv: record_log csv_ok "\<lambda>s. csv_records (csv_file s)" recordFields csv_add
  by unfold_locales (use csv_add_ok in auto)

lemma csv_new_ok: "csv_ok (csv_new True [])" "csv_ok s \<Longrightarrow> csv_new True (csv_file s) = s"
  by (auto simp: csv_ok_def csv_new_def csv_header_def intro: exI [of _ "[]"])

text \<open>
  C27: Whatever is logged, and over any number of runs of the program: the file reads as one line of headings
  followed by one record per logged call, in order, with exactly the callsign and mode that were given, commas,
  quotes and line breaks included. When the file cannot be opened it stays as it is.
\<close>

theorem csv_round_trip:
  "csv_records (csv_file (fold csv_add ys (csv_new True (csv_file (fold csv_add xs (csv_new True [])))))) =
     header_fields # map recordFields (xs @ ys) \<and>
   csv_file (fold csv_add ys (csv_new False old)) = old"
proof -
  have ok: "csv_ok (fold csv_add xs (csv_new True []))" by (rule csv.ok_fold [OF csv_new_ok(1)])
  have "csv_records (csv_file (csv_new True [])) = [header_fields]" using read_file [of "[]"] by (simp add: csv_new_def)
  moreover have "fold csv_add zs (csv_new False old) = csv_new False old" for zs
    by (induction zs) (auto simp: csv_add_def csv_addReceiveRecord_def csv_new_def)
  moreover have "csv_file (csv_new False old) = old" by (simp add: csv_new_def)
  ultimately show ?thesis
    using csv.log_fold [OF ok, of ys] csv.log_fold [OF csv_new_ok(1), of xs] by (simp add: csv_new_ok(2) [OF ok])
qed

end
