(* ===== verification/Tcp_Client.thy ===== *)
theory Tcp_Client
  imports Generic_FIFO
begin

text \<open>
  The data path of \<^verbatim>\<open>TcpConnectionHandler.cpp\<close> for connections without TLS: the receive thread with its flow control,
  the task that hands the received bytes to the client, disconnecting and connecting, and the send loop. Tasks run
  one at a time in the order of their queue (\<open>Threaded_Object\<close>); the receive buffer is the FIFO of \<open>Generic_FIFO\<close>. The
  results of \<open>select\<close>, \<open>read\<close> and \<open>write\<close> and the outcome of a connection attempt are chosen by the environment. The
  connection attempt itself (name resolution and the race between addresses) is not modelled. Shown: the flow
  control never loses a byte, and bytes are delivered in the order of arrival; but the buffer is not emptied on a
  disconnect, so a connection can begin with bytes of the one before.
\<close>

definition READ_SIZE_BYTES :: int where
  "READ_SIZE_BYTES = 1024"

definition RX_BUFFER_SIZE :: int where
  "RX_BUFFER_SIZE = 128 * 1024"

subsection \<open>State\<close>

datatype task = Dispatch | Disconnect | Connect | OnConnect

text \<open>
  The program points of the receive thread: not running, at the head of its loop, in \<open>select\<close>, at the head of the
  inner loop, after its test for room, behind the inner loop, and about to queue a task. The number is
  \<open>numHaveRead\<close>; behind the inner loop \<open>bufferFull\<close> and \<open>numRead\<close> are known too.
\<close>

datatype receiver = NoThread | AtTop | Selecting | InnerLoop int | HasRoom int | Behind int bool int | Queueing task receiver

datatype tcp_worker = Idle | Dispatching | Joining

datatype 'a read_result = Data "'a list" | EndOfFile | ReadError

record 'a tcp =
  connected :: bool
  receiver :: receiver
  receiveBuffer :: "'a fifo"
  tasks :: "task list"
  tcpWorker :: tcp_worker
  leftover_bytes :: "'a list"
  arrived :: "'a list"
  delivered :: "'a list"
  dropped :: bool

text \<open>
  \<open>connected\<close> is \<open>socket_ != INVALID_SOCKET\<close>. The last four fields record the history of the present connection: what
  the buffer held when it was made, the bytes read from the socket, the bytes passed to \<open>onReceive_\<close>, and whether
  a write to the buffer was ever refused.
\<close>

definition tcp_new :: "(int \<Rightarrow> 'a list) \<Rightarrow> 'a tcp" where
  "tcp_new fresh = \<lparr>connected = False, receiver = NoThread, receiveBuffer = fifo_new RX_BUFFER_SIZE None fresh, tasks = [],
     tcpWorker = Idle, leftover_bytes = [], arrived = [], delivered = [], dropped = False\<rparr>"

subsection \<open>The receive thread\<close>

definition rxTop :: "'a tcp \<Rightarrow> 'a tcp" where
  "rxTop s =
     (if \<not> connected s then s\<lparr>receiver := NoThread\<rparr>
      else if numFree (receiveBuffer s) < READ_SIZE_BYTES then s
      else s\<lparr>receiver := Selecting\<rparr>)"

definition rxSelect :: "int \<Rightarrow> 'a tcp \<Rightarrow> 'a tcp" where
  "rxSelect rv s =
     (if rv > 0 \<and> connected s then s\<lparr>receiver := InnerLoop 0\<rparr>
      else if rv < 0 \<and> connected s then s\<lparr>receiver := Queueing Disconnect NoThread\<rparr>
      else s\<lparr>receiver := AtTop\<rparr>)"

definition rxCheck :: "int \<Rightarrow> 'a tcp \<Rightarrow> 'a tcp" where
  "rxCheck numHaveRead s =
     (if numFree (receiveBuffer s) < READ_SIZE_BYTES then s\<lparr>receiver := Behind numHaveRead True 0\<rparr>
      else s\<lparr>receiver := HasRoom numHaveRead\<rparr>)"

definition rxRead :: "'a read_result \<Rightarrow> int \<Rightarrow> 'a tcp \<Rightarrow> 'a tcp" where
  "rxRead res numHaveRead s = (case res of
       Data bs \<Rightarrow>
         let numRead = int (length bs); (ret, f) = fifo_write (receiveBuffer s) bs numRead in
         s\<lparr>receiveBuffer := f, arrived := arrived s @ bs, dropped := (dropped s \<or> ret \<noteq> 0),
           receiver := (if numRead < READ_SIZE_BYTES then Behind (numHaveRead + numRead) False numRead else InnerLoop (numHaveRead + numRead))\<rparr>
     | EndOfFile \<Rightarrow> s\<lparr>receiver := Behind numHaveRead False 0\<rparr>
     | ReadError \<Rightarrow> s\<lparr>receiver := Behind numHaveRead False (- 1)\<rparr>)"

definition rxBehind :: "int \<Rightarrow> bool \<Rightarrow> int \<Rightarrow> 'a tcp \<Rightarrow> 'a tcp" where
  "rxBehind numHaveRead bufferFull numRead s =
     s\<lparr>receiver :=
         (if numHaveRead > 0 \<and> connected s then Queueing Dispatch AtTop
          else if bufferFull then AtTop
          else if numRead = 0 \<and> connected s then Queueing Disconnect NoThread
          else if numRead < 0 \<and> connected s then Queueing Disconnect NoThread
          else AtTop)\<rparr>"

definition enqueueTask :: "task \<Rightarrow> 'a tcp \<Rightarrow> 'a tcp" where
  "enqueueTask t s = s\<lparr>tasks := tasks s @ [t]\<rparr>"

subsection \<open>The worker\<close>

text \<open>One iteration of the task queued by the receive thread.\<close>

definition dispatchStep :: "'a tcp \<Rightarrow> 'a tcp" where
  "dispatchStep s =
     (let toRead = min (numUsed (receiveBuffer s)) READ_SIZE_BYTES in
      if connected s \<and> toRead > 0 then
        let (ret, bs, f) = fifo_read (receiveBuffer s) toRead in s\<lparr>receiveBuffer := f, delivered := delivered s @ bs\<rparr>
      else s\<lparr>tcpWorker := Idle\<rparr>)"

text \<open>\<open>disconnectImpl_\<close> up to the join of the receive thread; without a connection it does nothing.\<close>

definition disconnectImpl :: "'a tcp \<Rightarrow> 'a tcp" where
  "disconnectImpl s = (if connected s then s\<lparr>connected := False, tcpWorker := Joining\<rparr> else s)"

text \<open>\<open>connectImpl_\<close>: nothing on a live connection; \<open>ok\<close> says whether the attempt succeeded.\<close>

definition connectImpl :: "bool \<Rightarrow> 'a tcp \<Rightarrow> 'a tcp" where
  "connectImpl ok s =
     (if connected s \<or> \<not> ok then s
      else s\<lparr>connected := True, tasks := tasks s @ [OnConnect], receiver := AtTop,
             leftover_bytes := contents (receiveBuffer s), arrived := [], delivered := []\<rparr>)"

definition runTask :: "bool \<Rightarrow> task \<Rightarrow> 'a tcp \<Rightarrow> 'a tcp" where
  "runTask ok t s = (case t of
       Dispatch \<Rightarrow> s\<lparr>tcpWorker := Dispatching\<rparr> | Disconnect \<Rightarrow> disconnectImpl s | Connect \<Rightarrow> connectImpl ok s | OnConnect \<Rightarrow> s)"

subsection \<open>The step relation\<close>

text \<open>Clients and the reconnect timer may queue a connect or a disconnect at any time.\<close>

inductive tcp_step :: "'a tcp \<Rightarrow> 'a tcp \<Rightarrow> bool" where
  top: "receiver s = AtTop \<Longrightarrow> tcp_step s (rxTop s)"
| select: "receiver s = Selecting \<Longrightarrow> tcp_step s (rxSelect rv s)"
| check: "receiver s = InnerLoop n \<Longrightarrow> tcp_step s (rxCheck n s)"
| read: "receiver s = HasRoom n \<Longrightarrow> (case res of Data bs \<Rightarrow> bs \<noteq> [] \<and> int (length bs) \<le> READ_SIZE_BYTES | _ \<Rightarrow> True) \<Longrightarrow>
    tcp_step s (rxRead res n s)"
| behind: "receiver s = Behind n b k \<Longrightarrow> tcp_step s (rxBehind n b k s)"
| queueing: "receiver s = Queueing t r \<Longrightarrow> tcp_step s ((enqueueTask t s)\<lparr>receiver := r\<rparr>)"
| client: "t \<in> {Connect, Disconnect} \<Longrightarrow> tcp_step s (enqueueTask t s)"
| run: "tcpWorker s = Idle \<Longrightarrow> tasks s = t # ts \<Longrightarrow> tcp_step s (runTask ok t (s\<lparr>tasks := ts\<rparr>))"
| dispatch: "tcpWorker s = Dispatching \<Longrightarrow> tcp_step s (dispatchStep s)"
| joined: "tcpWorker s = Joining \<Longrightarrow> receiver s = NoThread \<Longrightarrow> tcp_step s (s\<lparr>tcpWorker := Idle\<rparr>)"

subsection \<open>The invariant\<close>

definition tcp_inv :: "'a tcp \<Rightarrow> bool" where
  "tcp_inv s \<longleftrightarrow> fifo_inv (receiveBuffer s) \<and> \<not> dropped s \<and>
     delivered s @ contents (receiveBuffer s) = leftover_bytes s @ arrived s \<and>
     (\<forall>n. receiver s = HasRoom n \<longrightarrow> READ_SIZE_BYTES \<le> numFree (receiveBuffer s)) \<and>
     (\<forall>t r. receiver s = Queueing t r \<longrightarrow> r = AtTop \<or> r = NoThread)"

declare length_contents [simp del]

lemma tcp_new_inv: "(\<And>n. length (fresh n) = nat n) \<Longrightarrow> tcp_inv (tcp_new fresh)"
  using fifo_new_inv [where len = RX_BUFFER_SIZE and inBuf = None and fresh = fresh] by (simp add: tcp_inv_def tcp_new_def RX_BUFFER_SIZE_def)

lemma rxRead_inv:
  assumes "tcp_inv s" and "receiver s = HasRoom n"
    and "case res of Data bs \<Rightarrow> bs \<noteq> [] \<and> int (length bs) \<le> READ_SIZE_BYTES | _ \<Rightarrow> True"
  shows "tcp_inv (rxRead res n s)"
proof (cases res)
  case (Data bs)
  have fits: "int (length bs) \<le> numFree (receiveBuffer s)" using assms Data by (simp add: tcp_inv_def)
  obtain f where "fifo_write (receiveBuffer s) bs (int (length bs)) = (0, f)" "fifo_inv f" "contents f = contents (receiveBuffer s) @ bs"
    using fq.write_fits [OF _ _ fits, of bs] assms(1) by (cases "fifo_write (receiveBuffer s) bs (int (length bs))") (auto simp: tcp_inv_def)
  then show ?thesis using assms(1) Data by (auto simp: tcp_inv_def rxRead_def Let_def append_assoc [symmetric] simp del: append_assoc)
qed (use assms(1) in \<open>simp_all add: tcp_inv_def rxRead_def\<close>)

text \<open>Reading from the buffer only makes more room, so the receive thread's test for room stays valid.\<close>

lemma dispatchStep_inv:
  assumes "tcp_inv s"
  shows "tcp_inv (dispatchStep s)"
proof -
  let ?n = "min (numUsed (receiveBuffer s)) READ_SIZE_BYTES"
  have inv: "fifo_inv (receiveBuffer s)" using assms by (simp add: tcp_inv_def)
  obtain ret bs f where r: "fifo_read (receiveBuffer s) ?n = (ret, bs, f)" by (rule prod_cases3)
  show ?thesis
  proof (cases "connected s \<and> ?n > 0")
    case True
    then have "bs = take (nat ?n) (contents (receiveBuffer s))" "fifo_inv f" "contents f = drop (nat ?n) (contents (receiveBuffer s))"
      using fq.read_available [OF inv, of ?n] r by auto
    moreover have "capacity f = capacity (receiveBuffer s)" using fq.cap_read [of "receiveBuffer s" ?n] r by simp
    moreover have "numFree (receiveBuffer s) \<le> numFree f" using calculation fq.free_used [OF inv] fq.used_items [OF inv] fq.free_used [of f] fq.used_items [of f] by simp
    ultimately show ?thesis using assms True r by (fastforce simp: tcp_inv_def dispatchStep_def Let_def)
  next
    case False
    then show ?thesis using assms by (auto simp: tcp_inv_def dispatchStep_def Let_def)
  qed
qed

lemma tcp_step_inv: "tcp_step s s' \<Longrightarrow> tcp_inv s \<Longrightarrow> tcp_inv s'"
proof (induction rule: tcp_step.induct)
  case (read s n res)
  then show ?case by (simp add: rxRead_inv)
next
  case (dispatch s)
  then show ?case by (simp add: dispatchStep_inv)
next
  case (run s t ts ok)
  then show ?case by (cases t) (auto simp: tcp_inv_def runTask_def disconnectImpl_def connectImpl_def)
qed (auto simp: tcp_inv_def rxTop_def rxSelect_def rxCheck_def rxBehind_def enqueueTask_def)

lemma tcp_reachable_inv:
  "tcp_step\<^sup>*\<^sup>* (tcp_new fresh) s \<Longrightarrow> (\<And>n. length (fresh n) = nat n) \<Longrightarrow> tcp_inv s"
  by (induction rule: rtranclp_induct) (auto intro: tcp_new_inv tcp_step_inv)

text \<open>
  C31: For every interleaving of the receive thread, the worker and clients that connect and disconnect: no byte read
  from the socket is ever dropped, and on each connection the bytes passed to \<open>onReceive_\<close>, followed by those still
  in the buffer, are what the buffer held when the connection was made followed by the bytes that arrived, in order.
\<close>

theorem tcp_receive_stream:
  assumes "tcp_step\<^sup>*\<^sup>* (tcp_new fresh) s" and "\<And>n. length (fresh n) = nat n"
  shows "\<not> dropped s \<and> delivered s @ contents (receiveBuffer s) = leftover_bytes s @ arrived s"
  using tcp_reachable_inv [OF assms] by (simp add: tcp_inv_def)

theorem tcp_receive_stream_witness:
  "\<exists>s. tcp_step\<^sup>*\<^sup>* (tcp_new (\<lambda>n. replicate (nat n) (0 :: nat))) s \<and> tasks s = [Connect] \<and> \<not> dropped s \<and>
     delivered s @ contents (receiveBuffer s) = leftover_bytes s @ arrived s"
proof -
  let ?s = "tcp_new (\<lambda>n. replicate (nat n) (0 :: nat))"
  have "tcp_step\<^sup>*\<^sup>* ?s (enqueueTask Connect ?s)" by (rule r_into_rtranclp) (rule tcp_step.client, simp)
  from this tcp_receive_stream [OF this] show ?thesis by (intro exI [of _ "enqueueTask Connect ?s"]) (simp add: enqueueTask_def tcp_new_def)
qed

subsection \<open>A connection that begins with bytes of the one before\<close>

text \<open>A description of a state: connection, program points, tasks, the buffer and the history.\<close>

definition at :: "bool \<Rightarrow> receiver \<Rightarrow> tcp_worker \<Rightarrow> task list \<Rightarrow> 'a list \<Rightarrow> 'a list \<Rightarrow> 'a list \<Rightarrow> 'a list \<Rightarrow> 'a tcp \<Rightarrow> bool" where
  "at c r w ts q l a d s \<longleftrightarrow> tcp_inv s \<and> capacity (receiveBuffer s) = RX_BUFFER_SIZE - 1 \<and> connected s = c \<and> receiver s = r \<and>
     tcpWorker s = w \<and> tasks s = ts \<and> contents (receiveBuffer s) = q \<and> leftover_bytes s = l \<and> arrived s = a \<and> delivered s = d"

text \<open>Reachability between descriptions.\<close>

definition leads :: "('a tcp \<Rightarrow> bool) \<Rightarrow> ('a tcp \<Rightarrow> bool) \<Rightarrow> bool" where
  "leads P Q \<longleftrightarrow> (\<forall>s. P s \<longrightarrow> (\<exists>s'. tcp_step\<^sup>*\<^sup>* s s' \<and> Q s'))"

lemma leads_trans [trans]: "leads P Q \<Longrightarrow> leads Q R \<Longrightarrow> leads P R"
  unfolding leads_def by (meson rtranclp_trans)

lemma leads_step: "(\<And>s. P s \<Longrightarrow> tcp_step s (f s) \<and> Q (f s)) \<Longrightarrow> leads P Q"
  unfolding leads_def by (meson r_into_rtranclp)

text \<open>A single step keeps the invariant, so a description only has to say what changes.\<close>

lemma at_step:
  assumes "\<And>s. at c r w ts q l a d s \<Longrightarrow> tcp_step s (f s)"
    and "\<And>s. at c r w ts q l a d s \<Longrightarrow> tcp_inv (f s) \<Longrightarrow> at c' r' w' ts' q' l' a' d' (f s)"
  shows "leads (at c r w ts q l a d) (at c' r' w' ts' q' l' a' d')"
proof (rule leads_step [of _ f])
  fix s assume "at c r w ts q l a d s"
  then show "tcp_step s (f s) \<and> at c' r' w' ts' q' l' a' d' (f s)" using assms tcp_step_inv [of s "f s"] by (simp add: at_def)
qed

lemma at_free: "at c r w ts q l a d s \<Longrightarrow> numFree (receiveBuffer s) = RX_BUFFER_SIZE - 1 - int (length q)"
  using fq.free_used [of "receiveBuffer s"] fq.used_items [of "receiveBuffer s"] by (auto simp: at_def tcp_inv_def)

lemma leads_client: "t \<in> {Connect, Disconnect} \<Longrightarrow> leads (at c r w ts q l a d) (at c r w (ts @ [t]) q l a d)"
  by (rule at_step [where f = "enqueueTask t"]) (rule tcp_step.client, simp_all add: at_def enqueueTask_def)

lemma leads_run:
  assumes "\<And>s :: 'a tcp. at c r Idle (t # ts) q l a d s \<Longrightarrow> tcp_inv (runTask True t (s\<lparr>tasks := ts\<rparr>)) \<Longrightarrow>
    at c' r' w' ts' q' l' a' d' (runTask True t (s\<lparr>tasks := ts\<rparr>))"
  shows "leads (at c r Idle (t # ts) q l a d) (at c' r' w' ts' (q' :: 'a list) l' a' d')"
proof (rule at_step [where f = "\<lambda>s. runTask True t (s\<lparr>tasks := ts\<rparr>)"])
  show "at c r Idle (t # ts) q l a d s \<Longrightarrow> tcp_step s (runTask True t (s\<lparr>tasks := ts\<rparr>))" for s :: "'a tcp"
    by (rule tcp_step.run) (simp_all add: at_def)
qed (rule assms)

lemmas task_defs = runTask_def disconnectImpl_def connectImpl_def at_def

lemma leads_connect:
  "leads (at False NoThread Idle [Connect] q l a d) (at True AtTop Idle [] (q :: 'a list) q [] [])"
proof -
  have "leads (at False NoThread Idle [Connect] q l a d) (at True AtTop Idle [OnConnect] (q :: 'a list) q [] [])"
    by (rule leads_run) (simp add: task_defs)
  also have "leads (at True AtTop Idle [OnConnect] (q :: 'a list) q [] []) (at True AtTop Idle [] q q [] [])"
    by (rule leads_run) (simp add: task_defs)
  finally show ?thesis .
qed

lemma leads_disconnect:
  "leads (at True AtTop Idle (Disconnect # ts) q l a d) (at False NoThread Idle ts (q :: 'a list) l a d)"
proof -
  have "leads (at True AtTop Idle (Disconnect # ts) q l a d) (at False AtTop Joining ts (q :: 'a list) l a d)"
    by (rule leads_run) (simp add: task_defs)
  also have "leads (at False AtTop Joining ts (q :: 'a list) l a d) (at False NoThread Joining ts q l a d)"
    by (rule at_step [where f = rxTop]) (rule tcp_step.top, simp_all add: at_def rxTop_def)
  also have "leads (at False NoThread Joining ts (q :: 'a list) l a d) (at False NoThread Idle ts q l a d)"
    by (rule at_step [where f = "\<lambda>s. s\<lparr>tcpWorker := Idle\<rparr>"]) (rule tcp_step.joined, simp_all add: at_def)
  finally show ?thesis .
qed

text \<open>A task that finds no connection leaves the bytes in the buffer.\<close>

lemma leads_dispatch_unconnected:
  "leads (at False NoThread Idle (Dispatch # ts) q l a d) (at False NoThread Idle ts (q :: 'a list) l a d)"
proof -
  have "leads (at False NoThread Idle (Dispatch # ts) q l a d) (at False NoThread Dispatching ts (q :: 'a list) l a d)"
    by (rule leads_run) (simp add: task_defs)
  also have "leads (at False NoThread Dispatching ts (q :: 'a list) l a d) (at False NoThread Idle ts q l a d)"
    by (rule at_step [where f = dispatchStep]) (rule tcp_step.dispatch, simp_all add: at_def dispatchStep_def Let_def)
  finally show ?thesis .
qed

lemma leads_dispatch:
  assumes "q \<noteq> []" and "int (length q) \<le> READ_SIZE_BYTES"
  shows "leads (at True AtTop Idle (Dispatch # ts) q l a d) (at True AtTop Dispatching ts [] l a (d @ q))"
proof -
  have "leads (at True AtTop Idle (Dispatch # ts) q l a d) (at True AtTop Dispatching ts q l a d)" by (rule leads_run) (simp add: task_defs)
  also have "leads (at True AtTop Dispatching ts q l a d) (at True AtTop Dispatching ts [] l a (d @ q))"
  proof (rule at_step [where f = dispatchStep])
    fix s assume s: "at True AtTop Dispatching ts q l a d s"
    then show "tcp_step s (dispatchStep s)" by (intro tcp_step.dispatch) (simp add: at_def)
    have inv: "fifo_inv (receiveBuffer s)" "contents (receiveBuffer s) = q" using s by (simp_all add: at_def tcp_inv_def)
    have n: "min (numUsed (receiveBuffer s)) READ_SIZE_BYTES = int (length q)" using fq.used_items [OF inv(1)] inv(2) assms(2) by simp
    obtain ret bs f where r: "fifo_read (receiveBuffer s) (int (length q)) = (ret, bs, f)" by (rule prod_cases3)
    have "bs = q" "contents f = []" using fq.read_available [OF inv(1), of "int (length q)"] fq.used_items [OF inv(1)] inv(2) r by simp_all
    moreover have "capacity f = capacity (receiveBuffer s)" using fq.cap_read [of "receiveBuffer s" "int (length q)"] r by simp
    moreover assume "tcp_inv (dispatchStep s)"
    ultimately show "at True AtTop Dispatching ts [] l a (d @ q) (dispatchStep s)"
      using s assms(1) r by (simp add: at_def dispatchStep_def Let_def n)
  qed
  finally show ?thesis .
qed


text \<open>A read that succeeds, and a pass of the receive thread over a short message, from the head of its loop to the queued task.\<close>

lemma leads_read:
  assumes "bs \<noteq> []" and "int (length bs) \<le> READ_SIZE_BYTES"
    and r: "r = (if int (length bs) < READ_SIZE_BYTES then Behind (n + int (length bs)) False (int (length bs)) else InnerLoop (n + int (length bs)))"
  shows "leads (at c (HasRoom n) w ts q l a d) (at c r w ts (q @ bs) l (a @ bs) d)"
proof (rule at_step [where f = "rxRead (Data bs) n"])
  fix s assume s: "at c (HasRoom n) w ts q l a d s"
  then show "tcp_step s (rxRead (Data bs) n s)" using assms by (intro tcp_step.read) (simp_all add: at_def)
  have inv: "fifo_inv (receiveBuffer s)" and fits: "int (length bs) \<le> numFree (receiveBuffer s)"
    using s assms(2) by (auto simp: at_def tcp_inv_def)
  obtain f where w: "fifo_write (receiveBuffer s) bs (int (length bs)) = (0, f)" and f: "contents f = contents (receiveBuffer s) @ bs"
    using fq.write_fits [OF inv _ fits, of bs] by (cases "fifo_write (receiveBuffer s) bs (int (length bs))") auto
  have "capacity f = capacity (receiveBuffer s)" using fq.cap_write [of "receiveBuffer s" bs "int (length bs)"] w by simp
  moreover assume "tcp_inv (rxRead (Data bs) n s)"
  ultimately show "at c r w ts (q @ bs) l (a @ bs) d (rxRead (Data bs) n s)"
    using s w f by (simp add: at_def rxRead_def Let_def r)
qed

lemma leads_check:
  assumes "int (length q) \<le> RX_BUFFER_SIZE - 1 - READ_SIZE_BYTES"
  shows "leads (at c (InnerLoop n) w ts q l a d) (at c (HasRoom n) w ts q l a d)"
proof (rule at_step [where f = "rxCheck n"])
  fix s assume s: "at c (InnerLoop n) w ts q l a d s"
  then show "tcp_step s (rxCheck n s)" by (intro tcp_step.check) (simp add: at_def)
  assume "tcp_inv (rxCheck n s)"
  then show "at c (HasRoom n) w ts q l a d (rxCheck n s)" using s at_free [OF s] assms by (simp add: at_def rxCheck_def)
qed

lemma leads_select:
  assumes "int (length q) \<le> RX_BUFFER_SIZE - 1 - READ_SIZE_BYTES"
  shows "leads (at True AtTop w ts q l a d) (at True (HasRoom 0) w ts q l a d)"
proof -
  have "leads (at True AtTop w ts q l a d) (at True Selecting w ts q l a d)"
  proof (rule at_step [where f = rxTop])
    fix s assume s: "at True AtTop w ts q l a d s"
    then show "tcp_step s (rxTop s)" by (intro tcp_step.top) (simp add: at_def)
    assume "tcp_inv (rxTop s)"
    then show "at True Selecting w ts q l a d (rxTop s)" using s at_free [OF s] assms by (simp add: at_def rxTop_def)
  qed
  also have "leads (at True Selecting w ts q l a d) (at True (InnerLoop 0) w ts q l a d)"
    by (rule at_step [where f = "rxSelect 1"]) (rule tcp_step.select, simp_all add: at_def rxSelect_def)
  also note leads_check [OF assms]
  finally show ?thesis .
qed

lemma leads_queueing: "leads (at c (Queueing t r) w ts q l a d) (at c r w (ts @ [t]) q l a d)"
  by (rule at_step [where f = "\<lambda>s. (enqueueTask t s)\<lparr>receiver := r\<rparr>"]) (rule tcp_step.queueing, simp_all add: at_def enqueueTask_def)

lemma leads_receive:
  assumes "bs \<noteq> []" and "int (length bs) < READ_SIZE_BYTES" and "int (length q) \<le> READ_SIZE_BYTES"
  shows "leads (at True AtTop w ts q l a d) (at True AtTop w (ts @ [Dispatch]) (q @ bs) l (a @ bs) d)"
proof -
  let ?n = "int (length bs)"
  have room: "int (length q) \<le> RX_BUFFER_SIZE - 1 - READ_SIZE_BYTES" using assms(3) by (simp add: READ_SIZE_BYTES_def RX_BUFFER_SIZE_def)
  have "leads (at True AtTop w ts q l a d) (at True (HasRoom 0) w ts q l a d)" by (rule leads_select [OF room])
  also have "leads (at True (HasRoom 0) w ts q l a d) (at True (Behind ?n False ?n) w ts (q @ bs) l (a @ bs) d)"
    using assms by (intro leads_read) simp_all
  also have "leads (at True (Behind ?n False ?n) w ts (q @ bs) l (a @ bs) d) (at True (Queueing Dispatch AtTop) w ts (q @ bs) l (a @ bs) d)"
    by (rule at_step [where f = "rxBehind ?n False ?n"]) (rule tcp_step.behind, simp_all add: at_def rxBehind_def assms(1))
  also note leads_queueing
  finally show ?thesis .
qed

text \<open>The first connection: connected, then disconnected just as the bytes \<open>xs\<close> arrive, so their task finds no connection.\<close>

lemma leads_lost_dispatch:
  assumes "leads (at True AtTop Idle [Disconnect] [] [] [] []) (at True AtTop Idle [Disconnect, Dispatch] xs [] xs [])"
  shows "leads (at False NoThread Idle [] [] [] [] []) (at True AtTop Idle [] xs (xs :: 'a list) [] [])"
proof -
  have "leads (at False NoThread Idle [] [] [] [] []) (at False NoThread Idle [Connect] ([] :: 'a list) [] [] [])"
    using leads_client [of Connect False NoThread Idle "[]"] by simp
  also note leads_connect
  also have "leads (at True AtTop Idle [] [] [] [] []) (at True AtTop Idle [Disconnect] ([] :: 'a list) [] [] [])"
    using leads_client [of Disconnect True AtTop Idle "[]"] by simp
  also note assms
  also note leads_disconnect
  also note leads_dispatch_unconnected
  also have "leads (at False NoThread Idle [] xs [] xs []) (at False NoThread Idle [Connect] xs [] xs [])"
    using leads_client [of Connect False NoThread Idle "[]"] by simp
  also note leads_connect
  finally show ?thesis .
qed

lemma leads_stale:
  assumes "xs \<noteq> []" and "ys \<noteq> []" and "int (length (xs @ ys)) < READ_SIZE_BYTES"
  shows "leads (at False NoThread Idle [] [] [] [] []) (at True AtTop Dispatching [] [] xs (ys :: 'a list) (xs @ ys))"
proof -
  have "leads (at False NoThread Idle [] [] [] [] []) (at True AtTop Idle [] xs xs [] [])"
    using leads_receive [OF assms(1), of "[]" Idle "[Disconnect]" "[]" "[]" "[]"] assms(3)
    by (intro leads_lost_dispatch) (simp add: READ_SIZE_BYTES_def)
  also have "leads (at True AtTop Idle [] xs xs [] []) (at True AtTop Idle [Dispatch] (xs @ ys) xs ys [])"
    using leads_receive [OF assms(2), of xs Idle "[]" xs "[]" "[]"] assms(3) by simp
  also have "leads (at True AtTop Idle [Dispatch] (xs @ ys) xs ys []) (at True AtTop Dispatching [] [] xs ys (xs @ ys))"
    using leads_dispatch [of "xs @ ys" "[]" xs ys "[]"] assms by simp
  finally show ?thesis .
qed

lemma tcp_new_at:
  assumes "\<And>n. length (fresh n) = nat n"
  shows "at False NoThread Idle [] [] [] [] [] (tcp_new fresh)"
  using tcp_new_inv [OF assms] fifo_new_inv [where len = RX_BUFFER_SIZE and inBuf = None and fresh = fresh] assms
  by (simp add: at_def, simp add: tcp_new_def RX_BUFFER_SIZE_def capacity_def fifo_new_def)

text \<open>
  The buffer outlives the connection: whatever short messages \<open>xs\<close> and \<open>ys\<close> are, a run exists in which \<open>xs\<close> arrives
  on one connection, and the client of the next connection, on which only \<open>ys\<close> arrives, is handed \<open>xs @ ys\<close>.
\<close>

theorem tcp_stale_bytes_after_reconnect:
  assumes "xs \<noteq> []" and "ys \<noteq> []" and "int (length (xs @ ys)) < READ_SIZE_BYTES" and "\<And>n. length (fresh n) = nat n"
  shows "\<exists>s. tcp_step\<^sup>*\<^sup>* (tcp_new fresh) s \<and> connected s \<and> arrived s = ys \<and> delivered s = xs @ ys"
proof -
  obtain s where "tcp_step\<^sup>*\<^sup>* (tcp_new fresh) s" "at True AtTop Dispatching [] [] xs ys (xs @ ys) s"
    using leads_stale [OF assms(1-3)] tcp_new_at [of fresh, OF assms(4)] unfolding leads_def by blast
  then show ?thesis by (auto simp: at_def)
qed

theorem tcp_stale_bytes_after_reconnect_witness:
  "\<exists>s. tcp_step\<^sup>*\<^sup>* (tcp_new (\<lambda>n. replicate (nat n) (0 :: nat))) s \<and> connected s \<and> arrived s = [66] \<and> delivered s = [65, 66]"
  using tcp_stale_bytes_after_reconnect [of "[65]" "[66]" "\<lambda>n. replicate (nat n) 0"] by (simp add: READ_SIZE_BYTES_def)


subsection \<open>A connection that never receives\<close>

text \<open>A connection on which no task is left to empty a buffer that has no room for a read.\<close>

definition starved :: "'a tcp \<Rightarrow> bool" where
  "starved s \<longleftrightarrow> connected s \<and> receiver s = AtTop \<and> numFree (receiveBuffer s) < READ_SIZE_BYTES \<and> tcpWorker s = Idle \<and>
     set (tasks s) \<subseteq> {Connect, Disconnect} \<and> arrived s = [] \<and> delivered s = []"

text \<open>A step on a live connection.\<close>

definition live_step :: "'a tcp \<Rightarrow> 'a tcp \<Rightarrow> bool" where
  "live_step s s' \<longleftrightarrow> tcp_step s s' \<and> connected s'"

lemma starved_step: "tcp_step s s' \<Longrightarrow> connected s' \<Longrightarrow> starved s \<Longrightarrow> starved s'"
proof (induction rule: tcp_step.induct)
  case (run s t ts ok)
  then show ?case by (cases t) (auto simp: starved_def runTask_def disconnectImpl_def connectImpl_def)
qed (auto simp: starved_def rxTop_def enqueueTask_def)

lemma starved_forever: "live_step\<^sup>*\<^sup>* s s' \<Longrightarrow> starved s \<Longrightarrow> starved s'"
  by (induction rule: rtranclp_induct) (auto simp: live_step_def dest: starved_step)

text \<open>The inner loop goes on as long as whole blocks arrive and there is room, and queues its task only when it ends.\<close>

lemma leads_full_reads:
  assumes "length bs = 1024" and "length q + k * 1024 \<le> 131071"
  shows "leads (at c (InnerLoop n) w ts q l a d)
    (at c (InnerLoop (n + int k * 1024)) w ts (q @ concat (replicate k bs)) l (a @ concat (replicate k bs)) d)"
  using assms(2)
proof (induction k arbitrary: n q a)
  case 0
  show ?case by (auto simp: leads_def)
next
  case (Suc k)
  have "leads (at c (InnerLoop n) w ts q l a d) (at c (HasRoom n) w ts q l a d)"
    using Suc.prems by (intro leads_check) (simp add: READ_SIZE_BYTES_def RX_BUFFER_SIZE_def)
  also have "leads (at c (HasRoom n) w ts q l a d) (at c (InnerLoop (n + 1024)) w ts (q @ bs) l (a @ bs) d)"
    using assms(1) by (intro leads_read) (auto simp: READ_SIZE_BYTES_def)
  also note Suc.IH [of "q @ bs" "n + 1024" "a @ bs"]
  finally show ?case using Suc.prems assms(1) by (simp add: algebra_simps)
qed

text \<open>A pass that stops because the buffer has no room left.\<close>

lemma leads_full_pass:
  assumes "length bs = 1024"
  shows "leads (at True AtTop w ts [] l a d)
    (at True AtTop w (ts @ [Dispatch]) (concat (replicate 127 bs)) l (a @ concat (replicate 127 bs)) d)"
proof -
  let ?n = "127 * 1024 :: int" and ?q = "concat (replicate 127 bs)"
  have ne: "bs \<noteq> []" and len: "length ?q = 127 * 1024" using assms by (auto simp add: length_concat sum_list_replicate)
  have "leads (at True AtTop w ts [] l a d) (at True (HasRoom 0) w ts [] l a d)"
    by (rule leads_select) (simp add: READ_SIZE_BYTES_def RX_BUFFER_SIZE_def)
  also have "leads (at True (HasRoom 0) w ts [] l a d) (at True (InnerLoop 1024) w ts bs l (a @ bs) d)"
    using leads_read [of bs "InnerLoop 1024" 0 True w ts "[]"] assms ne by (auto simp: READ_SIZE_BYTES_def)
  also have "leads (at True (InnerLoop 1024) w ts bs l (a @ bs) d) (at True (InnerLoop ?n) w ts ?q l (a @ ?q) d)"
    using leads_full_reads [OF assms, of bs 126 True 1024 w ts l "a @ bs" d] assms replicate_Suc [of 126 bs] by simp
  also have "leads (at True (InnerLoop ?n) w ts ?q l (a @ ?q) d) (at True (Behind ?n True 0) w ts ?q l (a @ ?q) d)"
  proof (rule at_step [where f = "rxCheck ?n"])
    fix s assume s: "at True (InnerLoop ?n) w ts ?q l (a @ ?q) d s"
    then show "tcp_step s (rxCheck ?n s)" by (intro tcp_step.check) (simp add: at_def)
    have "numFree (receiveBuffer s) < READ_SIZE_BYTES" using at_free [OF s] len by (simp add: READ_SIZE_BYTES_def RX_BUFFER_SIZE_def)
    moreover assume "tcp_inv (rxCheck ?n s)"
    ultimately show "at True (Behind ?n True 0) w ts ?q l (a @ ?q) d (rxCheck ?n s)" using s by (simp add: at_def rxCheck_def)
  qed
  also have "leads (at True (Behind ?n True 0) w ts ?q l (a @ ?q) d) (at True (Queueing Dispatch AtTop) w ts ?q l (a @ ?q) d)"
    by (rule at_step [where f = "rxBehind ?n True 0"]) (rule tcp_step.behind, simp_all add: at_def rxBehind_def)
  also note leads_queueing
  finally show ?thesis .
qed


text \<open>
  If the last pass of a connection fills the buffer and the disconnect runs before its task, the next connection
  is deaf: a run exists to a live connection on which, until it is disconnected, nothing is ever read from the
  socket and nothing is delivered, whatever the server sends.
\<close>

theorem tcp_receiver_starves:
  assumes "\<And>n. length (fresh n) = nat n"
  shows "\<exists>s. tcp_step\<^sup>*\<^sup>* (tcp_new fresh) s \<and> connected s \<and> Collect (live_step\<^sup>*\<^sup>* s) \<subseteq> {s'. arrived s' = [] \<and> delivered s' = []}"
proof -
  let ?q = "concat (replicate 127 (fresh 1024))"
  have "length (fresh 1024) = 1024" using assms by simp
  then have len: "length ?q = 127 * 1024"
    and pass: "leads (at True AtTop Idle [Disconnect] [] [] [] []) (at True AtTop Idle [Disconnect, Dispatch] ?q [] ?q [])"
    using leads_full_pass [of "fresh 1024" Idle "[Disconnect]" "[]" "[]" "[]"] by (simp_all add: length_concat sum_list_replicate)
  obtain s where run: "tcp_step\<^sup>*\<^sup>* (tcp_new fresh) s" and s: "at True AtTop Idle [] ?q ?q [] [] s"
    using leads_lost_dispatch [OF pass] tcp_new_at [of fresh, OF assms] unfolding leads_def by blast
  then have "starved s" using at_free [OF s] len by (simp add: starved_def at_def READ_SIZE_BYTES_def RX_BUFFER_SIZE_def)
  then show ?thesis using run starved_forever [of s] by (fastforce simp: starved_def)
qed

theorem tcp_receiver_starves_witness:
  "\<exists>s. tcp_step\<^sup>*\<^sup>* (tcp_new (\<lambda>n. replicate (nat n) (0 :: nat))) s \<and> connected s \<and>
     Collect (live_step\<^sup>*\<^sup>* s) \<subseteq> {s'. arrived s' = [] \<and> delivered s' = []}"
  using tcp_receiver_starves [of "\<lambda>n. replicate (nat n) 0"] by simp

subsection \<open>The send loop\<close>

text \<open>
  One entry of the list is what an iteration meets: the result of \<open>select\<close>, whether a disconnect was requested
  (\<open>cancelConnect_\<close>) and the result of \<open>write\<close>. The result: the bytes written, the tasks queued, and whether the loop has
  ended (it has not when the entries run out first).
\<close>

fun sendLoop :: "(int \<times> bool \<times> int) list \<Rightarrow> 'a list \<Rightarrow> 'a list \<times> task list \<times> bool" where
  "sendLoop es [] = ([], [], True)"
| "sendLoop [] bytes = ([], [], False)"
| "sendLoop ((rv, cancelConnect, numWritten) # es) bytes =
     (if rv = 0 \<and> cancelConnect then ([], [], True)
      else if rv > 0 then
        (if numWritten > 0 then
           let (out, ts, ended) = sendLoop es (drop (nat numWritten) bytes) in (take (nat numWritten) bytes @ out, ts, ended)
         else ([], [Disconnect], True))
      else if rv < 0 then let (out, ts, ended) = sendLoop es bytes in (out, Disconnect # ts, ended)
      else sendLoop es bytes)"

definition sendImpl :: "bool \<Rightarrow> (int \<times> bool \<times> int) list \<Rightarrow> 'a list \<Rightarrow> 'a list \<times> task list \<times> bool" where
  "sendImpl isConnected es bytes = (if isConnected then sendLoop es bytes else ([], [], True))"

lemma sendLoop_sound:
  assumes "sendLoop es bytes = (out, ts, ended)"
  shows "(\<exists>rest. bytes = out @ rest) \<and> (ended \<longrightarrow> ts = [] \<longrightarrow> (\<forall>(rv, c, n) \<in> set es. \<not> (rv = 0 \<and> c)) \<longrightarrow> out = bytes)"
  using assms
proof (induction es bytes arbitrary: out ts ended rule: sendLoop.induct)
  case (3 rv c n es b bs)
  let ?buf = "b # bs"
  show ?case
  proof (cases "rv > 0 \<and> n > 0")
    case True
    obtain out' where r: "sendLoop es (drop (nat n) ?buf) = (out', ts, ended)" "out = take (nat n) ?buf @ out'"
      using 3 True by (auto split: prod.splits)
    note IH = "3.IH"(1) [OF _ _ _ r(1)]
    obtain rest where "drop (nat n) ?buf = out' @ rest" using IH True by auto
    then have "?buf = out @ rest" using r(2) append_take_drop_id [of "nat n" ?buf] by simp
    then show ?thesis using IH True r(2) append_take_drop_id [of "nat n" ?buf] by auto
  next
    case False
    then show ?thesis using 3 by (fastforce split: if_splits prod.splits)
  qed
qed auto

lemma sendLoop_returns: "(\<forall>(rv, c, n) \<in> set es. rv > 0 \<and> n > 0) \<Longrightarrow> length bytes \<le> length es \<Longrightarrow> sendLoop es bytes = (bytes, [], True)"
  by (induction es bytes rule: sendLoop.induct) (auto simp: Let_def split: prod.splits)


text \<open>
  A send writes a prefix of its message, in order. When it returns without having queued a disconnect and no
  disconnect was requested while it waited, the whole message was written. A socket that keeps accepting at least
  one byte makes it return after at most one iteration per byte.
\<close>

theorem send_writes_message:
  assumes "sendImpl True es bytes = (out, ts, ended)"
  shows "(\<exists>rest. bytes = out @ rest) \<and>
    (ended \<and> ts = [] \<and> (\<forall>(rv, c, n) \<in> set es. \<not> (rv = 0 \<and> c)) \<longrightarrow> out = bytes) \<and>
    ((\<forall>(rv, c, n) \<in> set es. rv > 0 \<and> n > 0) \<and> length bytes \<le> length es \<longrightarrow> ended)"
  using sendLoop_sound [of es bytes out ts ended] sendLoop_returns [of es bytes] assms by (auto simp: sendImpl_def)

theorem send_writes_message_witness:
  "sendImpl True [(1, False, 2), (0, False, 0), (1, False, 1)] [65, 66, 67 :: nat] = ([65, 66, 67], [], True) \<and>
     (\<exists>rest. [65, 66, 67 :: nat] = [65, 66, 67] @ rest)"
proof -
  have run: "sendImpl True [(1, False, 2), (0, False, 0), (1, False, 1)] [65, 66, 67 :: nat] = ([65, 66, 67], [], True)"
    by (simp add: sendImpl_def)
  from run send_writes_message [OF run] show ?thesis by blast
qed

text \<open>
  A failing \<open>select\<close> does not end the loop: the loop runs as long as the failure lasts, and each iteration queues another
  disconnect behind the very task that is looping.
\<close>

theorem send_spins_on_select_error:
  "sendImpl True (replicate k (- 1, c, n)) (b # bs) = ([], replicate k Disconnect, False)"
proof -
  have "sendLoop (replicate k (- 1, c, n)) (b # bs) = ([], replicate k Disconnect, False)" by (induction k) simp_all
  then show ?thesis by (simp add: sendImpl_def)
qed

end
