(* ===== verification/Happy_Eyeballs.thy ===== *)
theory Happy_Eyeballs
  imports Transition_System "HOL-Library.Multiset"
begin

text \<open>
  The connection procedure of \<^verbatim>\<open>TcpConnectionHandler.cpp\<close> (\<open>connectImpl_\<close> and \<open>checkConnections_\<close>, the POSIX variant,
  without TLS): two threads look up the IPv6 and the IPv4 addresses of the server, the worker tries the addresses of
  both families in turn without waiting for an attempt to fail, and keeps the first socket that connects. A
  schedule is a list of actions of the worker, of the lookups and of clients that request or withdraw a cancellation;
  the results of the socket calls are part of the worker's actions. Reading a compound condition is one action.
\<close>

subsection \<open>State\<close>

text \<open>The program points of the worker, in the order of the code.\<close>

datatype he_point = WaitDns | Collect6 | Collect4 | Test6 | Slept | Need4 | Block4 | Choose | LoopHead | Attempt | Check | NextFd | Poll
  | RanOut | WaitMore | WaitCheck | Late | Late4 | Late6 | Drain | DrainCheck | CloseAll | Outcome | FreeWait | Ended

text \<open>
  What \<open>socket\<close>, \<open>fcntl\<close> and \<open>connect\<close> do for an address: no socket, a socket that cannot be made non-blocking or is
  refused at once, one that connects at once, or one whose connection is in progress.
\<close>

datatype attempt_result = NoSocket | FlagsFail int | Refused int | Immediate int | InProgress int

text \<open>
  \<open>got6\<close> says that the future of the lookup has been read, \<open>ready6\<close> that its promise is set and \<open>ipv6Complete\<close> is the flag
  that is set afterwards; \<open>dns6\<close> is what the lookup finds. The last fields are history: the sockets opened and
  closed, the addresses tried, whether the address at the head is being tried, whether a cancellation was noticed,
  whether a future was read twice, whether the receive thread and the reconnect timer were started, and the
  address lists freed.
\<close>

record 'a he =
  point :: he_point
  cancelConnect :: bool
  dns6 :: "'a list"
  dns4 :: "'a list"
  ready6 :: bool
  ready4 :: bool
  ipv6Complete :: bool
  ipv4Complete :: bool
  got6 :: bool
  got4 :: bool
  heads6 :: "'a list"
  heads4 :: "'a list"
  results6 :: "'a list"
  results4 :: "'a list"
  whichIndex :: nat
  pendingSockets :: "int list"
  he_socket :: "int option"
  enableReconnect :: bool
  opened :: "int list"
  closed :: "int list"
  tried6 :: "'a list"
  tried4 :: "'a list"
  trying :: bool
  cancelSeen :: bool
  readTwice :: bool
  threadStarted :: bool
  timerStarted :: bool
  freed :: "'a list list"

definition he_new :: "'a list \<Rightarrow> 'a list \<Rightarrow> bool \<Rightarrow> bool \<Rightarrow> 'a he" where
  "he_new as6 as4 reconnect cancel =
     \<lparr>point = WaitDns, cancelConnect = cancel, dns6 = as6, dns4 = as4, ready6 = False, ready4 = False,
      ipv6Complete = False, ipv4Complete = False, got6 = False, got4 = False, heads6 = [], heads4 = [],
      results6 = [], results4 = [], whichIndex = 0, pendingSockets = [], he_socket = None, enableReconnect = reconnect,
      opened = [], closed = [], tried6 = [], tried4 = [], trying = False, cancelSeen = False, readTwice = False,
      threadStarted = False, timerStarted = False, freed = []\<rparr>"

text \<open>Reading the future of a lookup.\<close>

definition take6 :: "'a he \<Rightarrow> 'a he" where
  "take6 s = s\<lparr>got6 := True, readTwice := (readTwice s \<or> got6 s), heads6 := dns6 s, results6 := dns6 s\<rparr>"

definition take4 :: "'a he \<Rightarrow> 'a he" where
  "take4 s = s\<lparr>got4 := True, readTwice := (readTwice s \<or> got4 s), heads4 := dns4 s, results4 := dns4 s\<rparr>"

definition flip :: "nat \<Rightarrow> nat" where
  "flip i = (i + 1) mod 2"

definition resultAt :: "'a he \<Rightarrow> nat \<Rightarrow> 'a list" where
  "resultAt s i = (if i = 0 then results6 s else results4 s)"

subsection \<open>Waiting for the first addresses\<close>

definition waitDns :: "'a he \<Rightarrow> 'a he" where
  "waitDns s =
     (if \<not> cancelConnect s \<and> \<not> ipv4Complete s \<and> \<not> ipv6Complete s then s
      else s\<lparr>point := Collect6, cancelSeen := cancelConnect s\<rparr>)"

definition collect6 :: "'a he \<Rightarrow> 'a he" where
  "collect6 s = (if ipv6Complete s then take6 s else s)\<lparr>point := Collect4\<rparr>"

definition collect4 :: "'a he \<Rightarrow> 'a he" where
  "collect4 s = (if ipv4Complete s then take4 s else s)\<lparr>point := Test6\<rparr>"

definition test6 :: "'a he \<Rightarrow> 'a he" where
  "test6 s = s\<lparr>point := (if \<not> ipv6Complete s then Slept else Need4)\<rparr>"

definition slept :: "'a he \<Rightarrow> 'a he" where
  "slept s = (if ipv6Complete s then take6 s else s)\<lparr>point := Need4\<rparr>"

definition need4 :: "'a he \<Rightarrow> 'a he" where
  "need4 s = s\<lparr>point := (if \<not> got4 s \<and> ipv6Complete s \<and> results6 s = [] then Block4 else Choose)\<rparr>"

definition block4 :: "'a he \<Rightarrow> 'a he" where
  "block4 s = (if ready4 s then (take4 s)\<lparr>point := Choose\<rparr> else s)"

definition chooseFamily :: "'a he \<Rightarrow> 'a he" where
  "chooseFamily s = s\<lparr>whichIndex := (if results6 s \<noteq> [] then 0 else if results4 s \<noteq> [] then 1 else 0), point := LoopHead\<rparr>"

subsection \<open>Checking the sockets\<close>

text \<open>
  \<open>ready\<close> lists the sockets that \<open>select\<close> reports, with the error code of each (\<open>None\<close> when \<open>getsockopt\<close> fails). The result of
  the scan: the socket that connected, if any, and the sockets that were closed.
\<close>

fun checkScan :: "(int \<times> int option) list \<Rightarrow> int list \<Rightarrow> int option \<times> int list" where
  "checkScan ready [] = (None, [])"
| "checkScan ready (sock # socks) = (case map_of ready sock of
       None \<Rightarrow> checkScan ready socks
     | Some code \<Rightarrow>
         if code = Some 0 then (Some sock, [])
         else let (found, bad) = checkScan ready socks in (found, sock # bad))"

definition checkConnections :: "int \<Rightarrow> (int \<times> int option) list \<Rightarrow> 'a he \<Rightarrow> 'a he" where
  "checkConnections rv ready s =
     (if rv > 0 then
        let (found, bad) = checkScan ready (pendingSockets s) in
        s\<lparr>he_socket := (case found of Some sock \<Rightarrow> Some sock | None \<Rightarrow> he_socket s),
          closed := closed s @ bad, pendingSockets := fold remove1 bad (pendingSockets s)\<rparr>
      else s)"

subsection \<open>Trying the addresses\<close>

definition loopHead :: "'a he \<Rightarrow> 'a he" where
  "loopHead s =
     (if \<not> cancelConnect s \<and> (results6 s \<noteq> [] \<or> results4 s \<noteq> []) then
        s\<lparr>whichIndex := (if resultAt s (whichIndex s) = [] then flip (whichIndex s) else whichIndex s), point := Attempt\<rparr>
      else s\<lparr>point := Drain, cancelSeen := (cancelSeen s \<or> cancelConnect s)\<rparr>)"

definition beginAttempt :: "'a he \<Rightarrow> 'a he" where
  "beginAttempt s =
     (if whichIndex s = 0 then s\<lparr>trying := True, tried6 := tried6 s @ [hd (results6 s)]\<rparr>
      else s\<lparr>trying := True, tried4 := tried4 s @ [hd (results4 s)]\<rparr>)"

definition attemptConnect :: "attempt_result \<Rightarrow> 'a he \<Rightarrow> 'a he" where
  "attemptConnect res s0 = (let s = beginAttempt s0 in case res of
       NoSocket \<Rightarrow> s\<lparr>point := NextFd\<rparr>
     | FlagsFail fd \<Rightarrow> s\<lparr>opened := opened s @ [fd], closed := closed s @ [fd], point := NextFd\<rparr>
     | Refused fd \<Rightarrow> s\<lparr>opened := opened s @ [fd], closed := closed s @ [fd], point := NextFd\<rparr>
     | Immediate fd \<Rightarrow> s\<lparr>opened := opened s @ [fd], pendingSockets := pendingSockets s @ [fd], he_socket := Some fd, point := Drain\<rparr>
     | InProgress fd \<Rightarrow> s\<lparr>opened := opened s @ [fd], pendingSockets := pendingSockets s @ [fd], point := Check\<rparr>)"

definition checkPending :: "int \<Rightarrow> (int \<times> int option) list \<Rightarrow> 'a he \<Rightarrow> 'a he" where
  "checkPending rv ready s0 = (let s = checkConnections rv ready s0 in s\<lparr>point := (if he_socket s \<noteq> None then Drain else NextFd)\<rparr>)"

definition nextFd :: "'a he \<Rightarrow> 'a he" where
  "nextFd s =
     (if whichIndex s = 0 then s\<lparr>results6 := tl (results6 s)\<rparr> else s\<lparr>results4 := tl (results4 s)\<rparr>)
       \<lparr>trying := False, whichIndex := flip (whichIndex s), point := Poll\<rparr>"

definition poll :: "'a he \<Rightarrow> 'a he" where
  "poll s =
     (if whichIndex s = 0 \<and> \<not> got6 s \<and> ready6 s then take6 s
      else if whichIndex s = 1 \<and> \<not> got4 s \<and> ready4 s then take4 s else s)\<lparr>point := RanOut\<rparr>"

definition ranOut :: "'a he \<Rightarrow> 'a he" where
  "ranOut s =
     (if resultAt s (whichIndex s) = [] then
        s\<lparr>whichIndex := flip (whichIndex s),
          point := (if resultAt s (flip (whichIndex s)) = [] \<and> (\<not> ipv4Complete s \<or> \<not> ipv6Complete s) then WaitMore else LoopHead)\<rparr>
      else s\<lparr>point := LoopHead\<rparr>)"

definition waitMore :: "'a he \<Rightarrow> 'a he" where
  "waitMore s =
     (if (\<not> ipv4Complete s \<or> \<not> ipv6Complete s) \<and> \<not> cancelConnect s \<and> he_socket s = None then
        (if pendingSockets s = [] then s else s\<lparr>point := WaitCheck\<rparr>)
      else s\<lparr>point := Late\<rparr>)"

definition late :: "'a he \<Rightarrow> 'a he" where
  "late s =
     (if he_socket s \<noteq> None \<or> cancelConnect s then s\<lparr>point := Drain, cancelSeen := (cancelSeen s \<or> cancelConnect s)\<rparr>
      else s\<lparr>point := Late4\<rparr>)"

definition late4 :: "'a he \<Rightarrow> 'a he" where
  "late4 s =
     (if got4 s then s\<lparr>point := Late6\<rparr>
      else if ready4 s then (take4 s)\<lparr>whichIndex := 1, point := Late6\<rparr> else s)"

definition late6 :: "'a he \<Rightarrow> 'a he" where
  "late6 s =
     (if got6 s then s\<lparr>point := LoopHead\<rparr>
      else if ready6 s then (take6 s)\<lparr>whichIndex := (if dns6 s \<noteq> [] then 0 else whichIndex s), point := LoopHead\<rparr> else s)"

subsection \<open>The end\<close>

definition drain :: "'a he \<Rightarrow> 'a he" where
  "drain s =
     (if \<not> cancelConnect s \<and> pendingSockets s \<noteq> [] \<and> he_socket s = None then s\<lparr>point := DrainCheck\<rparr>
      else s\<lparr>point := CloseAll, cancelSeen := (cancelSeen s \<or> cancelConnect s)\<rparr>)"

definition closeAll :: "'a he \<Rightarrow> 'a he" where
  "closeAll s = s\<lparr>closed := closed s @ filter (\<lambda>sock. Some sock \<noteq> he_socket s) (pendingSockets s), pendingSockets := [], point := Outcome\<rparr>"

definition outcome :: "'a he \<Rightarrow> 'a he" where
  "outcome s =
     (if he_socket s \<noteq> None then s\<lparr>threadStarted := True\<rparr>
      else if enableReconnect s then s\<lparr>timerStarted := True\<rparr> else s)\<lparr>point := FreeWait\<rparr>"

definition freeWait :: "'a he \<Rightarrow> 'a he" where
  "freeWait s =
     (if \<not> ipv4Complete s \<or> \<not> ipv6Complete s then s
      else let h4 = (if got4 s then heads4 s else dns4 s); h6 = (if got6 s then heads6 s else dns6 s) in
        s\<lparr>heads4 := h4, heads6 := h6,
          freed := (if h6 \<noteq> [] then [h6] else []) @ (if h4 \<noteq> [] then [h4] else []), point := Ended\<rparr>)"

subsection \<open>Schedules\<close>

datatype he_action = Work attempt_result int "(int \<times> int option) list" | Publish6 | Publish4 | Complete6 | Complete4 | SetCancel bool

definition work :: "attempt_result \<Rightarrow> int \<Rightarrow> (int \<times> int option) list \<Rightarrow> 'a he \<Rightarrow> 'a he" where
  "work res rv ready s = (case point s of
       WaitDns \<Rightarrow> waitDns s | Collect6 \<Rightarrow> collect6 s | Collect4 \<Rightarrow> collect4 s | Test6 \<Rightarrow> test6 s | Slept \<Rightarrow> slept s
     | Need4 \<Rightarrow> need4 s | Block4 \<Rightarrow> block4 s | Choose \<Rightarrow> chooseFamily s | LoopHead \<Rightarrow> loopHead s | Attempt \<Rightarrow> attemptConnect res s
     | Check \<Rightarrow> checkPending rv ready s | NextFd \<Rightarrow> nextFd s | Poll \<Rightarrow> poll s | RanOut \<Rightarrow> ranOut s | WaitMore \<Rightarrow> waitMore s
     | WaitCheck \<Rightarrow> (checkConnections rv ready s)\<lparr>point := WaitMore\<rparr> | Late \<Rightarrow> late s | Late4 \<Rightarrow> late4 s | Late6 \<Rightarrow> late6 s
     | Drain \<Rightarrow> drain s | DrainCheck \<Rightarrow> (checkConnections rv ready s)\<lparr>point := Drain\<rparr> | CloseAll \<Rightarrow> closeAll s
     | Outcome \<Rightarrow> outcome s | FreeWait \<Rightarrow> freeWait s | Ended \<Rightarrow> s)"

text \<open>The lookups publish their result first and set their flag afterwards.\<close>

definition he_act :: "he_action \<Rightarrow> 'a he \<Rightarrow> 'a he" where
  "he_act a s = (case a of
       Work res rv ready \<Rightarrow> work res rv ready s
     | Publish6 \<Rightarrow> s\<lparr>ready6 := True\<rparr> | Publish4 \<Rightarrow> s\<lparr>ready4 := True\<rparr>
     | Complete6 \<Rightarrow> s\<lparr>ipv6Complete := ready6 s\<rparr> | Complete4 \<Rightarrow> s\<lparr>ipv4Complete := ready4 s\<rparr>
     | SetCancel b \<Rightarrow> s\<lparr>cancelConnect := b\<rparr>)"

text \<open>The operating system never hands out the descriptor of a socket that is still open.\<close>

fun newSocket :: "attempt_result \<Rightarrow> int list" where
  "newSocket NoSocket = []"
| "newSocket (FlagsFail fd) = [fd]"
| "newSocket (Refused fd) = [fd]"
| "newSocket (Immediate fd) = [fd]"
| "newSocket (InProgress fd) = [fd]"

definition possible :: "he_action \<Rightarrow> 'a he \<Rightarrow> bool" where
  "possible a s = (case a of Work res rv ready \<Rightarrow> set (newSocket res) \<inter> set (pendingSockets s) = {} | _ \<Rightarrow> True)"

fun he_run :: "he_action list \<Rightarrow> 'a he \<Rightarrow> 'a he option" where
  "he_run [] s = Some s"
| "he_run (a # as) s = (if possible a s then he_run as (he_act a s) else None)"


definition he_step :: "'a he \<Rightarrow> he_action \<Rightarrow> 'a he \<Rightarrow> bool" where
  "he_step s a s' \<longleftrightarrow> possible a s \<and> s' = he_act a s"

lemma he_run_lrun: "he_run as s = Some s' \<longleftrightarrow> lrun he_step s as s'"
proof (induction as arbitrary: s)
  case Nil
  show ?case by (auto intro: run_Nil elim: lrun.cases)
next
  case (Cons a as)
  have "lrun he_step s (a # as) s' \<longleftrightarrow> he_step s a (he_act a s) \<and> lrun he_step (he_act a s) as s'"
    by (auto simp: he_step_def intro: run_Cons elim: lrun.cases)
  then show ?case using Cons by (simp add: he_step_def [of s a "he_act a s"])
qed

lemmas he_defs = waitDns_def collect6_def collect4_def test6_def slept_def need4_def block4_def chooseFamily_def loopHead_def
  beginAttempt_def attemptConnect_def nextFd_def poll_def ranOut_def waitMore_def late_def late4_def late6_def drain_def
  outcome_def freeWait_def take6_def take4_def flip_def resultAt_def Let_def

subsection \<open>Every socket is closed, except the one that is kept\<close>

text \<open>Scanning the sockets of a list without repetitions finds a socket of the list and closes others of it.\<close>

lemma checkScan_props:
  assumes "checkScan ready socks = (found, bad)" and "distinct socks"
  shows "mset bad \<subseteq># mset socks \<and> (\<forall>sock. found = Some sock \<longrightarrow> sock \<in> set socks \<and> sock \<notin> set bad)"
  using assms
proof (induction ready socks arbitrary: found bad rule: checkScan.induct)
  case (2 ready sock socks)
  show ?case
  proof (cases "map_of ready sock")
    case None
    then show ?thesis using 2 by (auto intro: subset_mset.order_trans)
  next
    case (Some code)
    then show ?thesis using "2.IH"(2) [OF Some] "2.prems" set_mset_mono [of "mset (snd (checkScan ready socks))" "mset socks"]
      by (fastforce split: if_splits prod.splits)
  qed
qed simp

lemma mset_fold_remove1: "mset (fold remove1 bad xs) = mset xs - mset bad"
  by (induction bad arbitrary: xs) simp_all

definition kept :: "'a he \<Rightarrow> int multiset" where
  "kept s = (case he_socket s of None \<Rightarrow> {#} | Some fd \<Rightarrow> {#fd#})"

definition past :: "'a he \<Rightarrow> bool" where
  "past s \<longleftrightarrow> point s \<in> {Outcome, FreeWait, Ended}"

definition sock_inv :: "'a he \<Rightarrow> bool" where
  "sock_inv s \<longleftrightarrow> distinct (pendingSockets s) \<and>
     mset (opened s) = mset (closed s) + mset (pendingSockets s) + (if past s then kept s else {#}) \<and>
     (past s \<longrightarrow> pendingSockets s = []) \<and>
     (he_socket s \<noteq> None \<longrightarrow> point s \<in> {Drain, WaitMore, Late, CloseAll, Outcome, FreeWait, Ended} \<and> (past s \<or> the (he_socket s) \<in> set (pendingSockets s)))"

lemma sock_inv_none: "sock_inv s \<Longrightarrow> point s \<notin> {Drain, WaitMore, Late, CloseAll, Outcome, FreeWait, Ended} \<Longrightarrow> he_socket s = None"
  unfolding sock_inv_def by blast

lemma checkConnections_socks:
  assumes "sock_inv s" and "\<not> past s" and "p \<in> {Drain, WaitMore, NextFd}" and "s' = checkConnections rv ready s" and "p = NextFd \<Longrightarrow> he_socket s' = None"
    and "he_socket s = None"
  shows "sock_inv (s'\<lparr>point := p\<rparr>)"
proof (cases "rv > 0")
  case True
  obtain found bad where scan: "checkScan ready (pendingSockets s) = (found, bad)" by fastforce
  have d: "distinct (pendingSockets s)" using assms(1) by (simp add: sock_inv_def)
  note props = checkScan_props [OF scan d]
  let ?ps = "fold remove1 bad (pendingSockets s)"
  have m: "mset (pendingSockets s) = mset bad + mset ?ps" using props by (simp add: mset_fold_remove1)
  have "distinct ?ps" using d m by (metis distinct_append mset_append mset_eq_imp_distinct_iff)
  moreover have "sock \<in> set ?ps" if "found = Some sock" for sock
  proof -
    have "sock \<in># mset bad + mset ?ps" using that props m by (metis set_mset_mset)
    then show ?thesis using that props by auto
  qed
  ultimately show ?thesis using assms True scan m
    by (cases found) (auto simp: sock_inv_def past_def checkConnections_def)
next
  case False
  then show ?thesis using assms by (auto simp: sock_inv_def past_def checkConnections_def)
qed


lemma closeAll_socks: "sock_inv s \<Longrightarrow> point s = CloseAll \<Longrightarrow> sock_inv (closeAll s)"
proof -
  assume inv: "sock_inv s" "point s = CloseAll"
  have "mset (pendingSockets s) = mset (filter (\<lambda>x. Some x \<noteq> he_socket s) (pendingSockets s)) + kept s"
  proof (cases "he_socket s")
    case (Some fd)
    then have fd: "fd \<in> set (pendingSockets s)" "distinct (pendingSockets s)" using inv by (auto simp: sock_inv_def past_def)
    then obtain xs ys where ps: "pendingSockets s = xs @ fd # ys" by (meson split_list)
    then have "filter (\<lambda>x. x \<noteq> fd) xs = xs" "filter (\<lambda>x. x \<noteq> fd) ys = ys" using fd(2) by (auto simp: filter_id_conv)
    then show ?thesis using Some ps by (simp add: kept_def)
  qed (simp add: kept_def)
  then show ?thesis using inv by (auto simp: sock_inv_def past_def closeAll_def kept_def)
qed

lemma attempt_socks: "sock_inv s \<Longrightarrow> point s = Attempt \<Longrightarrow> set (newSocket res) \<inter> set (pendingSockets s) = {} \<Longrightarrow> sock_inv (attemptConnect res s)"
  by (cases res) (auto simp: sock_inv_def past_def attemptConnect_def beginAttempt_def)

lemma sock_inv_step:
  assumes "he_step s a s'" and "sock_inv s"
  shows "sock_inv s'"
proof (cases a)
  case (Work res rv ready)
  then have s': "s' = work res rv ready s" "set (newSocket res) \<inter> set (pendingSockets s) = {}"
    using assms(1) by (simp_all add: he_step_def he_act_def possible_def)
  have scan: "sock_inv ((checkConnections rv ready s)\<lparr>point := p\<rparr>)"
    if "point s \<in> {Check, WaitCheck, DrainCheck}" and "p \<in> {Drain, WaitMore, NextFd}"
      and "p = NextFd \<Longrightarrow> he_socket (checkConnections rv ready s) = None" for p
  proof (rule checkConnections_socks [OF assms(2) _ that(2) refl that(3)])
    show "\<not> past s" using that(1) by (auto simp: past_def)
    show "he_socket s = None" by (rule sock_inv_none [OF assms(2)]) (use that(1) in auto)
  qed
  show ?thesis
  proof (cases "point s")
    case Attempt then show ?thesis using s' assms(2) by (simp add: work_def attempt_socks)
  next
    case Check
    then show ?thesis unfolding s'(1) work_def checkPending_def Let_def by (cases "he_socket (checkConnections rv ready s)") (simp_all, (rule scan, simp_all)+)
  next
    case WaitCheck then show ?thesis unfolding s'(1) work_def by simp (rule scan, simp_all)
  next
    case DrainCheck then show ?thesis unfolding s'(1) work_def by simp (rule scan, simp_all)
  next
    case CloseAll then show ?thesis using s' assms(2) by (simp add: work_def closeAll_socks)
  qed (use s' assms(2) in \<open>auto simp: work_def he_defs sock_inv_def past_def kept_def split: if_splits\<close>)
qed (use assms in \<open>auto simp: he_step_def he_act_def sock_inv_def past_def kept_def\<close>)

subsection \<open>Every address that was collected is tried once, in order\<close>

text \<open>The addresses of a family that are still to be tried.\<close>

definition rest6 :: "'a he \<Rightarrow> 'a list" where
  "rest6 s = (if trying s \<and> whichIndex s = 0 then tl (results6 s) else results6 s)"

definition rest4 :: "'a he \<Rightarrow> 'a list" where
  "rest4 s = (if trying s \<and> whichIndex s \<noteq> 0 then tl (results4 s) else results4 s)"

definition addr_inv :: "'a he \<Rightarrow> bool" where
  "addr_inv s \<longleftrightarrow>
     tried6 s @ rest6 s = (if got6 s then dns6 s else []) \<and> tried4 s @ rest4 s = (if got4 s then dns4 s else []) \<and>
     (trying s \<longrightarrow> resultAt s (whichIndex s) \<noteq> [] \<and> (point s \<in> {Check, NextFd} \<or> he_socket s \<noteq> None)) \<and>
     (point s \<in> {Check, NextFd} \<longrightarrow> trying s) \<and>
     (he_socket s \<noteq> None \<longrightarrow> point s \<in> {Drain, WaitMore, Late, CloseAll, Outcome, FreeWait, Ended}) \<and>
     (point s = Attempt \<longrightarrow> resultAt s (whichIndex s) \<noteq> []) \<and>
     (point s \<in> {Drain, DrainCheck, CloseAll, Outcome, FreeWait, Ended} \<longrightarrow> he_socket s = None \<longrightarrow> \<not> cancelSeen s \<longrightarrow> results6 s = [] \<and> results4 s = [])"

definition future_inv :: "'a he \<Rightarrow> bool" where
  "future_inv s \<longleftrightarrow> whichIndex s < 2 \<and> \<not> readTwice s \<and> (ipv6Complete s \<longrightarrow> ready6 s) \<and> (ipv4Complete s \<longrightarrow> ready4 s) \<and>
     (got6 s \<longrightarrow> heads6 s = dns6 s) \<and> (got4 s \<longrightarrow> heads4 s = dns4 s) \<and>
     (point s \<in> {WaitDns, Collect6, Slept} \<longrightarrow> \<not> got6 s) \<and> (point s \<in> {WaitDns, Collect6, Collect4, Block4} \<longrightarrow> \<not> got4 s) \<and>
     (point s \<in> {Collect4, Test6} \<longrightarrow> got6 s \<longrightarrow> ipv6Complete s) \<and>
     (point s = Ended \<longrightarrow> freed s = filter (\<lambda>as. as \<noteq> []) [dns6 s, dns4 s]) \<and>
     (point s \<in> {FreeWait, Ended} \<longrightarrow> (threadStarted s \<longleftrightarrow> he_socket s \<noteq> None) \<and> (timerStarted s \<longleftrightarrow> he_socket s = None \<and> enableReconnect s)) \<and>
     (point s \<notin> {FreeWait, Ended} \<longrightarrow> \<not> threadStarted s \<and> \<not> timerStarted s)"

lemma checkConnections_frame [simp]:
  "tried6 (checkConnections rv ready s) = tried6 s" "tried4 (checkConnections rv ready s) = tried4 s"
  "results6 (checkConnections rv ready s) = results6 s" "results4 (checkConnections rv ready s) = results4 s"
  "got6 (checkConnections rv ready s) = got6 s" "got4 (checkConnections rv ready s) = got4 s"
  "heads6 (checkConnections rv ready s) = heads6 s" "heads4 (checkConnections rv ready s) = heads4 s"
  "dns6 (checkConnections rv ready s) = dns6 s" "dns4 (checkConnections rv ready s) = dns4 s"
  "ready6 (checkConnections rv ready s) = ready6 s" "ready4 (checkConnections rv ready s) = ready4 s"
  "ipv6Complete (checkConnections rv ready s) = ipv6Complete s" "ipv4Complete (checkConnections rv ready s) = ipv4Complete s"
  "trying (checkConnections rv ready s) = trying s" "whichIndex (checkConnections rv ready s) = whichIndex s"
  "readTwice (checkConnections rv ready s) = readTwice s" "cancelSeen (checkConnections rv ready s) = cancelSeen s"
  "threadStarted (checkConnections rv ready s) = threadStarted s" "timerStarted (checkConnections rv ready s) = timerStarted s"
  by (auto simp: checkConnections_def split: prod.splits)


lemma future_inv_step: "he_step s a s' \<Longrightarrow> future_inv s \<Longrightarrow> future_inv s'"
proof (cases a)
  case (Work res rv ready)
  assume "he_step s a s'" and inv: "future_inv s"
  then have s': "s' = work res rv ready s" using Work by (simp add: he_step_def he_act_def)
  show ?thesis
  proof (cases "point s")
    case Attempt
    then show ?thesis using s' inv by (cases res) (simp_all add: work_def attemptConnect_def beginAttempt_def future_inv_def)
  qed (use s' inv in \<open>auto simp: work_def he_defs checkPending_def closeAll_def future_inv_def split: if_splits\<close>)
qed (auto simp: he_step_def he_act_def future_inv_def)

lemma not_got6: "future_inv s \<Longrightarrow> point s \<in> {WaitDns, Collect6, Slept} \<Longrightarrow> \<not> got6 s"
  unfolding future_inv_def by blast

lemma not_got4: "future_inv s \<Longrightarrow> point s \<in> {WaitDns, Collect6, Collect4, Block4} \<Longrightarrow> \<not> got4 s"
  unfolding future_inv_def by blast

lemma attempt_addr:
  assumes "addr_inv s" and "point s = Attempt"
  shows "addr_inv (attemptConnect res s)"
proof -
  have *: "\<not> trying s" "he_socket s = None" "resultAt s (whichIndex s) \<noteq> []"
    "tried6 s @ results6 s = (if got6 s then dns6 s else [])" "tried4 s @ results4 s = (if got4 s then dns4 s else [])"
    using assms by (auto simp: addr_inv_def rest6_def rest4_def)
  show ?thesis
  proof (cases "whichIndex s = 0")
    case True
    then obtain a as where "results6 s = a # as" using *(3) by (cases "results6 s") (auto simp: resultAt_def)
    then show ?thesis using * True by (cases res) (simp_all add: attemptConnect_def beginAttempt_def addr_inv_def rest6_def rest4_def resultAt_def)
  next
    case False
    then obtain a as where "results4 s = a # as" using *(3) by (cases "results4 s") (auto simp: resultAt_def)
    then show ?thesis using * False by (cases res) (simp_all add: attemptConnect_def beginAttempt_def addr_inv_def rest6_def rest4_def resultAt_def)
  qed
qed

lemma addr_inv_env:
  "addr_inv (s\<lparr>ready6 := b\<rparr>) = addr_inv s" "addr_inv (s\<lparr>ready4 := b\<rparr>) = addr_inv s"
  "addr_inv (s\<lparr>ipv6Complete := b\<rparr>) = addr_inv s" "addr_inv (s\<lparr>ipv4Complete := b\<rparr>) = addr_inv s"
  "addr_inv (s\<lparr>cancelConnect := b\<rparr>) = addr_inv s"
  by (simp_all add: addr_inv_def rest6_def rest4_def resultAt_def)

lemma addr_inv_step: "he_step s a s' \<Longrightarrow> addr_inv s \<Longrightarrow> future_inv s \<Longrightarrow> addr_inv s'"
proof (cases a)
  case (Work res rv ready)
  assume "he_step s a s'" and inv: "addr_inv s" and fut: "future_inv s"
  then have s': "s' = work res rv ready s" using Work by (simp add: he_step_def he_act_def)
  show ?thesis
  proof (cases "point s")
    case Attempt
    then show ?thesis using s' inv by (simp add: work_def attempt_addr)
  next
    case LoopHead
    have "whichIndex s < 2" using fut unfolding future_inv_def by blast
    then consider "whichIndex s = 0" | "whichIndex s = 1" by linarith
    then show ?thesis using LoopHead s' inv by cases (auto simp: work_def he_defs addr_inv_def rest6_def rest4_def split: if_splits)
  next
    case Collect6 then show ?thesis using s' inv not_got6 [OF fut] by (auto simp: work_def he_defs addr_inv_def rest6_def rest4_def)
  next
    case Collect4 then show ?thesis using s' inv not_got4 [OF fut] by (auto simp: work_def he_defs addr_inv_def rest6_def rest4_def)
  next
    case Slept then show ?thesis using s' inv not_got6 [OF fut] by (auto simp: work_def he_defs addr_inv_def rest6_def rest4_def)
  next
    case Block4 then show ?thesis using s' inv not_got4 [OF fut] by (auto simp: work_def he_defs addr_inv_def rest6_def rest4_def)
  qed (use s' inv in \<open>auto simp: work_def he_defs checkPending_def closeAll_def addr_inv_def rest6_def rest4_def split: if_splits\<close>)
qed (auto simp: he_step_def he_act_def addr_inv_env)


subsection \<open>The invariant of all schedules\<close>

definition he_inv :: "'a he \<Rightarrow> bool" where
  "he_inv s \<longleftrightarrow> sock_inv s \<and> addr_inv s \<and> future_inv s"

interpretation hs: stable_system he_step he_inv
  by unfold_locales (auto simp: he_inv_def intro: sock_inv_step addr_inv_step future_inv_step)

lemma he_new_inv: "he_inv (he_new as6 as4 reconnect cancel)"
  by (simp add: he_inv_def sock_inv_def addr_inv_def future_inv_def he_new_def past_def rest6_def rest4_def)

lemma he_run_inv: "he_run acts s = Some s' \<Longrightarrow> he_inv s \<Longrightarrow> he_inv s'"
  by (auto simp: he_run_lrun intro: hs.run_stable)

text \<open>What the lookups find and the reconnect policy do not change.\<close>

lemma checkConnections_frame2 [simp]:
  "enableReconnect (checkConnections rv ready s) = enableReconnect s" "point (checkConnections rv ready s) = point s"
  by (auto simp: checkConnections_def split: prod.splits)

lemma he_act_const: "dns6 (he_act a s) = dns6 s \<and> dns4 (he_act a s) = dns4 s \<and> enableReconnect (he_act a s) = enableReconnect s"
  by (simp add: he_act_def work_def he_defs checkPending_def closeAll_def split: he_action.split he_point.split attempt_result.split)

lemma he_run_const: "he_run acts s = Some s' \<Longrightarrow> dns6 s' = dns6 s \<and> dns4 s' = dns4 s \<and> enableReconnect s' = enableReconnect s"
  by (induction acts arbitrary: s) (auto simp: he_act_const split: if_splits)

text \<open>When both lookups have finished before the worker looks, it collects both results.\<close>

definition prompt :: "'a he \<Rightarrow> bool" where
  "prompt s \<longleftrightarrow> ipv6Complete s \<and> ipv4Complete s \<and> (point s \<notin> {WaitDns, Collect6} \<longrightarrow> got6 s) \<and> (point s \<notin> {WaitDns, Collect6, Collect4} \<longrightarrow> got4 s)"

lemma prompt_step:
  assumes "he_step s a s'" and "future_inv s" and "prompt s"
  shows "prompt s'"
proof (cases a)
  case (Work res rv ready)
  then have s': "s' = work res rv ready s" using assms(1) by (simp add: he_step_def he_act_def)
  show ?thesis
  proof (cases "point s")
    case Attempt
    then show ?thesis using s' assms(3) by (cases res) (auto simp: work_def attemptConnect_def beginAttempt_def prompt_def)
  qed (use s' assms(3) in \<open>auto simp: work_def he_defs checkPending_def closeAll_def prompt_def\<close>)
next
  case Complete6
  then show ?thesis using assms by (auto simp: he_step_def he_act_def prompt_def future_inv_def)
next
  case Complete4
  then show ?thesis using assms by (auto simp: he_step_def he_act_def prompt_def future_inv_def)
qed (use assms in \<open>auto simp: he_step_def he_act_def prompt_def\<close>)

lemma prompt_run: "he_run acts s = Some s' \<Longrightarrow> he_inv s \<Longrightarrow> prompt s \<Longrightarrow> prompt s'"
  using hs.run_without [where P = prompt and A = "{}" and B = "{}"] prompt_step by (fastforce simp: he_run_lrun he_inv_def)

subsection \<open>Properties\<close>

text \<open>
  C32: A connection attempt that has ended has closed every socket it opened exactly once, except the connected
  one, which it keeps; it has freed the address lists of both lookups, and read no future twice. The receive thread
  is started exactly when there is a connection, and the reconnect timer exactly when there is none and reconnecting
  is enabled.
\<close>

theorem connect_closes_sockets:
  assumes "he_run acts (he_new as6 as4 reconnect cancel) = Some s" and "point s = Ended"
  shows "mset (opened s) = mset (closed s) + (case he_socket s of None \<Rightarrow> {#} | Some fd \<Rightarrow> {#fd#}) \<and>
    freed s = filter (\<lambda>as. as \<noteq> []) [as6, as4] \<and> \<not> readTwice s \<and>
    (threadStarted s \<longleftrightarrow> he_socket s \<noteq> None) \<and> (timerStarted s \<longleftrightarrow> he_socket s = None \<and> reconnect)"
proof -
  have "he_inv s" using he_run_inv [OF assms(1) he_new_inv] .
  then have inv: "sock_inv s" "future_inv s" by (simp_all add: he_inv_def)
  have const: "dns6 s = as6" "dns4 s = as4" "enableReconnect s = reconnect" using he_run_const [OF assms(1)] by (simp_all add: he_new_def)
  have "mset (opened s) = mset (closed s) + kept s" using inv(1) assms(2) by (auto simp: sock_inv_def past_def)
  then show ?thesis using inv(2) assms(2) const by (simp add: kept_def future_inv_def)
qed

text \<open>
  C33: When both lookups have finished before the worker looks at them, and the attempt ends without a connection and
  without having been cancelled, every address of both families was tried exactly once, in the order in which the
  lookup returned them.
\<close>

theorem connect_tries_every_address:
  assumes "he_run before (he_new as6 as4 reconnect cancel) = Some s0" and "point s0 = WaitDns" and "ipv6Complete s0" and "ipv4Complete s0"
    and "he_run acts s0 = Some s" and "point s = Ended" and "he_socket s = None" and "\<not> cancelSeen s"
  shows "tried6 s = as6 \<and> tried4 s = as4"
proof -
  have inv0: "he_inv s0" using he_run_inv [OF assms(1) he_new_inv] .
  have inv: "addr_inv s" using he_run_inv [OF assms(5) inv0] by (simp add: he_inv_def)
  have const: "dns6 s = as6" "dns4 s = as4" using he_run_const [OF assms(1)] he_run_const [OF assms(5)] by (simp_all add: he_new_def)
  have "prompt s" using prompt_run [OF assms(5) inv0] assms(2-4) by (simp add: prompt_def)
  then have "got6 s" "got4 s" using assms(6) by (simp_all add: prompt_def)
  moreover have "\<not> trying s" "results6 s = []" "results4 s = []" using inv assms(6-8) by (auto simp: addr_inv_def)
  ultimately show ?thesis using inv const by (simp add: addr_inv_def rest6_def rest4_def)
qed

text \<open>A worker action without socket results, and an attempt in which three addresses fail in different ways.\<close>

abbreviation "go \<equiv> Work NoSocket 0 []"

definition failing_run :: "he_action list" where
  "failing_run = [go, go, go, go, go, go, go, Work (Refused 7) 0 [], go, go, go, go, Work (InProgress 7) 0 [], Work NoSocket 1 [(7, Some 111)],
     go, go, go, go, Work (InProgress 8) 0 [], go, go, go, go, go, go, Work NoSocket 1 [(8, None)], go, go, go, go]"

lemma failing_run_eval:
  "\<exists>s0 s. he_run [Publish6, Complete6, Publish4, Complete4] (he_new [1, 2] [3 :: nat] False False) = Some s0 \<and>
     point s0 = WaitDns \<and> ipv6Complete s0 \<and> ipv4Complete s0 \<and> he_run failing_run s0 = Some s \<and>
     point s = Ended \<and> he_socket s = None \<and> \<not> cancelSeen s \<and> opened s = [7, 7, 8]"
proof -
  let ?s0 = "(he_new [1, 2] [3 :: nat] False False)\<lparr>ready6 := True, ready4 := True, ipv6Complete := True, ipv4Complete := True\<rparr>"
  have 0: "he_run [Publish6, Complete6, Publish4, Complete4] (he_new [1, 2] [3 :: nat] False False) = Some ?s0"
    by (simp add: possible_def he_act_def he_new_def)
  have "map_option (\<lambda>s. (point s, he_socket s, cancelSeen s, opened s)) (he_run failing_run ?s0) = Some (Ended, None, False, [7, 7, 8])" by code_simp
  then obtain s where "he_run failing_run ?s0 = Some s" "point s = Ended" "he_socket s = None" "\<not> cancelSeen s" "opened s = [7, 7, 8]" by auto
  moreover have "point ?s0 = WaitDns" "ipv6Complete ?s0" "ipv4Complete ?s0" by (simp_all add: he_new_def)
  ultimately show ?thesis using 0 by blast
qed

lemma he_run_append: "he_run as s = Some s1 \<Longrightarrow> he_run bs s1 = Some s2 \<Longrightarrow> he_run (as @ bs) s = Some s2"
  by (simp add: he_run_lrun lrun_append)

theorem connect_closes_sockets_witness:
  "\<exists>acts s. he_run acts (he_new [1, 2] [3 :: nat] False False) = Some s \<and> point s = Ended \<and> mset (closed s) = {#7, 7, 8#} \<and> freed s = [[1, 2], [3]]"
proof -
  obtain s0 s where "he_run [Publish6, Complete6, Publish4, Complete4] (he_new [1, 2] [3 :: nat] False False) = Some s0"
    "he_run failing_run s0 = Some s" and s: "point s = Ended" "he_socket s = None" "opened s = [7, 7, 8]" using failing_run_eval by blast
  then have run: "he_run ([Publish6, Complete6, Publish4, Complete4] @ failing_run) (he_new [1, 2] [3 :: nat] False False) = Some s" by (intro he_run_append)
  have "mset (closed s) = {#7, 7, 8#} \<and> freed s = [[1, 2], [3]]" using s connect_closes_sockets [OF run s(1)] by simp
  then show ?thesis using run s(1) by blast
qed

theorem connect_tries_every_address_witness:
  "\<exists>s0 s. he_run failing_run s0 = Some s \<and> point s = Ended \<and> tried6 s = [1, 2] \<and> tried4 s = [3 :: nat]"
proof -
  obtain s0 s where run: "he_run [Publish6, Complete6, Publish4, Complete4] (he_new [1, 2] [3 :: nat] False False) = Some s0"
    "point s0 = WaitDns" "ipv6Complete s0" "ipv4Complete s0" "he_run failing_run s0 = Some s" "point s = Ended" "he_socket s = None" "\<not> cancelSeen s"
    using failing_run_eval by blast
  show ?thesis using run(5,6) connect_tries_every_address [OF run] by blast
qed

lemmas he_eval = possible_def he_act_def work_def he_defs checkPending_def checkConnections_def closeAll_def he_new_def

text \<open>
  An address that is found late can be missed: a host that has only IPv6 addresses is given up, without trying any
  of them, when the IPv4 lookup comes back empty and the IPv6 lookup takes more than the 50 ms that the
  worker waits for it.
\<close>

theorem connect_misses_late_addresses:
  "\<exists>acts s. he_run acts (he_new as6 [] True False) = Some s \<and> point s = Ended \<and> \<not> cancelSeen s \<and> dns6 s = as6 \<and>
     tried6 s = [] \<and> opened s = [] \<and> timerStarted s"
proof -
  let ?acts = "[Publish4, Complete4, go, go, go, go, go, go, go, go, go, go, go, Publish6, Complete6, go]"
  show ?thesis by (rule exI [of _ ?acts]) (simp add: he_eval)
qed

text \<open>
  The same can happen at the end of the list: a lookup that finishes after the worker has found its future not ready
  and before the worker tests the flags is forgotten, and its addresses are not tried.
\<close>

theorem connect_misses_racing_addresses:
  "\<exists>acts s. he_run acts (he_new as6 [a] True False) = Some s \<and> point s = Ended \<and> \<not> cancelSeen s \<and> he_socket s = None \<and>
     tried4 s = [a] \<and> tried6 s = []"
proof -
  let ?acts = "[Publish4, Complete4, go, go, go, go, go, go, go, go, go, go, go, Publish6, Complete6, go, go, go, go, go, go]"
  show ?thesis by (rule exI [of _ ?acts]) (simp add: he_eval)
qed

text \<open>A cancelled attempt starts the reconnect timer all the same, so a disconnect does not prevent the next attempt.\<close>

theorem cancelled_connect_reconnects:
  "\<exists>acts s. he_run acts (he_new as6 as4 True False) = Some s \<and> point s = Ended \<and> cancelSeen s \<and> timerStarted s"
proof -
  let ?acts = "[SetCancel True, go, go, go, go, go, go, go, go, go, go, go, Publish4, Complete4, Publish6, Complete6, go]"
  show ?thesis by (rule exI [of _ ?acts]) (simp add: he_eval)
qed

end
