(* ===== verification/Log_Format.thy ===== *)
theory Log_Format
  imports FDV_Prelude "HOL-Library.Word"
begin

text \<open>
  The asynchronous logger (\<^verbatim>\<open>ulog_async.cpp\<close>) does not format a message on the thread that logs it: it walks the
  format, copies the arguments into a record of at most 384 bytes (\<open>serializeArgs\<close>), and another thread walks the same
  format again and formats the copies (\<open>renderMessage\<close>). This theory models both walks, the parser of conversion
  specifications they share and the two byte cursors. The C library's formatting of a single conversion is the
  parameter \<open>printf_api\<close>. A C string is the list of its characters before the terminator. The data model is LP64.
  Shown: for formats that the logger supports the deferred message is the one \<open>printf\<close> would have produced at once; for
  all other formats and arguments the buffers are respected.
\<close>

definition kArgBufLen :: nat where "kArgBufLen = 384"

definition kStrMax :: nat where "kStrMax = 160"

definition kRenderLen :: nat where "kRenderLen = 512"

definition kSpecPrefixMax :: nat where "kSpecPrefixMax = 24"

subsection \<open>Conversion specifications\<close>

datatype ArgKind = AK_NONE | AK_S64 | AK_U64 | AK_DBL | AK_CHR | AK_STR | AK_PTR | AK_UNSUPPORTED

datatype LenMod = LM_NONE | LM_h | LM_hh | LM_l | LM_ll | LM_j | LM_z | LM_t | LM_L

record Spec =
  kind :: ArgKind
  lenmod :: LenMod
  conv :: char
  totalLen :: nat
  prefix :: string

definition isFlag :: "char \<Rightarrow> bool" where
  "isFlag c = (c \<in> set ''-+ #0'')"

definition isDigit :: "char \<Rightarrow> bool" where
  "isDigit c = (c \<in> set ''0123456789'')"

text \<open>A pointer into the format is the rest of the format from there on; \<open>peekc\<close> is the character it points at.\<close>

fun peekc :: "string \<Rightarrow> char" where
  "peekc [] = CHR 0x00"
| "peekc (c # p) = c"

definition unsupportedSpecLen :: "string \<Rightarrow> string \<Rightarrow> nat" where
  "unsupportedSpecLen start p = length start - length (tl (dropWhile (\<lambda>c. c \<in> set ''0123456789.*$-+ #hljztL'') p))"

text \<open>The length modifier at \<open>p\<close> and what follows it.\<close>

definition parseLenMod :: "string \<Rightarrow> LenMod \<times> string" where
  "parseLenMod p =
     (if peekc p = CHR ''h'' then (if peekc (tl p) = CHR ''h'' then (LM_hh, tl (tl p)) else (LM_h, tl p))
      else if peekc p = CHR ''l'' then (if peekc (tl p) = CHR ''l'' then (LM_ll, tl (tl p)) else (LM_l, tl p))
      else if peekc p = CHR ''j'' then (LM_j, tl p)
      else if peekc p = CHR ''z'' then (LM_z, tl p)
      else if peekc p = CHR ''t'' then (LM_t, tl p)
      else if peekc p = CHR ''L'' then (LM_L, tl p)
      else (LM_NONE, p))"

definition convKind :: "char \<Rightarrow> LenMod \<Rightarrow> ArgKind" where
  "convKind c lm =
     (if c \<in> set ''di'' then AK_S64
      else if c \<in> set ''uoxX'' then AK_U64
      else if c \<in> set ''fFeEgGaA'' then AK_DBL
      else if c = CHR ''c'' then (if lm = LM_l then AK_UNSUPPORTED else AK_CHR)
      else if c = CHR ''s'' then (if lm = LM_l then AK_UNSUPPORTED else AK_STR)
      else if c = CHR ''p'' then AK_PTR
      else AK_UNSUPPORTED)"

definition unsupported :: "nat \<Rightarrow> Spec" where
  "unsupported n = \<lparr>kind = AK_UNSUPPORTED, lenmod = LM_NONE, conv = CHR 0x00, totalLen = n, prefix = []\<rparr>"

text \<open>The part behind flags, width and precision: \<open>p\<close> points at the length modifier, \<open>pre\<close> is the run before it.\<close>

definition parseTail :: "string \<Rightarrow> string \<Rightarrow> string \<Rightarrow> Spec" where
  "parseTail start pre p0 =
     (let (lm, p) = parseLenMod p0; pre' = take kSpecPrefixMax pre in
      if p = [] then \<lparr>kind = AK_UNSUPPORTED, lenmod = lm, conv = CHR 0x00, totalLen = length start, prefix = pre'\<rparr>
      else \<lparr>kind = convKind (hd p) lm, lenmod = lm, conv = hd p, totalLen = length start - length p + 1, prefix = pre'\<rparr>)"

definition parseSpec :: "string \<Rightarrow> Spec" where
  "parseSpec start =
     (let prefixStart = tl start in
      if peekc prefixStart = CHR ''%'' then \<lparr>kind = AK_NONE, lenmod = LM_NONE, conv = CHR 0x00, totalLen = 2, prefix = []\<rparr>
      else
        let p1 = dropWhile isFlag prefixStart in
        if peekc p1 = CHR ''*'' then unsupported (unsupportedSpecLen start p1)
        else
          let p2 = dropWhile isDigit p1 in
          if peekc p2 = CHR ''$'' then unsupported (unsupportedSpecLen start p2)
          else if peekc p2 = CHR ''.'' then
            if peekc (tl p2) = CHR ''*'' then unsupported (unsupportedSpecLen start (tl p2))
            else let p3 = dropWhile isDigit (tl p2) in parseTail start (take (length prefixStart - length p3) prefixStart) p3
          else parseTail start (take (length prefixStart - length p2) prefixStart) p2)"

subsection \<open>Bytes\<close>

text \<open>Copying an object of \<open>n\<close> bytes into the record and back (little-endian).\<close>

primrec le_bytes :: "nat \<Rightarrow> 'a::len word \<Rightarrow> 8 word list" where
  "le_bytes 0 w = []"
| "le_bytes (Suc n) w = ucast w # le_bytes n (drop_bit 8 w)"

primrec le_word :: "8 word list \<Rightarrow> 'a::len word" where
  "le_word [] = 0"
| "le_word (b # bs) = ucast b OR push_bit 8 (le_word bs)"

definition char_bytes :: "string \<Rightarrow> 8 word list" where
  "char_bytes = map (\<lambda>c. of_nat (of_char c))"

definition byte_chars :: "8 word list \<Rightarrow> string" where
  "byte_chars = map (\<lambda>b. char_of (unat b))"

subsection \<open>The producer\<close>

text \<open>
  The arguments of a call, as \<open>va_arg\<close> finds them: 32-bit and 64-bit integers, doubles (their bit patterns), long
  doubles, pointers and strings. Reading an argument with another type is undefined and has the value \<open>None\<close>.
\<close>

datatype 'ld varg = VInt "32 word" | VLong "64 word" | VDouble "64 word" | VLongDouble 'ld | VPtr "64 word" | VStr "string option"

text \<open>The conversion of long double to double.\<close>

type_synonym 'ld narrow = "'ld \<Rightarrow> 64 word"

definition isLong :: "LenMod \<Rightarrow> bool" where
  "isLong lm = (lm \<in> {LM_l, LM_ll, LM_j, LM_z, LM_t})"

fun argS64 :: "LenMod \<Rightarrow> 'ld varg \<Rightarrow> 64 word option" where
  "argS64 lm (VLong v) = (if isLong lm then Some v else None)"
| "argS64 lm (VInt v) =
     (if isLong lm then None
      else if lm = LM_hh then Some (scast (ucast v :: 8 word))
      else if lm = LM_h then Some (scast (ucast v :: 16 word)) else Some (scast v))"
| "argS64 lm _ = None"

fun argU64 :: "LenMod \<Rightarrow> 'ld varg \<Rightarrow> 64 word option" where
  "argU64 lm (VLong v) = (if isLong lm then Some v else None)"
| "argU64 lm (VInt v) =
     (if isLong lm then None
      else if lm = LM_hh then Some (ucast (ucast v :: 8 word))
      else if lm = LM_h then Some (ucast (ucast v :: 16 word)) else Some (ucast v))"
| "argU64 lm _ = None"

fun argDbl :: "'ld narrow \<Rightarrow> LenMod \<Rightarrow> 'ld varg \<Rightarrow> 64 word option" where
  "argDbl ld lm (VDouble v) = (if lm = LM_L then None else Some v)"
| "argDbl ld lm (VLongDouble v) = (if lm = LM_L then Some (ld v) else None)"
| "argDbl ld lm _ = None"

text \<open>\<open>BlobWriter::put\<close> on the bytes written so far; the flag says whether it succeeded.\<close>

definition blobPut :: "8 word list \<Rightarrow> 8 word list \<Rightarrow> bool \<times> 8 word list" where
  "blobPut w bs = (if length w + length bs > kArgBufLen then (False, w) else (True, w @ bs))"

definition putStr :: "8 word list \<Rightarrow> string option \<Rightarrow> bool \<times> 8 word list \<times> bool" where
  "putStr w arg = (case arg of
       None \<Rightarrow> (let (ok, w') = blobPut w (le_bytes 2 (0xFFFF :: 16 word)) in (ok, w', False))
     | Some str \<Rightarrow>
         let sl = min kStrMax (length str);
             (ok1, w1) = blobPut w (le_bytes 2 (of_nat sl :: 16 word));
             (ok, w') = (if ok1 then blobPut w1 (char_bytes (take sl str)) else (False, w1))
         in (ok, w', length str > kStrMax))"

text \<open>One argument: whether it was stored, the bytes, and whether a string was cut.\<close>

definition putArg :: "'ld narrow \<Rightarrow> Spec \<Rightarrow> 8 word list \<Rightarrow> 'ld varg \<Rightarrow> (bool \<times> 8 word list \<times> bool) option" where
  "putArg ld s w arg =
     (let put = (\<lambda>bs. let (ok, w') = blobPut w bs in (ok, w', False)) in
      case kind s of
        AK_S64 \<Rightarrow> map_option (\<lambda>v. put (le_bytes 8 v)) (argS64 (lenmod s) arg)
      | AK_U64 \<Rightarrow> map_option (\<lambda>v. put (le_bytes 8 v)) (argU64 (lenmod s) arg)
      | AK_DBL \<Rightarrow> map_option (\<lambda>v. put (le_bytes 8 v)) (argDbl ld (lenmod s) arg)
      | AK_CHR \<Rightarrow> (case arg of VInt v \<Rightarrow> Some (put (le_bytes 4 v)) | _ \<Rightarrow> None)
      | AK_PTR \<Rightarrow> (case arg of VPtr v \<Rightarrow> Some (put (le_bytes 8 v)) | _ \<Rightarrow> None)
      | AK_STR \<Rightarrow> (case arg of VStr v \<Rightarrow> Some (putStr w v) | _ \<Rightarrow> None)
      | _ \<Rightarrow> Some (False, w, False))"

lemma parseTail_len: "start \<noteq> [] \<Longrightarrow> 0 < totalLen (parseTail start pre p)"
  by (simp add: parseTail_def Let_def split: prod.split)

lemma unsupportedSpecLen_pos: "length p < length start \<Longrightarrow> 0 < unsupportedSpecLen start p"
  using length_dropWhile_le [of "\<lambda>c. c \<in> set ''0123456789.*$-+ #hljztL''" p] by (simp add: unsupportedSpecLen_def del: list.set)

text \<open>Every specification has at least one character, so both walks make progress.\<close>

lemma parseSpec_len:
  assumes "start \<noteq> []"
  shows "0 < totalLen (parseSpec start)"
proof -
  have 1: "length (dropWhile isFlag (tl start)) < length start"
    using length_dropWhile_le [of isFlag "tl start"] assms by (cases start) auto
  then have 2: "length (dropWhile isDigit (dropWhile isFlag (tl start))) < length start"
    using length_dropWhile_le [of isDigit "dropWhile isFlag (tl start)"] by linarith
  then have 3: "length (tl (dropWhile isDigit (dropWhile isFlag (tl start)))) < length start" by simp
  show ?thesis using unsupportedSpecLen_pos [OF 1] unsupportedSpecLen_pos [OF 2] unsupportedSpecLen_pos [OF 3] assms
    by (simp add: parseSpec_def Let_def unsupported_def parseTail_len)
qed

lemma drop_parseSpec: "length (drop (totalLen (parseSpec (c # p))) (c # p)) < length (c # p)"
  using parseSpec_len [of "c # p"] by simp

text \<open>\<open>serializeArgs\<close>: the bytes and whether the record is marked as truncated.\<close>

function serializeArgs :: "'ld narrow \<Rightarrow> string \<Rightarrow> 'ld varg list \<Rightarrow> 8 word list \<Rightarrow> bool \<Rightarrow> (8 word list \<times> bool) option" where
  "serializeArgs ld [] ap w truncated = Some (w, truncated)"
| "serializeArgs ld (c # p) ap w truncated =
     (if c \<noteq> CHR ''%'' then serializeArgs ld p ap w truncated
      else
        let s = parseSpec (c # p); p' = drop (totalLen s) (c # p) in
        if kind s = AK_NONE then serializeArgs ld p' ap w truncated
        else if kind s = AK_UNSUPPORTED then Some (w, True)
        else case ap of
          [] \<Rightarrow> None
        | arg # ap' \<Rightarrow> (case putArg ld s w arg of
            None \<Rightarrow> None
          | Some (ok, w', isCut) \<Rightarrow> if ok then serializeArgs ld p' ap' w' (truncated \<or> isCut) else Some (w', True)))"
  by pat_completeness auto
termination
  by (relation "measure (\<lambda>(ld, p, ap, w, tr). length p)") (use drop_parseSpec in \<open>auto simp: Let_def\<close>)

subsection \<open>The consumer\<close>

text \<open>The C library's formatting of one conversion with a prefix (flags, width, precision).\<close>

record printf_api =
  fmt_signed :: "string \<Rightarrow> char \<Rightarrow> int \<Rightarrow> string"
  fmt_unsigned :: "string \<Rightarrow> char \<Rightarrow> int \<Rightarrow> string"
  fmt_double :: "string \<Rightarrow> char \<Rightarrow> 64 word \<Rightarrow> string"
  fmt_char :: "string \<Rightarrow> 32 word \<Rightarrow> string"
  fmt_pointer :: "string \<Rightarrow> 64 word \<Rightarrow> string"
  fmt_string :: "string \<Rightarrow> string \<Rightarrow> string"

text \<open>\<open>BlobReader::get\<close> and \<open>peek\<close>: the next \<open>n\<close> bytes and the rest, unless fewer are left.\<close>

definition blobGet :: "nat \<Rightarrow> 8 word list \<Rightarrow> (8 word list \<times> 8 word list) option" where
  "blobGet n r = (if n > length r then None else Some (take n r, drop n r))"

definition getStr :: "8 word list \<Rightarrow> (string \<times> 8 word list) option" where
  "getStr r = (case blobGet 2 r of
       None \<Rightarrow> None
     | Some (bs, r1) \<Rightarrow>
         let sl = (le_word bs :: 16 word) in
         if sl = 0xFFFF then Some (''(null)'', r1)
         else (case blobGet (unat sl) r1 of None \<Rightarrow> None | Some (str, r2) \<Rightarrow> Some (byte_chars str, r2)))"

text \<open>The text of one argument and the bytes behind it; \<open>None\<close> when the record has no more bytes.\<close>

definition renderArg :: "printf_api \<Rightarrow> Spec \<Rightarrow> 8 word list \<Rightarrow> (string \<times> 8 word list) option" where
  "renderArg api s r = (case kind s of
       AK_S64 \<Rightarrow> map_option (\<lambda>(bs, r'). (fmt_signed api (prefix s) (conv s) (sint (le_word bs :: 64 word)), r')) (blobGet 8 r)
     | AK_U64 \<Rightarrow> map_option (\<lambda>(bs, r'). (fmt_unsigned api (prefix s) (conv s) (uint (le_word bs :: 64 word)), r')) (blobGet 8 r)
     | AK_DBL \<Rightarrow> map_option (\<lambda>(bs, r'). (fmt_double api (prefix s) (conv s) (le_word bs), r')) (blobGet 8 r)
     | AK_CHR \<Rightarrow> map_option (\<lambda>(bs, r'). (fmt_char api (prefix s) (le_word bs), r')) (blobGet 4 r)
     | AK_PTR \<Rightarrow> map_option (\<lambda>(bs, r'). (fmt_pointer api (prefix s) (le_word bs), r')) (blobGet 8 r)
     | AK_STR \<Rightarrow> map_option (\<lambda>(str, r'). (fmt_string api (prefix s) str, r')) (getStr r)
     | _ \<Rightarrow> Some ([], r))"

text \<open>
  The output buffer: the C string in it and the count \<open>used\<close>, which stays behind when a marker did not fit.
  \<open>snprintf\<close> writes behind the first \<open>used\<close> characters, as much as there is room for.
\<close>

definition appendLiteral :: "nat \<Rightarrow> char \<Rightarrow> string \<times> nat \<Rightarrow> string \<times> nat" where
  "appendLiteral cap ch = (\<lambda>(out, used). if used + 1 < cap then (take used out @ [ch], used + 1) else (out, used))"

definition snprintfAt :: "nat \<Rightarrow> string \<Rightarrow> string \<times> nat \<Rightarrow> string" where
  "snprintfAt cap str = (\<lambda>(out, used). if cap - used = 0 then out else take used out @ take (cap - used - 1) str)"

definition appendMarker :: "nat \<Rightarrow> string \<Rightarrow> string \<times> nat \<Rightarrow> string \<times> nat" where
  "appendMarker cap str ou = (snprintfAt cap str ou, if length str > 0 \<and> snd ou + length str < cap then snd ou + length str else snd ou)"

definition appendText :: "nat \<Rightarrow> string \<Rightarrow> string \<times> nat \<Rightarrow> string \<times> nat" where
  "appendText cap str ou =
     (snprintfAt cap str ou,
      if length str > 0 \<and> snd ou + length str < cap then snd ou + length str else if length str > 0 then cap - 1 else snd ou)"

function renderLoop :: "printf_api \<Rightarrow> nat \<Rightarrow> string \<Rightarrow> 8 word list \<Rightarrow> bool \<Rightarrow> string \<times> nat \<Rightarrow> string \<times> nat" where
  "renderLoop api cap [] r argsExhausted ou = ou"
| "renderLoop api cap (c # p) r argsExhausted ou =
     (if c \<noteq> CHR ''%'' then renderLoop api cap p r argsExhausted (appendLiteral cap c ou)
      else
        let s = parseSpec (c # p); p' = drop (totalLen s) (c # p) in
        if kind s = AK_NONE then renderLoop api cap p' r argsExhausted (appendLiteral cap CHR ''%'' ou)
        else if kind s = AK_UNSUPPORTED \<or> argsExhausted then renderLoop api cap p' r True (appendMarker cap ''<?>'' ou)
        else case renderArg api s r of
          None \<Rightarrow> renderLoop api cap p' r True (appendText cap ''<?>'' ou)
        | Some (str, r') \<Rightarrow> renderLoop api cap p' r' argsExhausted (appendText cap str ou))"
  by pat_completeness auto
termination
  by (relation "measure (\<lambda>(api, cap, p, r, ex, ou). length p)") (use drop_parseSpec in \<open>auto simp: Let_def\<close>)

definition renderMessage :: "printf_api \<Rightarrow> nat \<Rightarrow> string \<Rightarrow> 8 word list \<Rightarrow> bool \<Rightarrow> string" where
  "renderMessage api cap fmt args truncated =
     (let ou = renderLoop api cap fmt args False ([], 0) in
      if truncated then fst (appendMarker cap '' [ulog_async: truncated]'' ou) else fst ou)"

text \<open>A message from the call to the text that \<open>emitRecord\<close> hands on.\<close>

definition logMessage :: "printf_api \<Rightarrow> 'ld narrow \<Rightarrow> string \<Rightarrow> 'ld varg list \<Rightarrow> string option" where
  "logMessage api ld fmt ap = map_option (\<lambda>(args, truncated). renderMessage api kRenderLen fmt args truncated) (serializeArgs ld fmt ap [] False)"

subsection \<open>What printf does\<close>

text \<open>
  A format as a list of items: a literal character, \<open>%%\<close>, or a conversion with flags, width, precision, length modifier
  and conversion character.
\<close>

datatype item = Lit char | Percent | Conv string string "string option" LenMod char

fun lmString :: "LenMod \<Rightarrow> string" where
  "lmString LM_NONE = []"
| "lmString LM_h = ''h''"
| "lmString LM_hh = ''hh''"
| "lmString LM_l = ''l''"
| "lmString LM_ll = ''ll''"
| "lmString LM_j = ''j''"
| "lmString LM_z = ''z''"
| "lmString LM_t = ''t''"
| "lmString LM_L = ''L''"

definition prefixOf :: "string \<Rightarrow> string \<Rightarrow> string option \<Rightarrow> string" where
  "prefixOf fl wd pr = fl @ wd @ (case pr of None \<Rightarrow> [] | Some ds \<Rightarrow> CHR ''.'' # ds)"

fun itemString :: "item \<Rightarrow> string" where
  "itemString (Lit c) = [c]"
| "itemString Percent = ''%%''"
| "itemString (Conv fl wd pr lm c) = CHR ''%'' # prefixOf fl wd pr @ lmString lm @ [c]"

definition format :: "item list \<Rightarrow> string" where
  "format items = concat (map itemString items)"

text \<open>The conversions that the logger supports: all but \<open>n\<close>, wide characters, and long double, whose precision it reduces.\<close>

fun item_ok :: "item \<Rightarrow> bool" where
  "item_ok (Lit c) = (c \<noteq> CHR ''%'')"
| "item_ok Percent = True"
| "item_ok (Conv fl wd pr lm c) =
     (list_all isFlag fl \<and> list_all isDigit wd \<and> (wd \<noteq> [] \<longrightarrow> hd wd \<noteq> CHR ''0'') \<and> (case pr of None \<Rightarrow> True | Some ds \<Rightarrow> list_all isDigit ds) \<and>
      length (prefixOf fl wd pr) \<le> kSpecPrefixMax \<and> lm \<noteq> LM_L \<and> c \<in> set ''diuoxXfFeEgGaAcsp'' \<and> (lm = LM_l \<longrightarrow> c \<noteq> CHR ''c'' \<and> c \<noteq> CHR ''s''))"

text \<open>
  The text of a conversion in C: an integer argument is converted to the type of the length modifier and its value is
  formatted. A null string prints as \<open>(null)\<close>.
\<close>

fun convText :: "printf_api \<Rightarrow> string \<Rightarrow> LenMod \<Rightarrow> char \<Rightarrow> 'ld varg \<Rightarrow> string option" where
  "convText api pre lm c (VInt v) =
     (if c = CHR ''c'' then Some (fmt_char api pre v)
      else if isLong lm then None
      else if c \<in> set ''di'' then
        Some (fmt_signed api pre c (if lm = LM_hh then sint (ucast v :: 8 word) else if lm = LM_h then sint (ucast v :: 16 word) else sint v))
      else if c \<in> set ''uoxX'' then
        Some (fmt_unsigned api pre c (if lm = LM_hh then uint (ucast v :: 8 word) else if lm = LM_h then uint (ucast v :: 16 word) else uint v))
      else None)"
| "convText api pre lm c (VLong v) =
     (if \<not> isLong lm then None
      else if c \<in> set ''di'' then Some (fmt_signed api pre c (sint v))
      else if c \<in> set ''uoxX'' then Some (fmt_unsigned api pre c (uint v)) else None)"
| "convText api pre lm c (VDouble v) = (if c \<in> set ''fFeEgGaA'' then Some (fmt_double api pre c v) else None)"
| "convText api pre lm c (VPtr v) = (if c = CHR ''p'' then Some (fmt_pointer api pre v) else None)"
| "convText api pre lm c (VStr v) = (if c = CHR ''s'' then Some (fmt_string api pre (case v of None \<Rightarrow> ''(null)'' | Some str \<Rightarrow> str)) else None)"
| "convText api pre lm c (VLongDouble v) = None"

fun printf :: "printf_api \<Rightarrow> item list \<Rightarrow> 'ld varg list \<Rightarrow> string option" where
  "printf api [] ap = Some []"
| "printf api (Lit c # items) ap = map_option (Cons c) (printf api items ap)"
| "printf api (Percent # items) ap = map_option (Cons CHR ''%'') (printf api items ap)"
| "printf api (Conv fl wd pr lm c # items) [] = None"
| "printf api (Conv fl wd pr lm c # items) (arg # ap) =
     (case convText api (prefixOf fl wd pr) lm c arg of None \<Rightarrow> None | Some str \<Rightarrow> map_option (append str) (printf api items ap))"

text \<open>The bytes an argument needs in a record, and whether it is a string that is not cut.\<close>

fun argSize :: "char \<Rightarrow> 'ld varg \<Rightarrow> nat" where
  "argSize c (VStr v) = 2 + (case v of None \<Rightarrow> 0 | Some str \<Rightarrow> length str)"
| "argSize c arg = (if c = CHR ''c'' then 4 else 8)"

fun shortArg :: "'ld varg \<Rightarrow> bool" where
  "shortArg (VStr (Some str)) = (length str \<le> kStrMax)"
| "shortArg arg = True"

fun itemsSize :: "item list \<Rightarrow> 'ld varg list \<Rightarrow> nat" where
  "itemsSize (Conv fl wd pr lm c # items) (arg # ap) = argSize c arg + itemsSize items ap"
| "itemsSize (item # items) ap = itemsSize items ap"
| "itemsSize [] ap = 0"

subsection \<open>Bytes and back\<close>

lemma length_le_bytes [simp]: "length (le_bytes n w) = n"
  by (induction n arbitrary: w) simp_all

lemma le_word_bytes: "le_word (le_bytes n w) = take_bit (8 * n) w"
proof (induction n arbitrary: w)
  case (Suc n)
  show ?case unfolding le_bytes.simps le_word.simps Suc.IH
    by (rule bit_eqI) (auto simp: bit_simps)
qed simp

lemma le_word_full: "LENGTH('a) \<le> 8 * n \<Longrightarrow> le_word (le_bytes n w) = (w :: 'a::len word)"
  by (simp add: le_word_bytes take_bit_word_eq_self)

lemma byte_chars_char_bytes [simp]: "byte_chars (char_bytes str) = str"
proof -
  have "char_of (unat (of_nat (of_char c) :: 8 word)) = c" for c
    by (simp add: unat_of_nat)
  then show ?thesis by (simp add: byte_chars_def char_bytes_def comp_def)
qed

lemma length_char_bytes [simp]: "length (char_bytes str) = length str"
  by (simp add: char_bytes_def)

subsection \<open>Parsing a conversion\<close>

lemma dropWhile_run: "list_all P xs \<Longrightarrow> ys = [] \<or> \<not> P (hd ys) \<Longrightarrow> dropWhile P (xs @ ys) = ys"
  by (induction xs) (auto intro: dropWhile_eq_self_iff [THEN iffD2])

lemma peekc_append: "xs \<noteq> [] \<Longrightarrow> peekc (xs @ ys) = hd xs"
  by (cases xs) simp_all

lemma parseLenMod_item:
  "c \<in> set ''diuoxXfFeEgGaAcsp'' \<Longrightarrow> parseLenMod (lmString lm @ c # rest) = (lm, c # rest)"
  by (cases lm) (auto simp: parseLenMod_def)

text \<open>What stands behind flags, width and precision begins with a letter.\<close>

lemma tail_head:
  assumes "c \<in> set ''diuoxXfFeEgGaAcsp''"
  shows "hd (lmString lm @ c # rest) \<in> set ''hljztLdiuoxXfFeEgGaAcsp''"
  using assms by (cases lm) auto

lemma letters:
  assumes "x \<in> set ''hljztLdiuoxXfFeEgGaAcsp''"
  shows "\<not> isFlag x" "\<not> isDigit x" "x \<noteq> CHR ''*''" "x \<noteq> CHR ''$''" "x \<noteq> CHR ''.''" "x \<noteq> CHR ''%''"
  using assms by (auto simp: isFlag_def isDigit_def)

lemma flag_digit:
  "isDigit x \<Longrightarrow> x \<noteq> CHR ''0'' \<Longrightarrow> \<not> isFlag x" "isDigit x \<Longrightarrow> x \<noteq> CHR ''*'' \<and> x \<noteq> CHR ''.'' \<and> x \<noteq> CHR ''$'' \<and> x \<noteq> CHR ''%''"
  "isFlag x \<Longrightarrow> x \<noteq> CHR ''%''" "\<not> isFlag CHR ''.''" "\<not> isDigit CHR ''.''"
  by (auto simp: isFlag_def isDigit_def)

lemma parseTail_item:
  assumes "c \<in> set ''diuoxXfFeEgGaAcsp''" and "length pre \<le> kSpecPrefixMax"
    and "start = CHR ''%'' # pre @ lmString lm @ c # rest"
  shows "parseTail start pre (lmString lm @ c # rest) =
    \<lparr>kind = convKind c lm, lenmod = lm, conv = c, totalLen = length pre + length (lmString lm) + 2, prefix = pre\<rparr>"
  using assms by (simp add: parseTail_def parseLenMod_item)

lemma parseSpec_item:
  assumes "item_ok (Conv fl wd pr lm c)"
  shows "parseSpec (itemString (Conv fl wd pr lm c) @ rest) =
    \<lparr>kind = convKind c lm, lenmod = lm, conv = c, totalLen = length (itemString (Conv fl wd pr lm c)), prefix = prefixOf fl wd pr\<rparr>"
proof -
  let ?t = "lmString lm @ c # rest"
  let ?pr = "case pr of None \<Rightarrow> [] | Some ds \<Rightarrow> CHR ''.'' # ds"
  let ?start = "CHR ''%'' # prefixOf fl wd pr @ ?t"
  have ok: "list_all isFlag fl" "list_all isDigit wd" "wd \<noteq> [] \<longrightarrow> hd wd \<noteq> CHR ''0''" "length (prefixOf fl wd pr) \<le> kSpecPrefixMax"
    "c \<in> set ''diuoxXfFeEgGaAcsp''" "pr \<noteq> None \<longrightarrow> list_all isDigit (the pr)" using assms by (auto split: option.splits)
  obtain x t where t: "?t = x # t" by (cases ?t) simp_all
  have x: "x \<in> set ''hljztLdiuoxXfFeEgGaAcsp''" using tail_head [OF ok(5), of lm rest] t by simp
  note letters = letters [OF x]
  have after_flags: "dropWhile isFlag (prefixOf fl wd pr @ ?t) = wd @ ?pr @ ?t"
  proof -
    have "\<not> isFlag (hd (wd @ ?pr @ ?t))"
      using ok(2,3) letters t flag_digit by (cases wd; cases pr) auto
    then show ?thesis using dropWhile_run [OF ok(1), of "wd @ ?pr @ ?t"] by (simp add: prefixOf_def)
  qed
  have after_width: "dropWhile isDigit (wd @ ?pr @ ?t) = ?pr @ ?t"
    using dropWhile_run [OF ok(2), of "?pr @ ?t"] letters t flag_digit(5) by (cases pr) auto
  have first: "peekc (prefixOf fl wd pr @ ?t) \<noteq> CHR ''%''"
    using ok(1,2) letters t flag_digit by (cases fl; cases wd; cases pr) (auto simp: prefixOf_def)
  have no_star: "peekc (wd @ ?pr @ ?t) \<noteq> CHR ''*''" using ok(2) letters t flag_digit by (cases wd; cases pr) auto
  show ?thesis
  proof (cases pr)
    case None
    then have pre: "prefixOf fl wd pr = fl @ wd" by (simp add: prefixOf_def)
    have "parseSpec ?start = parseTail ?start (prefixOf fl wd pr) ?t"
      using first no_star after_flags after_width letters t None by (simp add: parseSpec_def Let_def)
    then show ?thesis using parseTail_item [OF ok(5,4), of ?start lm rest] by simp
  next
    case (Some ds)
    have ds: "dropWhile isDigit (ds @ ?t) = ?t" using dropWhile_run [of isDigit ds ?t] ok(6) Some letters t by simp
    have star: "peekc (ds @ ?t) \<noteq> CHR ''*''" using ok(6) Some letters t flag_digit(2) by (cases ds) auto
    have "parseSpec ?start = parseTail ?start (prefixOf fl wd pr) ?t"
      using first no_star after_flags after_width ds star Some by (simp add: parseSpec_def Let_def)
    then show ?thesis using parseTail_item [OF ok(5,4), of ?start lm rest] by simp
  qed
qed

subsection \<open>One argument\<close>

lemma uint_widen: "LENGTH('a) \<le> LENGTH('b) \<Longrightarrow> uint (ucast (v :: 'a::len word) :: 'b::len word) = uint v"
  by (simp add: uint_up_ucast is_up)

lemma blobGet_append [simp]: "length bs = n \<Longrightarrow> blobGet n (bs @ r) = Some (bs, r)"
  by (simp add: blobGet_def)

lemma blobPut_fits [simp]: "length w + length bs \<le> kArgBufLen \<Longrightarrow> blobPut w bs = (True, w @ bs)"
  by (simp add: blobPut_def)

lemma getStr_string:
  assumes "length str \<le> kStrMax"
  shows "getStr (le_bytes 2 (of_nat (length str) :: 16 word) @ char_bytes str @ r) = Some (str, r)"
proof -
  let ?n = "of_nat (length str) :: 16 word"
  have n: "unat ?n = length str" using assms by (simp add: unat_of_nat kStrMax_def)
  then have "?n \<noteq> 0xFFFF" using assms by (auto simp: kStrMax_def)
  then show ?thesis using n by (simp add: getStr_def le_word_full)
qed

lemma getStr_null: "getStr (le_bytes 2 (0xFFFF :: 16 word) @ r) = Some (''(null)'', r)"
  by (simp add: getStr_def le_word_full)

lemma convKind_cases:
  "c \<in> set ''di'' \<Longrightarrow> convKind c lm = AK_S64" "c \<in> set ''uoxX'' \<Longrightarrow> convKind c lm = AK_U64" "c \<in> set ''fFeEgGaA'' \<Longrightarrow> convKind c lm = AK_DBL"
  "lm \<noteq> LM_l \<Longrightarrow> convKind CHR ''c'' lm = AK_CHR" "lm \<noteq> LM_l \<Longrightarrow> convKind CHR ''s'' lm = AK_STR" "convKind CHR ''p'' lm = AK_PTR"
  by (auto simp: convKind_def)

text \<open>
  What the producer stores for an argument is what the consumer needs for its text: there are bytes for it that
  are written behind any others and read before any others.
\<close>

definition stored :: "printf_api \<Rightarrow> 'ld narrow \<Rightarrow> Spec \<Rightarrow> 'ld varg \<Rightarrow> 8 word list \<Rightarrow> string \<Rightarrow> bool" where
  "stored api ld s arg bs str \<longleftrightarrow>
     (\<forall>w. length w + length bs \<le> kArgBufLen \<longrightarrow> putArg ld s w arg = Some (True, w @ bs, False)) \<and> (\<forall>r. renderArg api s (bs @ r) = Some (str, r))"

lemma stored_S64: "kind s = AK_S64 \<Longrightarrow> argS64 (lenmod s) arg = Some v \<Longrightarrow> stored api ld s arg (le_bytes 8 v) (fmt_signed api (prefix s) (conv s) (sint v))"
  by (simp add: stored_def putArg_def renderArg_def le_word_full)

lemma stored_U64: "kind s = AK_U64 \<Longrightarrow> argU64 (lenmod s) arg = Some v \<Longrightarrow> stored api ld s arg (le_bytes 8 v) (fmt_unsigned api (prefix s) (conv s) (uint v))"
  by (simp add: stored_def putArg_def renderArg_def le_word_full)

lemma stored_DBL: "kind s = AK_DBL \<Longrightarrow> lenmod s \<noteq> LM_L \<Longrightarrow> stored api ld s (VDouble v) (le_bytes 8 v) (fmt_double api (prefix s) (conv s) v)"
  by (simp add: stored_def putArg_def renderArg_def le_word_full)

lemma stored_CHR: "kind s = AK_CHR \<Longrightarrow> stored api ld s (VInt v) (le_bytes 4 v) (fmt_char api (prefix s) v)"
  by (simp add: stored_def putArg_def renderArg_def le_word_full)

lemma stored_PTR: "kind s = AK_PTR \<Longrightarrow> stored api ld s (VPtr v) (le_bytes 8 v) (fmt_pointer api (prefix s) v)"
  by (simp add: stored_def putArg_def renderArg_def le_word_full)

lemma stored_STR:
  assumes "kind s = AK_STR" and "shortArg (VStr v :: 'ld varg)"
  shows "\<exists>bs. length bs = argSize c (VStr v :: 'ld varg) \<and> stored api ld s (VStr v) bs (fmt_string api (prefix s) (case v of None \<Rightarrow> ''(null)'' | Some str \<Rightarrow> str))"
proof (cases v)
  case None
  then show ?thesis using assms(1)
    by (intro exI [of _ "le_bytes 2 (0xFFFF :: 16 word)"]) (simp add: stored_def putArg_def putStr_def renderArg_def getStr_null)
next
  case (Some str)
  then show ?thesis using assms
    by (intro exI [of _ "le_bytes 2 (of_nat (length str) :: 16 word) @ char_bytes str"])
      (simp add: stored_def putArg_def putStr_def renderArg_def getStr_string)
qed

lemma argS64_value: "\<not> isLong lm \<Longrightarrow> \<exists>x. argS64 lm (VInt v) = Some x \<and>
    sint x = (if lm = LM_hh then sint (ucast v :: 8 word) else if lm = LM_h then sint (ucast v :: 16 word) else sint v)"
  by (simp add: sint_widen)

lemma argU64_value: "\<not> isLong lm \<Longrightarrow> \<exists>x. argU64 lm (VInt v) = Some x \<and>
    uint x = (if lm = LM_hh then uint (ucast v :: 8 word) else if lm = LM_h then uint (ucast v :: 16 word) else uint v)"
  by (simp add: uint_widen)

lemma arg_stored:
  assumes "item_ok (Conv fl wd pr lm c)" and "convText api (prefixOf fl wd pr) lm c arg = Some str" and "shortArg arg"
    and s: "s = \<lparr>kind = convKind c lm, lenmod = lm, conv = c, totalLen = n, prefix = prefixOf fl wd pr\<rparr>"
  shows "\<exists>bs. length bs = argSize c arg \<and> stored api ld s arg bs str"
proof (cases arg)
  case (VInt v)
  consider "c = CHR ''c''" | "c \<in> set ''di''" "\<not> isLong lm" | "c \<in> set ''uoxX''" "\<not> isLong lm" using assms(2) VInt by (auto split: if_splits)
  then show ?thesis
  proof cases
    case 1
    then show ?thesis using stored_CHR [of s api ld v] assms VInt convKind_cases(4) [of lm] by (intro exI [of _ "le_bytes 4 v"]) auto
  next
    case 2
    obtain x where x: "argS64 lm arg = Some x" "str = fmt_signed api (prefixOf fl wd pr) c (sint x)" "c \<noteq> CHR ''c''"
      using argS64_value [OF 2(2), of v] 2 assms(2) VInt by auto
    then show ?thesis using stored_S64 [of s arg x api ld] convKind_cases(1) [OF 2(1)] s VInt by (intro exI [of _ "le_bytes 8 x"]) simp
  next
    case 3
    obtain x where x: "argU64 lm arg = Some x" "str = fmt_unsigned api (prefixOf fl wd pr) c (uint x)" "c \<noteq> CHR ''c''"
      using argU64_value [OF 3(2), of v] 3 assms(2) VInt by auto
    then show ?thesis using stored_U64 [of s arg x api ld] convKind_cases(2) [OF 3(1)] s VInt by (intro exI [of _ "le_bytes 8 x"]) simp
  qed
next
  case (VLong v)
  consider "c \<in> set ''di''" | "c \<in> set ''uoxX''" using assms(2) VLong by (auto split: if_splits)
  then show ?thesis
  proof cases
    case 1
    then show ?thesis using stored_S64 [of s arg v api ld] convKind_cases(1) [OF 1] s VLong assms(2)
      by (intro exI [of _ "le_bytes 8 v"]) (auto split: if_splits)
  next
    case 2
    then show ?thesis using stored_U64 [of s arg v api ld] convKind_cases(2) [OF 2] s VLong assms(2)
      by (intro exI [of _ "le_bytes 8 v"]) (auto split: if_splits)
  qed
next
  case (VDouble v)
  then have "c \<in> set ''fFeEgGaA''" using assms(2) by (simp split: if_splits)
  then show ?thesis using stored_DBL [of s api ld v] convKind_cases(3) [of c lm] s VDouble assms(1,2)
    by (intro exI [of _ "le_bytes 8 v"]) auto
next
  case (VPtr v)
  then show ?thesis using stored_PTR [of s api ld v] convKind_cases(6) s assms(2)
    by (intro exI [of _ "le_bytes 8 v"]) (auto split: if_splits)
next
  case (VStr v)
  then have "c = CHR ''s''" using assms(2) by (simp split: if_splits)
  then show ?thesis using stored_STR [of s v c api ld] convKind_cases(5) [of lm] s VStr assms(1-3) by auto
qed (use assms(2) in simp)

subsection \<open>The whole format\<close>

lemma convKind_supported: "item_ok (Conv fl wd pr lm c) \<Longrightarrow> convKind c lm \<noteq> AK_NONE \<and> convKind c lm \<noteq> AK_UNSUPPORTED"
  by (auto simp: convKind_def)

text \<open>Both walks step over an item: what they do with it.\<close>

lemma serializeArgs_Conv:
  assumes "item_ok (Conv fl wd pr lm c)" and "stored api ld \<lparr>kind = convKind c lm, lenmod = lm, conv = c, totalLen = length (itemString (Conv fl wd pr lm c)), prefix = prefixOf fl wd pr\<rparr> arg bs str"
    and "length w + length bs \<le> kArgBufLen"
  shows "serializeArgs ld (itemString (Conv fl wd pr lm c) @ rest) (arg # ap) w tr = serializeArgs ld rest ap (w @ bs) tr"
  using parseSpec_item [OF assms(1), of rest] convKind_supported [OF assms(1)] assms(2,3) by (simp add: stored_def)

lemma renderLoop_Conv:
  assumes "item_ok (Conv fl wd pr lm c)" and "stored api ld \<lparr>kind = convKind c lm, lenmod = lm, conv = c, totalLen = length (itemString (Conv fl wd pr lm c)), prefix = prefixOf fl wd pr\<rparr> arg bs str"
  shows "renderLoop api cap (itemString (Conv fl wd pr lm c) @ rest) (bs @ r) False ou = renderLoop api cap rest r False (appendText cap str ou)"
  using parseSpec_item [OF assms(1), of rest] convKind_supported [OF assms(1)] assms(2) by (simp add: stored_def)

lemma parseSpec_Percent: "parseSpec (CHR ''%'' # CHR ''%'' # rest) = \<lparr>kind = AK_NONE, lenmod = LM_NONE, conv = CHR 0x00, totalLen = 2, prefix = []\<rparr>"
  by (simp add: parseSpec_def)

lemma append_room [simp]:
  "length out + length str < cap \<Longrightarrow> appendText cap str (out, length out) = (out @ str, length out + length str)"
  "length out + length str < cap \<Longrightarrow> appendMarker cap str (out, length out) = (out @ str, length out + length str)"
  "Suc (length out) < cap \<Longrightarrow> appendLiteral cap ch (out, length out) = (out @ [ch], Suc (length out))"
  by (auto simp: appendText_def appendMarker_def appendLiteral_def snprintfAt_def)

text \<open>
  The two walks over a supported format: there are bytes that the producer stores and that make the consumer print what
  \<open>printf\<close> prints, whatever follows the format.
\<close>

definition walks :: "printf_api \<Rightarrow> 'ld narrow \<Rightarrow> item list \<Rightarrow> 'ld varg list \<Rightarrow> 'ld varg list \<Rightarrow> 8 word list \<Rightarrow> string \<Rightarrow> bool" where
  "walks api ld items ap ap' bs str \<longleftrightarrow>
     (\<forall>rest w tr. length w + length bs \<le> kArgBufLen \<longrightarrow> serializeArgs ld (format items @ rest) ap w tr = serializeArgs ld rest ap' (w @ bs) tr) \<and>
     (\<forall>rest r out cap. length out + length str < cap \<longrightarrow>
        renderLoop api cap (format items @ rest) (bs @ r) False (out, length out) = renderLoop api cap rest r False (out @ str, length out + length str))"

lemma walks_serialize: "walks api ld items ap ap' bs str \<Longrightarrow> length w + length bs \<le> kArgBufLen \<Longrightarrow>
    serializeArgs ld (format items @ rest) ap w tr = serializeArgs ld rest ap' (w @ bs) tr"
  by (simp add: walks_def)

lemma walks_render: "walks api ld items ap ap' bs str \<Longrightarrow> length out + length str < cap \<Longrightarrow> n = length out \<Longrightarrow>
    renderLoop api cap (format items @ rest) (bs @ r) False (out, n) = renderLoop api cap rest r False (out @ str, n + length str)"
  by (simp add: walks_def)

lemma format_Cons: "format (item # items) @ rest = itemString item @ format items @ rest"
  by (simp add: format_def)

lemma walks_Lit:
  assumes "c \<noteq> CHR ''%''" and "walks api ld items ap ap' bs str"
  shows "walks api ld (Lit c # items) ap ap' bs (c # str)"
  unfolding walks_def format_Cons
  using assms(1) walks_serialize [OF assms(2)] walks_render [OF assms(2), of "out @ [c]" for out] by simp

lemma walks_Percent:
  assumes "walks api ld items ap ap' bs str"
  shows "walks api ld (Percent # items) ap ap' bs (CHR ''%'' # str)"
  unfolding walks_def format_Cons
  using walks_serialize [OF assms] walks_render [OF assms, of "out @ ''%''" for out] by (simp add: parseSpec_Percent)

lemma walks_Conv:
  assumes "item_ok (Conv fl wd pr lm c)" and "stored api ld \<lparr>kind = convKind c lm, lenmod = lm, conv = c, totalLen = length (itemString (Conv fl wd pr lm c)), prefix = prefixOf fl wd pr\<rparr> arg bs1 str1"
    and w: "walks api ld items ap ap' bs str"
  shows "walks api ld (Conv fl wd pr lm c # items) (arg # ap) ap' (bs1 @ bs) (str1 @ str)"
  unfolding walks_def format_Cons
proof (intro conjI allI impI)
  fix rest w tr assume "length (w :: 8 word list) + length (bs1 @ bs) \<le> kArgBufLen"
  then show "serializeArgs ld (itemString (Conv fl wd pr lm c) @ format items @ rest) (arg # ap) w tr = serializeArgs ld rest ap' (w @ bs1 @ bs) tr"
    using serializeArgs_Conv [OF assms(1,2), of w "format items @ rest" ap tr] walks_serialize [OF w, of "w @ bs1" rest tr] by (simp del: itemString.simps)
next
  fix rest r out cap assume room: "length (out :: string) + length (str1 @ str) < cap"
  have "renderLoop api cap (itemString (Conv fl wd pr lm c) @ format items @ rest) (bs1 @ bs @ r) False (out, length out) =
      renderLoop api cap (format items @ rest) (bs @ r) False (out @ str1, length (out @ str1))"
    unfolding renderLoop_Conv [OF assms(1,2)] using room by (subst append_room(1)) simp_all
  also have "\<dots> = renderLoop api cap rest r False (out @ str1 @ str, length out + length (str1 @ str))"
    by (subst walks_render [OF w]) (use room in \<open>simp_all add: add.assoc\<close>)
  finally show "renderLoop api cap (itemString (Conv fl wd pr lm c) @ format items @ rest) ((bs1 @ bs) @ r) False (out, length out) =
      renderLoop api cap rest r False (out @ str1 @ str, length out + length (str1 @ str))" by (simp only: append_assoc)
qed

lemma walks_printf:
  assumes "list_all item_ok items" and "printf api items ap = Some str" and "list_all shortArg ap"
  shows "\<exists>bs ap'. length bs = itemsSize items ap \<and> walks api ld items ap ap' bs str"
  using assms
proof (induction api items ap arbitrary: str rule: printf.induct)
  case (1 api ap)
  then show ?case by (intro exI [of _ "[]"] exI [of _ ap]) (simp add: walks_def format_def)
next
  case (2 api c items ap)
  then obtain str' where "printf api items ap = Some str'" "str = c # str'" by auto
  then show ?case using 2 walks_Lit [of c] by fastforce
next
  case (3 api items ap)
  then obtain str' where "printf api items ap = Some str'" "str = CHR ''%'' # str'" by auto
  then show ?case using 3 walks_Percent by fastforce
next
  case (5 api fl wd pr lm c items arg ap)
  then obtain str1 str' where t: "convText api (prefixOf fl wd pr) lm c arg = Some str1" "printf api items ap = Some str'" "str = str1 @ str'"
    by (auto split: option.splits)
  have ok: "item_ok (Conv fl wd pr lm c)" "shortArg arg" "list_all item_ok items" "list_all shortArg ap" using 5 by simp_all
  obtain bs1 where "length bs1 = argSize c arg" "stored api ld \<lparr>kind = convKind c lm, lenmod = lm, conv = c, totalLen = length (itemString (Conv fl wd pr lm c)), prefix = prefixOf fl wd pr\<rparr> arg bs1 str1"
    using arg_stored [OF ok(1) t(1) ok(2) refl] by blast
  moreover obtain bs ap' where "length bs = itemsSize items ap" "walks api ld items ap ap' bs str'" using "5.IH" [OF t(1) ok(3) t(2) ok(4)] by blast
  ultimately show ?case using walks_Conv [OF ok(1)] t(3) by (intro exI [of _ "bs1 @ bs"] exI [of _ ap']) simp
qed simp

subsection \<open>The buffers\<close>

text \<open>The record never grows beyond its array, whatever the format and the arguments are.\<close>

lemma putArg_bound: "putArg ld s w arg = Some (ok, w', cutArg) \<Longrightarrow> length w \<le> kArgBufLen \<Longrightarrow> length w' \<le> kArgBufLen"
  by (cases "kind s") (auto simp: putArg_def putStr_def blobPut_def Let_def split: if_splits varg.splits option.splits)

lemma serializeArgs_bound: "serializeArgs ld p ap w tr = Some (bs, tr') \<Longrightarrow> length w \<le> kArgBufLen \<Longrightarrow> length bs \<le> kArgBufLen"
proof (induction ld p ap w tr rule: serializeArgs.induct)
  case (2 ld c p ap w tr)
  let ?s = "parseSpec (c # p)"
  show ?case
  proof (cases "c \<noteq> CHR ''%'' \<or> kind ?s = AK_NONE \<or> kind ?s = AK_UNSUPPORTED")
    case True
    then show ?thesis using "2.IH"(1,2) "2.prems" by (auto simp: Let_def split: if_splits)
  next
    case False
    then obtain arg ap' ok w' b where ap: "ap = arg # ap'" and put: "putArg ld ?s w arg = Some (ok, w', b)"
      using "2.prems"(1) by (auto simp: Let_def split: list.splits option.splits)
    note bound = putArg_bound [OF put "2.prems"(2)]
    show ?thesis
    proof (cases ok)
      case True
      then have "serializeArgs ld (drop (totalLen ?s) (c # p)) ap' w' (tr \<or> b) = Some (bs, tr')" using "2.prems"(1) False ap put by (simp add: Let_def)
      then show ?thesis using "2.IH"(3) [OF _ refl refl _ _ ap put refl refl True] False bound by blast
    next
      case False
      then show ?thesis using "2.prems"(1) \<open>\<not> (c \<noteq> CHR ''%'' \<or> kind ?s = AK_NONE \<or> kind ?s = AK_UNSUPPORTED)\<close> ap put bound by (simp add: Let_def)
    qed
  qed
qed simp

text \<open>The output buffer: its text always has room for the terminator, and the count stays inside the text.\<close>

definition out_ok :: "nat \<Rightarrow> string \<times> nat \<Rightarrow> bool" where
  "out_ok cap ou \<longleftrightarrow> snd ou \<le> length (fst ou) \<and> length (fst ou) < cap"

lemma out_ok_append:
  assumes "out_ok cap ou"
  shows "out_ok cap (appendLiteral cap ch ou)" "out_ok cap (appendMarker cap str ou)" "out_ok cap (appendText cap str ou)"
  using assms by (auto simp: out_ok_def appendLiteral_def appendMarker_def appendText_def snprintfAt_def min_def split: prod.splits if_splits)

lemma renderLoop_ok: "out_ok cap ou \<Longrightarrow> out_ok cap (renderLoop api cap p r ex ou)"
proof (induction api cap p r ex ou rule: renderLoop.induct)
  case (2 api cap c p r ex ou)
  then show ?case by (auto simp: Let_def out_ok_append split: option.splits)
qed simp

lemma renderMessage_bound: "0 < cap \<Longrightarrow> length (renderMessage api cap fmt args tr) < cap"
  using renderLoop_ok [of cap "([], 0)" api fmt args False] out_ok_append(2) [of cap "renderLoop api cap fmt args False ([], 0)"]
  by (simp add: renderMessage_def Let_def out_ok_def)

subsection \<open>Properties\<close>

text \<open>
  C35: For a format of supported conversions whose arguments match it, whose strings have at most 160 characters
  and whose arguments fit into the record, the message that the consumer thread formats later is exactly what
  \<open>printf\<close> would have produced at the time of the call, provided that it fits into the consumer's buffer.
\<close>

theorem deferred_message_is_printf:
  assumes "list_all item_ok items" and "printf api items ap = Some str" and "list_all shortArg ap"
    and "itemsSize items ap \<le> kArgBufLen" and "length str < kRenderLen"
  shows "logMessage api ld (format items) ap = Some str"
proof -
  obtain bs ap' where bs: "length bs = itemsSize items ap" and w: "walks api ld items ap ap' bs str"
    using walks_printf [OF assms(1-3)] by blast
  have "serializeArgs ld (format items) ap [] False = Some (bs, False)" using walks_serialize [OF w, of "[]" "[]" False] bs assms(4) by simp
  moreover have "renderLoop api kRenderLen (format items) bs False ([], 0) = (str, length str)"
    using walks_render [OF w, of "[]" kRenderLen 0 "[]" "[]"] assms(5) by simp
  ultimately show ?thesis by (simp add: logMessage_def renderMessage_def)
qed

text \<open>
  Whatever the format and the arguments, the record takes at most 384 bytes and the message, with its terminator,
  at most 512.
\<close>

theorem log_buffers_respected:
  assumes "serializeArgs ld fmt ap [] False = Some (bs, tr)"
  shows "length bs \<le> kArgBufLen \<and> length (renderMessage api kRenderLen fmt bs' tr') < kRenderLen"
  using serializeArgs_bound [OF assms] renderMessage_bound [of kRenderLen api fmt bs' tr'] by (simp add: kRenderLen_def)


subsection \<open>A concrete C library\<close>

text \<open>Formatting of decimal integers, strings and characters without flags, for the witnesses.\<close>

fun decimal :: "nat \<Rightarrow> string" where
  "decimal n = (if n < 10 then [''0123456789'' ! n] else decimal (n div 10) @ [''0123456789'' ! (n mod 10)])"

definition plain_printf :: printf_api where
  "plain_printf = \<lparr>fmt_signed = (\<lambda>pre c i. (if i < 0 then ''-'' else []) @ decimal (nat \<bar>i\<bar>)), fmt_unsigned = (\<lambda>pre c i. decimal (nat i)),
     fmt_double = (\<lambda>pre c v. []), fmt_char = (\<lambda>pre v. [char_of (unat v)]), fmt_pointer = (\<lambda>pre v. decimal (unat v)), fmt_string = (\<lambda>pre str. str)\<rparr>"

theorem deferred_message_is_printf_witness:
  "logMessage plain_printf (\<lambda>_ :: unit. 0) ''%s: %hhd%%'' [VStr (Some ''port''), VInt 511] = Some ''port: -1%''"
proof -
  let ?items = "[Conv [] [] None LM_NONE CHR ''s'', Lit CHR '':'', Lit CHR '' '', Conv [] [] None LM_hh CHR ''d'', Percent]"
  let ?ap = "[VStr (Some ''port''), VInt 511] :: unit varg list"
  have "list_all item_ok ?items" "printf plain_printf ?items ?ap = Some ''port: -1%''" "list_all shortArg ?ap" "itemsSize ?items ?ap \<le> kArgBufLen"
    "length ''port: -1%'' < kRenderLen" by code_simp+
  from deferred_message_is_printf [OF this] show ?thesis by (simp add: format_def prefixOf_def)
qed

theorem log_buffers_respected_witness:
  "\<exists>bs tr. serializeArgs (\<lambda>_ :: unit. 0) ''%s'' [VStr (Some ''port'')] [] False = Some (bs, tr) \<and> length bs \<le> kArgBufLen \<and>
     length (renderMessage plain_printf kRenderLen ''%s'' bs tr) < kRenderLen"
proof -
  have "serializeArgs (\<lambda>_ :: unit. 0) ''%s'' [VStr (Some ''port'')] [] False = Some ([4, 0, 112, 111, 114, 116], False)" by code_simp
  with log_buffers_respected [OF this, of plain_printf "[4, 0, 112, 111, 114, 116]" False] show ?thesis by blast
qed


end
