(* ===== verification/Log_Ring.thy ===== *)
theory Log_Ring
  imports Transition_System
begin

text \<open>
  The queue between the threads that log and the consumer thread (\<^verbatim>\<open>ulog_async.cpp\<close>): a bounded lock-free ring with
  any number of producers and one consumer at a time, the consumer's loop with its idle flag, \<open>ulog_async_flush\<close> and
  \<open>ulog_async_stop\<close>. Every access to a shared variable is one action; a schedule is a list of actions. A compare-exchange
  may fail without reason. Positions count the records of the process and are natural numbers: a 64-bit counter
  does not wrap in the life of a process. The semaphore only decides when the consumer goes on, so it does not appear.
  Shown: records are emitted once each and in the order in which they were accepted, no cell is accessed by two threads
  at once, a record is refused only when the ring is full, and a flush that succeeds has emitted everything; but
  a record that is accepted while the logger stops can be lost without being counted.
\<close>

definition kQueueLen :: nat where
  "kQueueLen = 256"

definition cellOf :: "nat \<Rightarrow> nat" where
  "cellOf pos = pos mod kQueueLen"

subsection \<open>State\<close>

text \<open>
  Program points. A producer: not logging, before the test of \<open>g_ringReady\<close>, before loading the position, with a position,
  with a position and the sequence number of its cell, holding a position before and after writing its cell, before
  the signal, and before counting a drop.
\<close>

datatype 'r log_producer = PIdle | PReady 'r | PLoad 'r | PPos 'r nat | PSeq 'r nat nat | PWrite 'r nat | PPublish 'r nat | PSignal | PDrop

text \<open>
  The consumer: at the head of its loop, in \<open>ringPop\<close> (the first five), before emitting a record, before the report of
  drops, before and after setting its idle flag; ended, and done with the last drain of \<open>ulog_async_stop\<close>.
\<close>

datatype 'r log_consumer = CTop | CLoad | CPos nat | CSeq nat nat | CCopy nat | CRelease nat 'r | CEmit 'r | CReport | CPark | CWaiting | CEnded | CStopped

datatype drainer = Running | FinalSweep | StopDrain

datatype stopper = SNone | SJoin | SDrain | SDone

datatype flusher = FNone | FEnq | FDeq nat | FIdle nat | FDone nat

text \<open>
  \<open>claims\<close> are the records in the order of the positions they were given, \<open>emitted\<close> those handed to \<open>ulog_log_prerendered\<close>
  and \<open>reports\<close> the numbers of drops reported.
\<close>

record 'r ulog =
  cellSeq :: "nat \<Rightarrow> nat"
  cellRec :: "nat \<Rightarrow> 'r"
  enqueuePos :: nat
  dequeuePos :: nat
  producers :: "nat \<Rightarrow> 'r log_producer"
  consumer :: "'r log_consumer"
  drainer :: drainer
  stopper :: stopper
  flusher :: flusher
  ringReady :: bool
  isRunning :: bool
  consumerIdle :: bool
  droppedCount :: nat
  droppedReported :: nat
  claims :: "'r list"
  emitted :: "'r list"
  reports :: "nat list"

text \<open>\<open>ulog_async_start\<close> with \<open>ringInit\<close>.\<close>

definition ulog_new :: "(nat \<Rightarrow> 'r) \<Rightarrow> 'r ulog" where
  "ulog_new mem = \<lparr>cellSeq = (\<lambda>i. i), cellRec = mem, enqueuePos = 0, dequeuePos = 0, producers = (\<lambda>t. PIdle), consumer = CTop,
     drainer = Running, stopper = SNone, flusher = FNone, ringReady = True, isRunning = True, consumerIdle = False,
     droppedCount = 0, droppedReported = 0, claims = [], emitted = [], reports = []\<rparr>"

subsection \<open>Producers\<close>

definition setP :: "nat \<Rightarrow> 'r log_producer \<Rightarrow> 'r ulog \<Rightarrow> 'r ulog" where
  "setP t p s = s\<lparr>producers := (producers s)(t := p)\<rparr>"

text \<open>A call of \<open>ulog_async_enqueue\<close>, and its steps; \<open>weak\<close> says that a compare-exchange fails without reason.\<close>

definition ulog_async_enqueue :: "nat \<Rightarrow> 'r \<Rightarrow> 'r ulog \<Rightarrow> 'r ulog" where
  "ulog_async_enqueue t r s = (if producers s t = PIdle then setP t (PReady r) s else s)"

definition pushDecide :: "bool \<Rightarrow> nat \<Rightarrow> 'r \<Rightarrow> nat \<Rightarrow> nat \<Rightarrow> 'r ulog \<Rightarrow> 'r ulog" where
  "pushDecide weak t r pos sq s =
     (let diff = int sq - int pos in
      if diff = 0 then
        (if \<not> weak \<and> enqueuePos s = pos then setP t (PWrite r pos) (s\<lparr>enqueuePos := pos + 1, claims := claims s @ [r]\<rparr>)
         else setP t (PPos r (enqueuePos s)) s)
      else if diff < 0 then setP t PDrop s
      else setP t (PLoad r) s)"

definition prodStep :: "bool \<Rightarrow> nat \<Rightarrow> 'r ulog \<Rightarrow> 'r ulog" where
  "prodStep weak t s = (case producers s t of
       PIdle \<Rightarrow> s
     | PReady r \<Rightarrow> setP t (if ringReady s then PLoad r else PDrop) s
     | PLoad r \<Rightarrow> setP t (PPos r (enqueuePos s)) s
     | PPos r pos \<Rightarrow> setP t (PSeq r pos (cellSeq s (cellOf pos))) s
     | PSeq r pos sq \<Rightarrow> pushDecide weak t r pos sq s
     | PWrite r pos \<Rightarrow> setP t (PPublish r pos) (s\<lparr>cellRec := (cellRec s)(cellOf pos := r)\<rparr>)
     | PPublish r pos \<Rightarrow> setP t PSignal (s\<lparr>cellSeq := (cellSeq s)(cellOf pos := pos + 1)\<rparr>)
     | PSignal \<Rightarrow> setP t PIdle s
     | PDrop \<Rightarrow> setP t PIdle (s\<lparr>droppedCount := droppedCount s + 1\<rparr>))"

subsection \<open>The consumer\<close>

definition popDecide :: "bool \<Rightarrow> nat \<Rightarrow> nat \<Rightarrow> 'r ulog \<Rightarrow> 'r ulog" where
  "popDecide weak pos sq s =
     (let diff = int sq - int (pos + 1) in
      if diff = 0 then
        (if \<not> weak \<and> dequeuePos s = pos then s\<lparr>dequeuePos := pos + 1, consumer := CCopy pos\<rparr>
         else s\<lparr>consumer := CPos (dequeuePos s)\<rparr>)
      else if diff < 0 then s\<lparr>consumer := CReport\<rparr>
      else s\<lparr>consumer := CLoad\<rparr>)"

text \<open>The end of \<open>drain\<close>: the report of new drops, and back to the caller.\<close>

definition reportLogDrops :: "'r ulog \<Rightarrow> 'r ulog" where
  "reportLogDrops s =
     (if droppedCount s \<noteq> droppedReported s
      then s\<lparr>reports := reports s @ [droppedCount s - droppedReported s], droppedReported := droppedCount s\<rparr> else s)
     \<lparr>consumer := (case drainer s of Running \<Rightarrow> CPark | FinalSweep \<Rightarrow> CEnded | StopDrain \<Rightarrow> CStopped)\<rparr>"

definition consStep :: "bool \<Rightarrow> 'r ulog \<Rightarrow> 'r ulog" where
  "consStep weak s = (case consumer s of
       CTop \<Rightarrow> if isRunning s then s\<lparr>consumer := CLoad\<rparr> else s\<lparr>drainer := FinalSweep, consumer := CLoad\<rparr>
     | CLoad \<Rightarrow> s\<lparr>consumer := CPos (dequeuePos s)\<rparr>
     | CPos pos \<Rightarrow> s\<lparr>consumer := CSeq pos (cellSeq s (cellOf pos))\<rparr>
     | CSeq pos sq \<Rightarrow> popDecide weak pos sq s
     | CCopy pos \<Rightarrow> s\<lparr>consumer := CRelease pos (cellRec s (cellOf pos))\<rparr>
     | CRelease pos r \<Rightarrow> s\<lparr>cellSeq := (cellSeq s)(cellOf pos := pos + kQueueLen), consumer := CEmit r\<rparr>
     | CEmit r \<Rightarrow> s\<lparr>emitted := emitted s @ [r], consumer := CLoad\<rparr>
     | CReport \<Rightarrow> reportLogDrops s
     | CPark \<Rightarrow> s\<lparr>consumerIdle := True, consumer := CWaiting\<rparr>
     | CWaiting \<Rightarrow> s\<lparr>consumerIdle := False, consumer := CTop\<rparr>
     | CEnded \<Rightarrow> s
     | CStopped \<Rightarrow> s)"

subsection \<open>Stopping and flushing\<close>

text \<open>After joining the consumer thread, \<open>ulog_async_stop\<close> drains the ring itself.\<close>

definition stopStep :: "'r ulog \<Rightarrow> 'r ulog" where
  "stopStep s = (case stopper s of
       SNone \<Rightarrow> if isRunning s then s\<lparr>isRunning := False, stopper := SJoin\<rparr> else s
     | SJoin \<Rightarrow> if consumer s = CEnded then s\<lparr>drainer := StopDrain, consumer := CLoad, stopper := SDrain\<rparr> else s
     | SDrain \<Rightarrow> if consumer s = CStopped then s\<lparr>ringReady := False, stopper := SDone\<rparr> else s
     | SDone \<Rightarrow> s)"

text \<open>A flush reads both positions and, when they agree, the idle flag; it begins again until all is well.\<close>

definition flushStep :: "'r ulog \<Rightarrow> 'r ulog" where
  "flushStep s = (case flusher s of
       FNone \<Rightarrow> if isRunning s then s\<lparr>flusher := FEnq\<rparr> else s
     | FEnq \<Rightarrow> s\<lparr>flusher := FDeq (enqueuePos s)\<rparr>
     | FDeq e \<Rightarrow> s\<lparr>flusher := (if e = dequeuePos s then FIdle e else FEnq)\<rparr>
     | FIdle e \<Rightarrow> s\<lparr>flusher := (if consumerIdle s then FDone e else FEnq)\<rparr>
     | FDone e \<Rightarrow> s)"

datatype 'r log_action = Call nat 'r | Produce nat bool | Consume bool | Stop | Flush

definition log_act :: "'r log_action \<Rightarrow> 'r ulog \<Rightarrow> 'r ulog" where
  "log_act a s = (case a of
       Call t r \<Rightarrow> ulog_async_enqueue t r s | Produce t weak \<Rightarrow> prodStep weak t s | Consume weak \<Rightarrow> consStep weak s
     | Stop \<Rightarrow> stopStep s | Flush \<Rightarrow> flushStep s)"

definition log_step :: "'r ulog \<Rightarrow> 'r log_action \<Rightarrow> 'r ulog \<Rightarrow> bool" where
  "log_step s a s' \<longleftrightarrow> s' = log_act a s"

definition log_run :: "'r log_action list \<Rightarrow> 'r ulog \<Rightarrow> 'r ulog" where
  "log_run as s = fold log_act as s"

lemma log_run_lrun: "lrun log_step s as (log_run as s)"
  by (induction as arbitrary: s) (auto simp: log_run_def log_step_def intro: lrun.intros)

subsection \<open>The invariant of the ring\<close>

text \<open>A position is held by the producer that has claimed it and not yet published it.\<close>

definition held :: "'r ulog \<Rightarrow> nat \<Rightarrow> nat \<Rightarrow> 'r \<Rightarrow> bool" where
  "held s t p r \<longleftrightarrow> producers s t = PWrite r p \<or> producers s t = PPublish r p"

text \<open>The first position whose cell is not yet free again.\<close>

definition base :: "'r ulog \<Rightarrow> nat" where
  "base s = (case consumer s of CCopy p \<Rightarrow> p | CRelease p r \<Rightarrow> p | _ \<Rightarrow> dequeuePos s)"

definition queue_inv :: "'r ulog \<Rightarrow> bool" where
  "queue_inv s \<longleftrightarrow> length (claims s) = enqueuePos s \<and> base s \<le> enqueuePos s \<and> enqueuePos s \<le> base s + kQueueLen \<and>
     (\<forall>t p r. held s t p r \<longrightarrow> base s \<le> p \<and> p < enqueuePos s \<and> claims s ! p = r \<and> cellSeq s (cellOf p) = p) \<and>
     (\<forall>t t' p r r'. held s t p r \<longrightarrow> held s t' p r' \<longrightarrow> t = t') \<and>
     (\<forall>p. base s \<le> p \<longrightarrow> p < enqueuePos s \<longrightarrow> (\<exists>t r. held s t p r) \<or> cellSeq s (cellOf p) = p + 1 \<and> cellRec s (cellOf p) = claims s ! p) \<and>
     (\<forall>p. enqueuePos s \<le> p \<longrightarrow> p < base s + kQueueLen \<longrightarrow> cellSeq s (cellOf p) = p) \<and>
     (\<forall>t r p. producers s t = PPublish r p \<longrightarrow> cellRec s (cellOf p) = r)"

definition cons_ok :: "'r log_consumer \<Rightarrow> nat \<Rightarrow> nat \<Rightarrow> (nat \<Rightarrow> nat) \<Rightarrow> 'r list \<Rightarrow> bool" where
  "cons_ok c deq enq sqs cl = (case c of
       CPos p \<Rightarrow> p = deq
     | CSeq p sq \<Rightarrow> p = deq \<and> sq \<le> sqs (cellOf p)
     | CCopy p \<Rightarrow> deq = p + 1 \<and> p < enq \<and> sqs (cellOf p) = p + 1
     | CRelease p r \<Rightarrow> deq = p + 1 \<and> p < enq \<and> sqs (cellOf p) = p + 1 \<and> r = cl ! p
     | _ \<Rightarrow> True)"

definition local_inv :: "'r ulog \<Rightarrow> bool" where
  "local_inv s \<longleftrightarrow>
     (\<forall>t r p. producers s t = PPos r p \<longrightarrow> p \<le> enqueuePos s) \<and>
     (\<forall>t r p sq. producers s t = PSeq r p sq \<longrightarrow> p \<le> enqueuePos s \<and> sq \<le> cellSeq s (cellOf p)) \<and>
     cons_ok (consumer s) (dequeuePos s) (enqueuePos s) (cellSeq s) (claims s)"

text \<open>The record between the ring and the output.\<close>

definition pend :: "'r ulog \<Rightarrow> 'r list" where
  "pend s = (case consumer s of CCopy p \<Rightarrow> [claims s ! p] | CRelease p r \<Rightarrow> [r] | CEmit r \<Rightarrow> [r] | _ \<Rightarrow> [])"

definition emit_inv :: "'r ulog \<Rightarrow> bool" where
  "emit_inv s \<longleftrightarrow> emitted s @ pend s = take (dequeuePos s) (claims s)"

lemma cell_inj:
  assumes "b \<le> p" "p < b + kQueueLen" "b \<le> q" "q < b + kQueueLen" "cellOf p = cellOf q"
  shows "p = q"
proof -
  have le: "p = q" if "p \<le> q" "q - p < kQueueLen" "q mod kQueueLen = p mod kQueueLen" for p q :: nat
  proof (rule ccontr)
    assume "p \<noteq> q"
    then have "0 < q - p" using that(1) by simp
    then have "\<not> kQueueLen dvd q - p" using that(2) by (intro nat_dvd_not_less)
    then show False using that(1,3) by (simp add: mod_eq_dvd_iff_nat)
  qed
  have "q - p < kQueueLen" "p - q < kQueueLen" using assms(1-4) by arith+
  then show ?thesis using le [of p q] le [of q p] assms(5) by (cases "p \<le> q") (simp_all add: cellOf_def)
qed

text \<open>A step that touches neither cells nor positions nor holders keeps the invariant of the queue.\<close>

lemma queue_frame:
  assumes "cellSeq s' = cellSeq s" "cellRec s' = cellRec s" "enqueuePos s' = enqueuePos s" "base s' = base s" "claims s' = claims s"
    and "\<And>t r p. producers s' t = PWrite r p \<longleftrightarrow> producers s t = PWrite r p" "\<And>t r p. producers s' t = PPublish r p \<longleftrightarrow> producers s t = PPublish r p"
  shows "queue_inv s' = queue_inv s"
  unfolding queue_inv_def held_def assms ..

subsection \<open>The steps that change the ring\<close>

text \<open>A sequence number that was equal to the position when it was read shows that the cell is free.\<close>

lemma claim_free:
  assumes "queue_inv s" and "enqueuePos s \<le> cellSeq s (cellOf (enqueuePos s))"
  shows "enqueuePos s < base s + kQueueLen"
proof (rule ccontr)
  assume "\<not> ?thesis"
  then have e: "enqueuePos s = base s + kQueueLen" using assms(1) by (simp add: queue_inv_def)
  then have c: "cellOf (enqueuePos s) = cellOf (base s)" by (simp add: cellOf_def)
  have "base s < enqueuePos s" using e by (simp add: kQueueLen_def)
  then have "cellSeq s (cellOf (base s)) \<le> base s + 1" using assms(1) unfolding queue_inv_def by (metis le_add1 order_refl)
  then show False using assms(2) e c by (simp add: kQueueLen_def)
qed

lemma queue_facts:
  assumes "queue_inv s"
  shows "length (claims s) = enqueuePos s" "base s \<le> enqueuePos s" "enqueuePos s \<le> base s + kQueueLen"
    "held s t p r \<Longrightarrow> base s \<le> p \<and> p < enqueuePos s \<and> claims s ! p = r \<and> cellSeq s (cellOf p) = p"
    "held s t p r \<Longrightarrow> held s t' p r' \<Longrightarrow> t = t'"
    "base s \<le> p \<Longrightarrow> p < enqueuePos s \<Longrightarrow> (\<exists>t r. held s t p r) \<or> cellSeq s (cellOf p) = p + 1 \<and> cellRec s (cellOf p) = claims s ! p"
    "enqueuePos s \<le> p \<Longrightarrow> p < base s + kQueueLen \<Longrightarrow> cellSeq s (cellOf p) = p"
    "producers s t = PPublish r p \<Longrightarrow> cellRec s (cellOf p) = r"
  using assms unfolding queue_inv_def by blast+

text \<open>A producer claims the next position.\<close>

lemma claim_queue:
  assumes "queue_inv s" and "enqueuePos s < base s + kQueueLen" and "producers s t = PSeq r (enqueuePos s) sq"
    and s': "s' = setP t (PWrite r (enqueuePos s)) (s\<lparr>enqueuePos := enqueuePos s + 1, claims := claims s @ [r]\<rparr>)"
  shows "queue_inv s'"
proof -
  note q = queue_facts [OF assms(1)]
  let ?e = "enqueuePos s"
  have f: "cellSeq s' = cellSeq s" "cellRec s' = cellRec s" "base s' = base s" "enqueuePos s' = ?e + 1" "claims s' = claims s @ [r]"
    by (simp_all add: s' setP_def base_def split: log_consumer.split)
  have h: "held s' t' p r' \<longleftrightarrow> (t' = t \<and> p = ?e \<and> r' = r) \<or> held s t' p r'" for t' p r'
    using assms(3) by (auto simp: held_def s' setP_def)
  have nth: "(claims s @ [r]) ! p = (if p < ?e then claims s ! p else r)" if "p \<le> ?e" for p using that q(1) by (auto simp: nth_append)
  have new: "cellSeq s (cellOf ?e) = ?e" using q(7) assms(2) by simp
  show ?thesis unfolding queue_inv_def f
  proof (intro conjI allI impI)
    fix t' p r' assume "held s' t' p r'"
    then show "base s \<le> p" "p < ?e + 1" "(claims s @ [r]) ! p = r'" "cellSeq s (cellOf p) = p"
      using q(2) q(4) [of t' p r'] nth [of p] new h by auto
  next
    fix t1 t2 p r1 r2 assume "held s' t1 p r1" "held s' t2 p r2"
    then show "t1 = t2" using h q(4,5) by (metis less_irrefl)
  next
    fix p assume p: "base s \<le> p" "p < ?e + 1"
    show "(\<exists>t r. held s' t p r) \<or> cellSeq s (cellOf p) = p + 1 \<and> cellRec s (cellOf p) = (claims s @ [r]) ! p"
      using q(6) [OF p(1)] p(2) nth [of p] h by (cases "p = ?e") auto
  next
    fix p assume "?e + 1 \<le> p" "p < base s + kQueueLen"
    then show "cellSeq s (cellOf p) = p" using q(7) by simp
  next
    fix t' r' p assume "producers s' t' = PPublish r' p"
    then show "cellRec s (cellOf p) = r'" using q(8) by (auto simp: s' setP_def split: if_splits)
  qed (use q(1-3) assms(2) in simp_all)
qed

text \<open>It writes the cell: no other position in use has that cell.\<close>

lemma window: "queue_inv s \<Longrightarrow> held s t p r \<Longrightarrow> base s \<le> p \<and> p < base s + kQueueLen"
  using queue_facts(3,4) by fastforce

lemma write_queue:
  assumes "queue_inv s" and "producers s t = PWrite r p"
    and s': "s' = setP t (PPublish r p) (s\<lparr>cellRec := (cellRec s)(cellOf p := r)\<rparr>)"
  shows "queue_inv s'"
proof -
  note q = queue_facts [OF assms(1)]
  have me: "held s t p r" using assms(2) by (simp add: held_def)
  have f: "cellSeq s' = cellSeq s" "cellRec s' = (cellRec s)(cellOf p := r)" "base s' = base s" "enqueuePos s' = enqueuePos s" "claims s' = claims s"
    by (simp_all add: s' setP_def base_def split: log_consumer.split)
  have h: "held s' t' p' r' \<longleftrightarrow> held s t' p' r'" for t' p' r' using assms(2) by (auto simp: held_def s' setP_def)
  have other: "p' = p" if "base s \<le> p'" "p' < enqueuePos s" "cellOf p' = cellOf p" for p'
    using cell_inj [of "base s" p' p] that q(3) window [OF assms(1) me] by simp
  show ?thesis unfolding queue_inv_def f h
  proof (intro conjI allI impI)
    fix p' assume p': "base s \<le> p'" "p' < enqueuePos s"
    show "(\<exists>t r. held s t p' r) \<or> cellSeq s (cellOf p') = p' + 1 \<and> ((cellRec s)(cellOf p := r)) (cellOf p') = claims s ! p'"
      using q(6) [OF p'] other [OF p'] me by auto
  next
    fix t' r' p' assume pub: "producers s' t' = PPublish r' p'"
    then have "t' = t \<and> p' = p \<and> r' = r \<or> t' \<noteq> t \<and> producers s t' = PPublish r' p'" by (auto simp: s' setP_def split: if_splits)
    then show "((cellRec s)(cellOf p := r)) (cellOf p') = r'"
    proof
      assume o: "t' \<noteq> t \<and> producers s t' = PPublish r' p'"
      then have "held s t' p' r'" by (simp add: held_def)
      then have "cellOf p' \<noteq> cellOf p" using o me other [of p'] q(4,5) by metis
      moreover have "cellRec s (cellOf p') = r'" using o q(8) by blast
      ultimately show ?thesis by simp
    qed simp
  qed ((use q in blast)+)
qed

text \<open>It publishes the cell.\<close>

lemma publish_queue:
  assumes "queue_inv s" and "producers s t = PPublish r p"
    and s': "s' = setP t PSignal (s\<lparr>cellSeq := (cellSeq s)(cellOf p := p + 1)\<rparr>)"
  shows "queue_inv s'"
proof -
  note q = queue_facts [OF assms(1)]
  have me: "held s t p r" using assms(2) by (simp add: held_def)
  have f: "cellSeq s' = (cellSeq s)(cellOf p := p + 1)" "cellRec s' = cellRec s" "base s' = base s" "enqueuePos s' = enqueuePos s" "claims s' = claims s"
    by (simp_all add: s' setP_def base_def split: log_consumer.split)
  have h: "held s' t' p' r' \<longleftrightarrow> t' \<noteq> t \<and> held s t' p' r'" for t' p' r' by (auto simp: held_def s' setP_def)
  have other: "p' = p" if "base s \<le> p'" "p' < base s + kQueueLen" "cellOf p' = cellOf p" for p'
    using cell_inj [of "base s" p' p] that q(3) window [OF assms(1) me] by simp
  show ?thesis unfolding queue_inv_def f
  proof (intro conjI allI impI)
    fix t' p' r' assume "held s' t' p' r'"
    then have o: "t' \<noteq> t" "held s t' p' r'" using h by auto
    note facts = q(4) [OF o(2)]
    show "base s \<le> p'" "p' < enqueuePos s" "claims s ! p' = r'" using facts by simp_all
    have "p' \<noteq> p" using o me q(5) by blast
    moreover have "p' < base s + kQueueLen" using facts q(3) by linarith
    ultimately have "cellOf p' \<noteq> cellOf p" using other [of p'] conjunct1 [OF facts] by blast
    then show "((cellSeq s)(cellOf p := p + 1)) (cellOf p') = p'" using facts by simp
  next
    fix t1 t2 p' r1 r2 assume "held s' t1 p' r1" "held s' t2 p' r2"
    then have "held s t1 p' r1" "held s t2 p' r2" by (simp_all add: h)
    then show "t1 = t2" by (rule q(5))
  next
    fix p' assume p': "base s \<le> p'" "p' < enqueuePos s"
    show "(\<exists>t r. held s' t p' r) \<or> ((cellSeq s)(cellOf p := p + 1)) (cellOf p') = p' + 1 \<and> cellRec s (cellOf p') = claims s ! p'"
    proof (cases "p' = p")
      case True
      have "cellRec s (cellOf p) = claims s ! p" using q(8) assms(2) q(4) [OF me] by blast
      then show ?thesis using True by simp
    next
      case False
      moreover have "p' < base s + kQueueLen" using p'(2) q(3) by linarith
      ultimately have "cellOf p' \<noteq> cellOf p" using other [of p'] p'(1) by blast
      consider t1 r1 where "held s t1 p' r1" | "cellSeq s (cellOf p') = p' + 1" "cellRec s (cellOf p') = claims s ! p'" using q(6) [OF p'] by blast
      then show ?thesis
      proof cases
        case 1
        then have "t1 \<noteq> t" using \<open>p' \<noteq> p\<close> assms(2) by (auto simp: held_def)
        then have "held s' t1 p' r1" using 1 by (simp add: h)
        then show ?thesis by blast
      qed (use \<open>cellOf p' \<noteq> cellOf p\<close> in simp)
    qed
  next
    fix p' assume p': "enqueuePos s \<le> p'" "p' < base s + kQueueLen"
    moreover have "base s \<le> p'" "p' \<noteq> p" using p'(1) q(2) q(4) [OF me] by linarith+
    ultimately have "cellOf p' \<noteq> cellOf p" using other [of p'] by blast
    then show "((cellSeq s)(cellOf p := p + 1)) (cellOf p') = p'" using q(7) [OF p'] by simp
  next
    fix t' r' p' assume "producers s' t' = PPublish r' p'"
    then show "cellRec s (cellOf p') = r'" using q(8) by (auto simp: s' setP_def split: if_splits)
  qed (use q(1-3) in simp_all)
qed

text \<open>The consumer gives the cell back.\<close>

lemma release_queue:
  assumes "queue_inv s" and "local_inv s" and "consumer s = CRelease p r"
    and s': "s' = s\<lparr>cellSeq := (cellSeq s)(cellOf p := p + kQueueLen), consumer := CEmit r\<rparr>"
  shows "queue_inv s'"
proof -
  note q = queue_facts [OF assms(1)]
  have c: "base s = p" "dequeuePos s = p + 1" "p < enqueuePos s" "cellSeq s (cellOf p) = p + 1"
    using assms(2,3) by (simp_all add: base_def local_inv_def cons_ok_def)
  have f: "cellSeq s' = (cellSeq s)(cellOf p := p + kQueueLen)" "cellRec s' = cellRec s" "base s' = p + 1" "enqueuePos s' = enqueuePos s" "claims s' = claims s"
    "producers s' = producers s" by (simp_all add: s' base_def c)
  have h: "held s' = held s" by (simp add: fun_eq_iff held_def s')
  have other: "cellOf p' \<noteq> cellOf p" if "p < p'" "p' < p + kQueueLen" for p'
    using cell_inj [of p p' p] that by auto
  have notp: "p' \<noteq> p" if "held s t' p' r'" for t' p' r' using q(4) [OF that] c(4) by auto
  show ?thesis unfolding queue_inv_def f h
  proof (intro conjI allI impI)
    fix t' p' r' assume he: "held s t' p' r'"
    note facts = q(4) [OF he]
    have gt: "p < p'" using facts notp [OF he] c(1) by simp
    show "p + 1 \<le> p'" "p' < enqueuePos s" "claims s ! p' = r'" using facts gt by simp_all
    show "((cellSeq s)(cellOf p := p + kQueueLen)) (cellOf p') = p'" using other [OF gt] facts q(3) c(1) by simp
  next
    fix t1 t2 p' r1 r2 assume "held s t1 p' r1" "held s t2 p' r2"
    then show "t1 = t2" using q(5) by blast
  next
    fix p' assume p': "p + 1 \<le> p'" "p' < enqueuePos s"
    have "cellOf p' \<noteq> cellOf p" using other [of p'] p' q(3) c(1) by simp
    then show "(\<exists>t r. held s t p' r) \<or> ((cellSeq s)(cellOf p := p + kQueueLen)) (cellOf p') = p' + 1 \<and> cellRec s (cellOf p') = claims s ! p'"
      using q(6) [of p'] p' c(1) by simp
  next
    fix p' assume p': "enqueuePos s \<le> p'" "p' < p + 1 + kQueueLen"
    show "((cellSeq s)(cellOf p := p + kQueueLen)) (cellOf p') = p'"
    proof (cases "p' = p + kQueueLen")
      case True
      then show ?thesis by (simp add: cellOf_def)
    next
      case False
      then have "cellOf p' \<noteq> cellOf p" using other [of p'] p' c(3) by simp
      then show ?thesis using q(7) [of p'] False p' c(1) by simp
    qed
  next
    fix t' r' p' assume "producers s t' = PPublish r' p'"
    then show "cellRec s (cellOf p') = r'" using q(8) by blast
  qed (use q(1-3) c in simp_all)
qed

text \<open>A sequence number one above the position shows that the record at the head has been published.\<close>

lemma pop_ready:
  assumes "queue_inv s" and "base s + 1 \<le> cellSeq s (cellOf (base s))"
  shows "base s < enqueuePos s \<and> cellSeq s (cellOf (base s)) = base s + 1 \<and> cellRec s (cellOf (base s)) = claims s ! base s"
proof -
  note q = queue_facts [OF assms(1)]
  have lt: "base s < enqueuePos s"
  proof (rule ccontr)
    assume "\<not> ?thesis"
    then have "cellSeq s (cellOf (base s)) = base s" by (intro q(7)) (simp_all add: kQueueLen_def)
    then show False using assms(2) by simp
  qed
  have "\<not> held s t (base s) r" for t r using q(4) [of t "base s" r] assms(2) by auto
  then show ?thesis using q(6) [OF order_refl lt] lt by simp
qed

lemma dequeue_le: "queue_inv s \<Longrightarrow> local_inv s \<Longrightarrow> dequeuePos s \<le> enqueuePos s"
  using queue_facts(2) [of s] by (cases "consumer s") (auto simp: base_def local_inv_def cons_ok_def)

definition ring_inv :: "'r ulog \<Rightarrow> bool" where
  "ring_inv s \<longleftrightarrow> queue_inv s \<and> local_inv s \<and> emit_inv s"

text \<open>Steps that only move the program point of a producer.\<close>

definition quiet :: "'r log_producer \<Rightarrow> bool" where
  "quiet p \<longleftrightarrow> (case p of PWrite r n \<Rightarrow> False | PPublish r n \<Rightarrow> False | _ \<Rightarrow> True)"

lemma setP_fields [simp]:
  "cellSeq (setP t p s) = cellSeq s" "cellRec (setP t p s) = cellRec s" "enqueuePos (setP t p s) = enqueuePos s" "dequeuePos (setP t p s) = dequeuePos s"
  "claims (setP t p s) = claims s" "emitted (setP t p s) = emitted s" "consumer (setP t p s) = consumer s" "consumerIdle (setP t p s) = consumerIdle s"
  "flusher (setP t p s) = flusher s" "reports (setP t p s) = reports s" "droppedCount (setP t p s) = droppedCount s" "droppedReported (setP t p s) = droppedReported s"
  "producers (setP t p s) = (producers s)(t := p)" "base (setP t p s) = base s" "pend (setP t p s) = pend s"
  by (simp_all add: setP_def base_def pend_def split: log_consumer.split)

text \<open>Sequence numbers only grow, so what was read from a cell remains a lower bound.\<close>

lemma local_mono:
  assumes "local_inv s" and "\<And>i. cellSeq s i \<le> cellSeq s' i" and "enqueuePos s \<le> enqueuePos s'" and "producers s' = (producers s)(t := p)"
    and "\<And>r n. p = PPos r n \<Longrightarrow> n \<le> enqueuePos s'" and "\<And>r n sq. p = PSeq r n sq \<Longrightarrow> n \<le> enqueuePos s' \<and> sq \<le> cellSeq s' (cellOf n)"
    and "cons_ok (consumer s') (dequeuePos s') (enqueuePos s') (cellSeq s') (claims s')"
  shows "local_inv s'"
  unfolding local_inv_def
proof (intro conjI allI impI)
  fix u r n assume u: "producers s' u = PPos r n"
  show "n \<le> enqueuePos s'"
  proof (cases "u = t")
    case False
    then have "n \<le> enqueuePos s" using u assms(1,4) unfolding local_inv_def by (metis fun_upd_other)
    then show ?thesis using assms(3) by simp
  qed (use u assms(4,5) in auto)
next
  fix u r n sq assume u: "producers s' u = PSeq r n sq"
  have "n \<le> enqueuePos s' \<and> sq \<le> cellSeq s' (cellOf n)"
  proof (cases "u = t")
    case False
    then have "n \<le> enqueuePos s \<and> sq \<le> cellSeq s (cellOf n)" using u assms(1,4) unfolding local_inv_def by (metis fun_upd_other)
    then show ?thesis using assms(2) [of "cellOf n"] assms(3) by simp
  qed (use u assms(4,6) in auto)
  then show "n \<le> enqueuePos s'" "sq \<le> cellSeq s' (cellOf n)" by simp_all
qed (rule assms(7))

lemma setP_ring:
  assumes "ring_inv s" and "quiet (producers s t)" and "quiet p"
    and "\<And>r n. p = PPos r n \<Longrightarrow> n \<le> enqueuePos s" and "\<And>r n sq. p = PSeq r n sq \<Longrightarrow> n \<le> enqueuePos s \<and> sq \<le> cellSeq s (cellOf n)"
  shows "ring_inv (setP t p s)"
proof -
  have "queue_inv (setP t p s) = queue_inv s" by (rule queue_frame) (use assms(2,3) in \<open>auto simp: quiet_def\<close>)
  moreover have "local_inv (setP t p s)"
    by (rule local_mono [of s _ t p]) (use assms(1,4,5) in \<open>simp_all add: ring_inv_def local_inv_def\<close>)
  ultimately show ?thesis using assms(1) by (simp add: ring_inv_def emit_inv_def)
qed

lemma setP_move:
  assumes "ring_inv s" and "quiet (producers s t)"
  shows "ring_inv (setP t PIdle s)" "ring_inv (setP t (PReady r) s)" "ring_inv (setP t (PLoad r) s)" "ring_inv (setP t PSignal s)" "ring_inv (setP t PDrop s)"
    "n \<le> enqueuePos s \<Longrightarrow> ring_inv (setP t (PPos r n) s)" "n \<le> enqueuePos s \<Longrightarrow> sq \<le> cellSeq s (cellOf n) \<Longrightarrow> ring_inv (setP t (PSeq r n sq) s)"
  by (rule setP_ring [OF assms]; simp add: quiet_def)+

lemma ring_facts: "ring_inv s \<Longrightarrow> queue_inv s" "ring_inv s \<Longrightarrow> local_inv s" "ring_inv s \<Longrightarrow> emit_inv s"
  by (simp_all add: ring_inv_def)


subsection \<open>Every action keeps the invariant\<close>

lemma emit_append:
  assumes "ring_inv s" and "claims s' = claims s @ rs" and "consumer s' = consumer s" and "dequeuePos s' = dequeuePos s" and "emitted s' = emitted s"
  shows "emit_inv s'"
proof -
  have d: "dequeuePos s \<le> length (claims s)" using dequeue_le ring_facts [OF assms(1)] queue_facts(1) by metis
  have "pend s' = pend s" using assms(2,3) ring_facts(2) [OF assms(1)] queue_facts(1) [OF ring_facts(1) [OF assms(1)]]
    by (cases "consumer s") (auto simp: pend_def local_inv_def cons_ok_def nth_append)
  then show ?thesis using ring_facts(3) [OF assms(1)] assms d by (simp add: emit_inv_def)
qed

lemma cons_ok_append:
  assumes "ring_inv s" and "enqueuePos s \<le> e"
  shows "cons_ok (consumer s) (dequeuePos s) e (cellSeq s) (claims s @ rs)"
  using ring_facts(2) [OF assms(1)] queue_facts(1) [OF ring_facts(1) [OF assms(1)]] assms(2)
  by (cases "consumer s") (auto simp: local_inv_def cons_ok_def nth_append)

lemma claim_ring:
  assumes "ring_inv s" and "producers s t = PSeq r pos pos" and "enqueuePos s = pos"
    and s': "s' = setP t (PWrite r pos) (s\<lparr>enqueuePos := pos + 1, claims := claims s @ [r]\<rparr>)"
  shows "ring_inv s'"
proof -
  have "pos \<le> cellSeq s (cellOf pos)" using ring_facts(2) [OF assms(1)] assms(2) by (auto simp: local_inv_def)
  then have "enqueuePos s < base s + kQueueLen" using claim_free [OF ring_facts(1) [OF assms(1)]] assms(3) by simp
  then have "queue_inv s'" using claim_queue [OF ring_facts(1) [OF assms(1)]] assms(2,3) s' by simp
  moreover have "local_inv s'"
    by (rule local_mono [of s _ t "PWrite r pos"]) (use assms cons_ok_append [OF assms(1), of "pos + 1" "[r]"] ring_facts(2) in \<open>simp_all add: s'\<close>)
  moreover have "emit_inv s'" by (rule emit_append [OF assms(1), of _ "[r]"]) (simp_all add: s')
  ultimately show ?thesis by (simp add: ring_inv_def)
qed

lemma pushDecide_ring:
  assumes "ring_inv s" and "producers s t = PSeq r pos sq"
  shows "ring_inv (pushDecide weak t r pos sq s)"
proof (cases "sq = pos \<and> \<not> weak \<and> enqueuePos s = pos")
  case True
  then show ?thesis using claim_ring [OF assms(1) _ _ refl] assms(2) by (simp add: pushDecide_def)
next
  case False
  have q: "quiet (producers s t)" using assms(2) by (simp add: quiet_def)
  show ?thesis using False by (auto simp: pushDecide_def Let_def setP_move [OF assms(1) q])
qed

lemma base_cong: "consumer s' = consumer s \<Longrightarrow> dequeuePos s' = dequeuePos s \<Longrightarrow> base s' = base s"
  by (simp add: base_def split: log_consumer.split)

lemma write_ring:
  assumes "ring_inv s" and "producers s t = PWrite r p"
  shows "ring_inv (setP t (PPublish r p) (s\<lparr>cellRec := (cellRec s)(cellOf p := r)\<rparr>))" (is "ring_inv ?s'")
proof -
  have "queue_inv ?s'" using write_queue [OF ring_facts(1) [OF assms(1)] assms(2) refl] .
  moreover have "local_inv ?s'"
    by (rule local_mono [of s _ t "PPublish r p"]) (use ring_facts(2) [OF assms(1)] in \<open>simp_all add: local_inv_def\<close>)
  moreover have "emit_inv ?s'" by (rule emit_append [OF assms(1), of _ "[]"]) simp_all
  ultimately show ?thesis by (simp add: ring_inv_def)
qed

lemma cons_ok_mono:
  assumes "cons_ok c deq enq sqs cl" and "\<And>i. sqs i \<le> sqs' i" and "\<And>x. c = CCopy x \<or> (\<exists>r. c = CRelease x r) \<Longrightarrow> sqs' (cellOf x) = sqs (cellOf x)"
  shows "cons_ok c deq enq sqs' cl"
  using assms by (cases c) (auto simp: cons_ok_def intro: order_trans)

lemma publish_ring:
  assumes "ring_inv s" and "producers s t = PPublish r p"
  shows "ring_inv (setP t PSignal (s\<lparr>cellSeq := (cellSeq s)(cellOf p := p + 1)\<rparr>))" (is "ring_inv ?s'")
proof -
  have he: "held s t p r" using assms(2) by (simp add: held_def)
  then have at: "cellSeq s (cellOf p) = p" using queue_facts(4) [OF ring_facts(1) [OF assms(1)]] by blast
  have ne: "cellOf x \<noteq> cellOf p" if "consumer s = CCopy x \<or> (\<exists>r. consumer s = CRelease x r)" for x
  proof
    assume eq: "cellOf x = cellOf p"
    have "base s = x" "cellSeq s (cellOf x) = x + 1" using that ring_facts(2) [OF assms(1)] by (auto simp: base_def local_inv_def cons_ok_def)
    then have "x = p" "cellSeq s (cellOf p) = x + 1"
      using cell_inj [of x x p] window [OF ring_facts(1) [OF assms(1)] he] eq by (simp_all add: kQueueLen_def)
    then show False using at by simp
  qed
  have "queue_inv ?s'" using publish_queue [OF ring_facts(1) [OF assms(1)] assms(2) refl] .
  moreover have ok: "cons_ok (consumer s) (dequeuePos s) (enqueuePos s) ((cellSeq s)(cellOf p := p + 1)) (claims s)"
  proof (rule cons_ok_mono)
    show "cons_ok (consumer s) (dequeuePos s) (enqueuePos s) (cellSeq s) (claims s)" using ring_facts(2) [OF assms(1)] unfolding local_inv_def by blast
    show "cellSeq s i \<le> ((cellSeq s)(cellOf p := p + 1)) i" for i using at by simp
    show "((cellSeq s)(cellOf p := p + 1)) (cellOf x) = cellSeq s (cellOf x)" if "consumer s = CCopy x \<or> (\<exists>r. consumer s = CRelease x r)" for x
      using ne [OF that] by simp
  qed
  moreover have "local_inv ?s'"
    by (rule local_mono [of s _ t PSignal]) (use ring_facts(2) [OF assms(1)] at ok in simp_all)
  moreover have "emit_inv ?s'" by (rule emit_append [OF assms(1), of _ "[]"]) simp_all
  ultimately show ?thesis by (simp add: ring_inv_def)
qed

text \<open>Fields on which the invariant of the ring does not depend.\<close>

lemma ring_inv_cong:
  assumes "cellSeq s' = cellSeq s" "cellRec s' = cellRec s" "enqueuePos s' = enqueuePos s" "dequeuePos s' = dequeuePos s" "producers s' = producers s"
    "consumer s' = consumer s" "claims s' = claims s" "emitted s' = emitted s"
  shows "ring_inv s' = ring_inv s"
proof -
  have "base s' = base s" "pend s' = pend s" using assms by (simp_all add: base_def pend_def split: log_consumer.split)
  then show ?thesis by (simp add: ring_inv_def queue_inv_def local_inv_def emit_inv_def held_def assms)
qed

lemma ring_other [simp]:
  "ring_inv (s\<lparr>droppedCount := n\<rparr>) = ring_inv s" "ring_inv (s\<lparr>drainer := d\<rparr>) = ring_inv s" "ring_inv (s\<lparr>stopper := st\<rparr>) = ring_inv s"
  "ring_inv (s\<lparr>flusher := f\<rparr>) = ring_inv s" "ring_inv (s\<lparr>ringReady := b\<rparr>) = ring_inv s" "ring_inv (s\<lparr>isRunning := b\<rparr>) = ring_inv s"
  "ring_inv (s\<lparr>consumerIdle := b\<rparr>) = ring_inv s" "ring_inv (s\<lparr>droppedReported := n\<rparr>) = ring_inv s" "ring_inv (s\<lparr>reports := ns\<rparr>) = ring_inv s"
  by (rule ring_inv_cong; simp)+

lemma prodStep_ring:
  assumes "ring_inv s"
  shows "ring_inv (prodStep weak t s)"
proof (cases "producers s t")
  case (PSeq r pos sq)
  then show ?thesis using pushDecide_ring [OF assms PSeq] by (simp add: prodStep_def)
next
  case (PWrite r pos)
  then show ?thesis using write_ring [OF assms PWrite] by (simp add: prodStep_def)
next
  case (PPublish r pos)
  then show ?thesis using publish_ring [OF assms PPublish] by (simp add: prodStep_def)
next
  case PDrop
  then show ?thesis using setP_move(1) [of "s\<lparr>droppedCount := droppedCount s + 1\<rparr>" t] assms by (simp add: prodStep_def quiet_def)
next
  case (PPos r pos)
  then have "pos \<le> enqueuePos s" using ring_facts(2) [OF assms] by (auto simp: local_inv_def)
  then show ?thesis using setP_move(7) [OF assms, of t pos] PPos by (simp add: prodStep_def quiet_def)
qed (use setP_move [OF assms, of t] assms in \<open>simp_all add: prodStep_def quiet_def\<close>)

text \<open>Steps that only move the program point of the consumer, between points at which it holds no record.\<close>

definition calm :: "'r log_consumer \<Rightarrow> bool" where
  "calm c \<longleftrightarrow> (case c of CCopy p \<Rightarrow> False | CRelease p r \<Rightarrow> False | CEmit r \<Rightarrow> False | _ \<Rightarrow> True)"

lemma local_consumer:
  assumes "local_inv s" and "cons_ok c d (enqueuePos s) (cellSeq s) (claims s)"
  shows "local_inv (s\<lparr>dequeuePos := d, consumer := c\<rparr>)"
  using assms by (simp add: local_inv_def)

lemma queue_consumer:
  assumes "queue_inv s" and "base s' = base s" and "cellSeq s' = cellSeq s" "cellRec s' = cellRec s" "enqueuePos s' = enqueuePos s" "claims s' = claims s" "producers s' = producers s"
  shows "queue_inv s'"
  using queue_frame [of s' s] assms by simp

lemma calm_ring:
  assumes "ring_inv s" and "calm (consumer s)" and "calm c" and "cons_ok c (dequeuePos s) (enqueuePos s) (cellSeq s) (claims s)"
  shows "ring_inv (s\<lparr>consumer := c\<rparr>)"
proof -
  have b: "base (s\<lparr>consumer := c\<rparr>) = base s" "pend (s\<lparr>consumer := c\<rparr>) = pend s"
    using assms(2,3) by (cases "consumer s"; cases c; simp add: base_def pend_def calm_def)+
  have "queue_inv (s\<lparr>consumer := c\<rparr>)" by (rule queue_consumer [OF ring_facts(1) [OF assms(1)] b(1)]) simp_all
  moreover have "local_inv (s\<lparr>consumer := c\<rparr>)" using local_consumer [OF ring_facts(2) [OF assms(1)] assms(4)] by simp
  moreover have "emit_inv (s\<lparr>consumer := c\<rparr>)" using ring_facts(3) [OF assms(1)] b(2) by (simp add: emit_inv_def)
  ultimately show ?thesis by (simp add: ring_inv_def)
qed

lemma calm_moves:
  assumes "ring_inv s" and "calm (consumer s)"
  shows "ring_inv (s\<lparr>consumer := CTop\<rparr>)" "ring_inv (s\<lparr>consumer := CLoad\<rparr>)" "ring_inv (s\<lparr>consumer := CPos (dequeuePos s)\<rparr>)"
    "ring_inv (s\<lparr>consumer := CSeq (dequeuePos s) (cellSeq s (cellOf (dequeuePos s)))\<rparr>)" "ring_inv (s\<lparr>consumer := CReport\<rparr>)" "ring_inv (s\<lparr>consumer := CPark\<rparr>)"
    "ring_inv (s\<lparr>consumer := CWaiting\<rparr>)" "ring_inv (s\<lparr>consumer := CEnded\<rparr>)" "ring_inv (s\<lparr>consumer := CStopped\<rparr>)"
  by (rule calm_ring [OF assms]; simp add: calm_def cons_ok_def)+

text \<open>The consumer takes the record at the head.\<close>

lemma pop_ring:
  assumes "ring_inv s" and "consumer s = CSeq pos (pos + 1)"
  shows "ring_inv (s\<lparr>dequeuePos := pos + 1, consumer := CCopy pos\<rparr>)" (is "ring_inv ?s'")
proof -
  note q = ring_facts(1) [OF assms(1)]
  have pos: "dequeuePos s = pos" "base s = pos" "pos + 1 \<le> cellSeq s (cellOf pos)"
    using ring_facts(2) [OF assms(1)] assms(2) by (auto simp: local_inv_def cons_ok_def base_def)
  then have ready: "pos < enqueuePos s" "cellSeq s (cellOf pos) = pos + 1" using pop_ready [OF q] by simp_all
  have "queue_inv ?s'" by (rule queue_consumer [OF q]) (simp_all add: pos base_def assms(2))
  moreover have "local_inv ?s'" by (rule local_consumer [OF ring_facts(2) [OF assms(1)]]) (simp add: cons_ok_def ready)
  moreover have "emit_inv ?s'" using ring_facts(3) [OF assms(1)] pos ready(1) queue_facts(1) [OF q] assms(2)
    by (simp add: emit_inv_def pend_def take_Suc_conv_app_nth)
  ultimately show ?thesis by (simp add: ring_inv_def)
qed

lemma copy_ring:
  assumes "ring_inv s" and "consumer s = CCopy pos"
  shows "ring_inv (s\<lparr>consumer := CRelease pos (cellRec s (cellOf pos))\<rparr>)" (is "ring_inv ?s'")
proof -
  note q = ring_facts(1) [OF assms(1)]
  have pos: "dequeuePos s = pos + 1" "base s = pos" "pos < enqueuePos s" "cellSeq s (cellOf pos) = pos + 1"
    using ring_facts(2) [OF assms(1)] assms(2) by (simp_all add: local_inv_def cons_ok_def base_def)
  then have r: "cellRec s (cellOf pos) = claims s ! pos" using pop_ready [OF q] by simp
  have "queue_inv ?s'" by (rule queue_consumer [OF q]) (simp_all add: base_def assms(2))
  moreover have "local_inv ?s'" using ring_facts(2) [OF assms(1)] pos r by (simp add: local_inv_def cons_ok_def)
  moreover have "emit_inv ?s'" using ring_facts(3) [OF assms(1)] r assms(2) by (simp add: emit_inv_def pend_def)
  ultimately show ?thesis by (simp add: ring_inv_def)
qed

lemma local_grow:
  assumes "local_inv s" and "\<And>i. cellSeq s i \<le> cellSeq s' i" and "enqueuePos s' = enqueuePos s" and "producers s' = producers s"
    and "cons_ok (consumer s') (dequeuePos s') (enqueuePos s') (cellSeq s') (claims s')"
  shows "local_inv s'"
proof (rule local_mono [of s _ 0 "producers s 0"])
  show "n \<le> enqueuePos s' \<and> sq \<le> cellSeq s' (cellOf n)" if "producers s 0 = PSeq r n sq" for r n sq
    using assms(1) that order_trans [OF _ assms(2), of sq "cellOf n"] assms(3) unfolding local_inv_def by auto
qed (use assms in \<open>auto simp: local_inv_def\<close>)

lemma release_ring:
  assumes "ring_inv s" and "consumer s = CRelease pos r"
  shows "ring_inv (s\<lparr>cellSeq := (cellSeq s)(cellOf pos := pos + kQueueLen), consumer := CEmit r\<rparr>)" (is "ring_inv ?s'")
proof -
  have at: "cellSeq s (cellOf pos) = pos + 1" using ring_facts(2) [OF assms(1)] assms(2) by (simp add: local_inv_def cons_ok_def)
  have "queue_inv ?s'" by (rule release_queue [OF ring_facts(1,2) [OF assms(1)] assms(2) refl])
  moreover have "local_inv ?s'"
    by (rule local_grow [of s]) (use ring_facts(2) [OF assms(1)] at in \<open>simp_all add: cons_ok_def kQueueLen_def\<close>)
  moreover have "emit_inv ?s'" using ring_facts(3) [OF assms(1)] assms(2) by (simp add: emit_inv_def pend_def)
  ultimately show ?thesis by (simp add: ring_inv_def)
qed

lemma emit_ring:
  assumes "ring_inv s" and "consumer s = CEmit r"
  shows "ring_inv (s\<lparr>emitted := emitted s @ [r], consumer := CLoad\<rparr>)" (is "ring_inv ?s'")
proof -
  have "queue_inv ?s'" by (rule queue_consumer [OF ring_facts(1) [OF assms(1)]]) (simp_all add: base_def assms(2))
  moreover have "local_inv ?s'" using ring_facts(2) [OF assms(1)] by (simp add: local_inv_def cons_ok_def)
  moreover have "emit_inv ?s'" using ring_facts(3) [OF assms(1)] assms(2) by (simp add: emit_inv_def pend_def)
  ultimately show ?thesis by (simp add: ring_inv_def)
qed

lemma popDecide_ring:
  assumes "ring_inv s" and "consumer s = CSeq pos sq"
  shows "ring_inv (popDecide weak pos sq s)"
proof (cases "sq = pos + 1 \<and> \<not> weak \<and> dequeuePos s = pos")
  case True
  then show ?thesis using pop_ring [OF assms(1), of pos] assms(2) by (simp add: popDecide_def)
next
  case False
  have "calm (consumer s)" using assms(2) by (simp add: calm_def)
  then show ?thesis using False by (auto simp: popDecide_def Let_def calm_moves [OF assms(1)])
qed

lemma reportLogDrops_ring: "ring_inv s \<Longrightarrow> consumer s = CReport \<Longrightarrow> ring_inv (reportLogDrops s)"
  using calm_moves [of s] calm_moves [of "s\<lparr>reports := reports s @ [droppedCount s - droppedReported s], droppedReported := droppedCount s\<rparr>"]
  by (cases "drainer s") (simp_all add: reportLogDrops_def calm_def)

lemma consStep_ring:
  assumes "ring_inv s"
  shows "ring_inv (consStep weak s)"
proof (cases "consumer s")
  case CTop
  then show ?thesis using calm_moves(2) [OF assms] calm_moves(2) [of "s\<lparr>drainer := FinalSweep\<rparr>"] assms by (simp add: consStep_def calm_def)
next
  case (CPos pos)
  then have "pos = dequeuePos s" using ring_facts(2) [OF assms] by (simp add: local_inv_def cons_ok_def)
  then show ?thesis using CPos calm_moves(4) [OF assms] by (simp add: consStep_def calm_def)
next
  case CPark
  then show ?thesis using calm_moves(7) [of "s\<lparr>consumerIdle := True\<rparr>"] assms by (simp add: consStep_def calm_def)
next
  case CWaiting
  then show ?thesis using calm_moves(1) [of "s\<lparr>consumerIdle := False\<rparr>"] assms by (simp add: consStep_def calm_def)
qed (use assms calm_moves [OF assms] in \<open>simp_all add: consStep_def calm_def popDecide_ring copy_ring release_ring emit_ring reportLogDrops_ring\<close>)

lemma stopStep_ring:
  assumes "ring_inv s"
  shows "ring_inv (stopStep s)"
proof (cases "stopper s")
  case SJoin
  have "ring_inv (s\<lparr>drainer := StopDrain, consumer := CLoad\<rparr>)" if "consumer s = CEnded"
    using calm_moves(2) [of "s\<lparr>drainer := StopDrain\<rparr>"] assms that by (simp add: calm_def)
  then show ?thesis using SJoin assms ring_other(3) [where s = "s\<lparr>drainer := StopDrain, consumer := CLoad\<rparr>" and st = SDrain] by (simp add: stopStep_def)
next
  case SNone
  then show ?thesis using assms ring_other(3) [where s = "s\<lparr>isRunning := False\<rparr>" and st = SJoin] by (simp add: stopStep_def)
next
  case SDrain
  then show ?thesis using assms ring_other(3) [where s = "s\<lparr>ringReady := False\<rparr>" and st = SDone] by (simp add: stopStep_def)
qed (use assms in \<open>simp add: stopStep_def\<close>)

lemma flushStep_ring: "ring_inv s \<Longrightarrow> ring_inv (flushStep s)"
  by (simp add: flushStep_def split: flusher.split)

lemma enqueue_ring: "ring_inv s \<Longrightarrow> ring_inv (ulog_async_enqueue t r s)"
  using setP_move(2) [of s t r] by (simp add: ulog_async_enqueue_def quiet_def)

lemma log_act_ring: "ring_inv s \<Longrightarrow> ring_inv (log_act a s)"
  by (cases a) (simp_all add: log_act_def enqueue_ring prodStep_ring consStep_ring stopStep_ring flushStep_ring)

subsection \<open>Flushing and reporting\<close>

text \<open>The idle flag is set only while the consumer waits; what a flush has read bounds what has been taken and emitted.\<close>

definition flush_inv :: "'r ulog \<Rightarrow> bool" where
  "flush_inv s \<longleftrightarrow> (consumerIdle s \<longrightarrow> consumer s = CWaiting) \<and>
     (case flusher s of FIdle e \<Rightarrow> e \<le> dequeuePos s | FDone e \<Rightarrow> e \<le> length (emitted s) | _ \<Rightarrow> True)"

lemma flush_grow:
  assumes "flush_inv s" and "dequeuePos s \<le> dequeuePos s'" and "length (emitted s) \<le> length (emitted s')" and "flusher s' = flusher s"
    and "consumerIdle s' \<Longrightarrow> consumer s' = CWaiting"
  shows "flush_inv s'"
  using assms by (cases "flusher s") (auto simp: flush_inv_def)

lemma consStep_flush:
  assumes "ring_inv s" and "flush_inv s"
  shows "flush_inv (consStep weak s)"
proof (rule flush_grow [OF assms(2)])
  have idle: "\<not> consumerIdle s" if "consumer s \<noteq> CWaiting" using assms(2) that by (auto simp: flush_inv_def)
  show "dequeuePos s \<le> dequeuePos (consStep weak s)" "length (emitted s) \<le> length (emitted (consStep weak s))" "flusher (consStep weak s) = flusher s"
    by (auto simp: consStep_def popDecide_def reportLogDrops_def Let_def split: log_consumer.split)
  show "consumer (consStep weak s) = CWaiting" if "consumerIdle (consStep weak s)"
    using that idle by (cases "consumer s") (auto simp: consStep_def popDecide_def reportLogDrops_def Let_def split: if_splits)
qed

lemma prodStep_frame [simp]:
  "dequeuePos (prodStep weak t s) = dequeuePos s" "emitted (prodStep weak t s) = emitted s" "flusher (prodStep weak t s) = flusher s"
  "consumerIdle (prodStep weak t s) = consumerIdle s" "consumer (prodStep weak t s) = consumer s" "droppedReported (prodStep weak t s) = droppedReported s"
  "reports (prodStep weak t s) = reports s"
  by (simp_all add: prodStep_def pushDecide_def Let_def split: log_producer.split)

lemma flushStep_flush:
  assumes "ring_inv s" and "flush_inv s"
  shows "flush_inv (flushStep s)"
proof (cases "flusher s")
  case (FIdle e)
  have "e \<le> length (emitted s)" if "consumerIdle s"
  proof -
    have "consumer s = CWaiting" using assms(2) that by (simp add: flush_inv_def)
    then have "emitted s = take (dequeuePos s) (claims s)" using ring_facts(3) [OF assms(1)] by (simp add: emit_inv_def pend_def)
    moreover have "dequeuePos s \<le> length (claims s)" using dequeue_le ring_facts [OF assms(1)] queue_facts(1) by metis
    ultimately show ?thesis using assms(2) FIdle by (simp add: flush_inv_def)
  qed
  then show ?thesis using FIdle assms(2) by (simp add: flushStep_def flush_inv_def)
qed (use assms(2) in \<open>auto simp: flushStep_def flush_inv_def\<close>)

lemma log_act_flush:
  assumes "ring_inv s" and "flush_inv s"
  shows "flush_inv (log_act a s)"
proof (cases a)
  case (Call t r)
  then show ?thesis by (intro flush_grow [OF assms(2)]) (use assms(2) in \<open>auto simp: log_act_def ulog_async_enqueue_def flush_inv_def split: if_splits\<close>)
next
  case (Produce t weak)
  then show ?thesis by (intro flush_grow [OF assms(2)]) (use assms(2) in \<open>auto simp: log_act_def flush_inv_def\<close>)
next
  case Stop
  then show ?thesis
    by (intro flush_grow [OF assms(2)]) (use assms(2) in \<open>auto simp: log_act_def stopStep_def flush_inv_def split: stopper.splits if_splits\<close>)
qed (use assms in \<open>simp_all add: log_act_def consStep_flush flushStep_flush\<close>)

definition drop_inv :: "'r ulog \<Rightarrow> bool" where
  "drop_inv s \<longleftrightarrow> sum_list (reports s) = droppedReported s \<and> droppedReported s \<le> droppedCount s"

lemma prodStep_drop: "droppedCount s \<le> droppedCount (prodStep weak t s)"
  by (simp add: prodStep_def pushDecide_def Let_def split: log_producer.split)

lemma log_act_drop: "drop_inv s \<Longrightarrow> drop_inv (log_act a s)"
  using prodStep_drop [of s]
  by (cases a) (auto simp: log_act_def drop_inv_def ulog_async_enqueue_def consStep_def popDecide_def reportLogDrops_def stopStep_def flushStep_def Let_def
      intro: order_trans split: log_consumer.split stopper.split flusher.split)

definition log_inv :: "'r ulog \<Rightarrow> bool" where
  "log_inv s \<longleftrightarrow> ring_inv s \<and> flush_inv s \<and> drop_inv s"

interpretation lg: stable_system log_step log_inv
  by unfold_locales (auto simp: log_step_def log_inv_def log_act_ring log_act_flush log_act_drop)

lemma ulog_new_inv: "log_inv (ulog_new mem)"
  by (simp add: log_inv_def ring_inv_def queue_inv_def local_inv_def emit_inv_def flush_inv_def drop_inv_def held_def base_def pend_def cons_ok_def ulog_new_def
      cellOf_def)

lemma log_run_inv: "log_inv (log_run as (ulog_new mem))"
  by (rule lg.run_stable [OF log_run_lrun ulog_new_inv])

subsection \<open>Properties\<close>

text \<open>
  C36: Under every schedule of any number of threads, the records are emitted in the order in which they were accepted,
  each once and unchanged: what has been emitted, with the record that the consumer is working on, is the list of
  the first accepted records. At most 256 accepted records wait, and the reported drops add up to drops that
  have happened.
\<close>

theorem log_records_in_order:
  assumes "s = log_run as (ulog_new mem)"
  shows "emitted s @ pend s = take (dequeuePos s) (claims s) \<and> dequeuePos s \<le> length (claims s) \<and>
    length (claims s) \<le> length (emitted s) + 1 + kQueueLen \<and> sum_list (reports s) \<le> droppedCount s"
proof -
  have inv: "ring_inv s" "drop_inv s" using log_run_inv [of as mem] assms by (simp_all add: log_inv_def)
  note r = ring_facts [OF inv(1)]
  note q = queue_facts [OF r(1)]
  have e: "emitted s @ pend s = take (dequeuePos s) (claims s)" using r(3) by (simp add: emit_inv_def)
  have d: "dequeuePos s \<le> length (claims s)" using dequeue_le [OF r(1,2)] q(1) by simp
  have "length (emitted s) + length (pend s) = dequeuePos s" using arg_cong [OF e, of length] d by simp
  moreover have "length (pend s) \<le> 1" by (simp add: pend_def split: log_consumer.split)
  moreover have "base s \<le> dequeuePos s" using r(2) by (cases "consumer s") (auto simp: base_def local_inv_def cons_ok_def)
  ultimately have "length (claims s) \<le> length (emitted s) + 1 + kQueueLen" using q(1,3) by simp
  then show ?thesis using e d inv(2) by (simp add: drop_inv_def)
qed

text \<open>Schedules for the witnesses: one call, pushed and drained, and one call up to its claim.\<close>

definition push_run :: "nat log_action list" where
  "push_run = Call 0 7 # replicate 7 (Produce 0 False)"

theorem log_records_in_order_witness:
  "\<exists>s. s = log_run (push_run @ replicate 7 (Consume False)) (ulog_new (\<lambda>i. 0)) \<and> emitted s = [7] \<and> emitted s @ pend s = take (dequeuePos s) (claims s)"
proof -
  have "emitted (log_run (push_run @ replicate 7 (Consume False)) (ulog_new (\<lambda>i. 0))) = [7]" by code_simp
  then show ?thesis using log_records_in_order [OF refl, where as = "push_run @ replicate 7 (Consume False)" and mem = "\<lambda>i. 0"] by blast
qed

text \<open>
  C37: No cell of the ring is accessed by two threads at once: under every schedule, a producer that writes a cell is
  the only producer at that cell, and the consumer is not reading it.
\<close>

theorem log_no_data_race:
  assumes "s = log_run as (ulog_new mem)" and "producers s t = PWrite r p"
  shows "(\<forall>t' r' p'. t' \<noteq> t \<and> (producers s t' = PWrite r' p' \<or> producers s t' = PPublish r' p') \<longrightarrow> cellOf p' \<noteq> cellOf p) \<and>
    (\<forall>p'. consumer s = CCopy p' \<longrightarrow> cellOf p' \<noteq> cellOf p)"
proof -
  have inv: "ring_inv s" using log_run_inv [of as mem] assms(1) by (simp add: log_inv_def)
  note q = queue_facts [OF ring_facts(1) [OF inv]]
  have me: "held s t p r" using assms(2) by (simp add: held_def)
  have "cellOf p' \<noteq> cellOf p" if "t' \<noteq> t" "held s t' p' r'" for t' p' r'
    using cell_inj [of "base s" p' p] window [OF ring_facts(1) [OF inv] me] window [OF ring_facts(1) [OF inv] that(2)] q(5) me that by blast
  moreover have "cellOf p' \<noteq> cellOf p" if "consumer s = CCopy p'" for p'
  proof
    assume "cellOf p' = cellOf p"
    have b: "base s = p'" "cellSeq s (cellOf p') = p' + 1" using that ring_facts(2) [OF inv] by (auto simp: base_def local_inv_def cons_ok_def)
    then have "p' = p" using cell_inj [of p' p' p] window [OF ring_facts(1) [OF inv] me] \<open>cellOf p' = cellOf p\<close> by (simp add: kQueueLen_def)
    then show False using b(2) q(4) [OF me] by simp
  qed
  ultimately show ?thesis unfolding held_def by blast
qed

theorem log_no_data_race_witness:
  "\<exists>s. s = log_run (take 5 push_run) (ulog_new (\<lambda>i. 0)) \<and> producers s 0 = PWrite 7 0 \<and> consumer s \<noteq> CCopy 256"
proof -
  let ?s = "log_run (take 5 push_run) (ulog_new (\<lambda>i. 0))"
  have w: "producers ?s 0 = PWrite 7 0" by code_simp
  have "cellOf 256 = cellOf 0" by code_simp
  then have "consumer ?s \<noteq> CCopy 256" using log_no_data_race [OF refl w] by blast
  then show ?thesis using w by blast
qed

text \<open>
  A record is refused for lack of room only when there is none: a producer that reads a sequence number below its
  position does so at a moment when 256 accepted records have not been given back by the consumer.
\<close>

theorem log_refused_only_when_full:
  assumes "s = log_run as (ulog_new mem)" and "producers s t = PPos r pos" and "cellSeq s (cellOf pos) < pos"
  shows "enqueuePos s = base s + kQueueLen \<and> length (claims s) = base s + kQueueLen"
proof -
  have inv: "ring_inv s" using log_run_inv [of as mem] assms(1) by (simp add: log_inv_def)
  note q = queue_facts [OF ring_facts(1) [OF inv]]
  have le: "pos \<le> enqueuePos s" using ring_facts(2) [OF inv] assms(2) by (auto simp: local_inv_def)
  have seq: "p \<le> cellSeq s (cellOf p)" if "base s \<le> p" "p < base s + kQueueLen" for p
    using q(4) q(6) [of p] q(7) [of p] that by (cases "p < enqueuePos s") fastforce+
  have "base s + kQueueLen \<le> pos"
  proof (rule ccontr)
    assume lt: "\<not> base s + kQueueLen \<le> pos"
    obtain k where k: "base s \<le> pos + k * kQueueLen" "pos + k * kQueueLen < base s + kQueueLen"
    proof (cases "base s \<le> pos")
      case True
      then show ?thesis using lt that [of 0] by simp
    next
      case False
      define d where "d = base s - pos"
      define k where "k = (d + 255) div 256"
      have d: "base s = pos + d" using False by (simp add: d_def)
      have "k * 256 + (d + 255) mod 256 = d + 255" unfolding k_def by (rule div_mult_mod_eq)
      moreover have "(d + 255) mod 256 < 256" by simp
      ultimately have "d \<le> k * 256 \<and> k * 256 < d + 256" by linarith
      then show ?thesis by (intro that [of k]) (simp_all add: d kQueueLen_def)
    qed
    have "pos + k * kQueueLen \<le> cellSeq s (cellOf (pos + k * kQueueLen))" by (rule seq [OF k])
    then show False using assms(3) by (simp add: cellOf_def)
  qed
  then show ?thesis using le q(1,3) by simp
qed

text \<open>The ring filled by one thread: 256 calls, and a 257th that finds it full.\<close>

lemmas log_eval = log_run_def log_act_def ulog_async_enqueue_def prodStep_def pushDecide_def setP_def

lemma push_once:
  assumes "producers s 0 = PIdle" and "ringReady s" and "cellSeq s (cellOf (enqueuePos s)) = enqueuePos s"
  shows "log_run push_run s = s\<lparr>cellSeq := (cellSeq s)(cellOf (enqueuePos s) := enqueuePos s + 1), cellRec := (cellRec s)(cellOf (enqueuePos s) := 7),
    enqueuePos := enqueuePos s + 1, claims := claims s @ [7]\<rparr>"
proof -
  have run: "replicate 7 x = [x, x, x, x, x, x, x]" for x :: "nat log_action" by (simp add: numeral_eq_Suc)
  have "(producers s)(0 := PIdle) = producers s" using assms(1) by auto
  then show ?thesis using assms by (simp add: push_run_def run log_eval Let_def)
qed

definition fill_run :: "nat \<Rightarrow> nat log_action list" where
  "fill_run n = concat (replicate n push_run)"

lemma fill_ring:
  assumes "n \<le> kQueueLen" and "s = log_run (fill_run n) (ulog_new (\<lambda>i. 0))"
  shows "producers s = (\<lambda>t. PIdle) \<and> ringReady s \<and> enqueuePos s = n \<and> cellSeq s = (\<lambda>i. if i < n then i + 1 else i)"
  using assms
proof (induction n arbitrary: s)
  case 0
  then show ?case by (simp add: fill_run_def log_run_def ulog_new_def)
next
  case (Suc n)
  let ?s = "log_run (fill_run n) (ulog_new (\<lambda>i. 0))"
  have IH: "producers ?s = (\<lambda>t. PIdle)" "ringReady ?s" "enqueuePos ?s = n" "cellSeq ?s = (\<lambda>i. if i < n then i + 1 else i)"
    using Suc.IH [OF _ refl] Suc.prems(1) by simp_all
  have c: "cellOf n = n" using Suc.prems(1) by (simp add: cellOf_def)
  have "fill_run (Suc n) = fill_run n @ push_run" by (simp add: fill_run_def replicate_append_same [symmetric] del: replicate_append_same)
  then have "s = log_run push_run ?s" using Suc.prems(2) by (simp add: log_run_def)
  then have s: "s = ?s\<lparr>cellSeq := (cellSeq ?s)(n := n + 1), cellRec := (cellRec ?s)(n := 7), enqueuePos := n + 1, claims := claims ?s @ [7]\<rparr>"
    using push_once [of ?s] IH c by simp
  show ?case unfolding s using IH by (auto simp: fun_eq_iff)
qed

theorem log_refused_only_when_full_witness:
  "\<exists>as s. s = log_run as (ulog_new (\<lambda>i. 0 :: nat)) \<and> producers s 0 = PPos 7 256 \<and> cellSeq s (cellOf 256) < 256 \<and> length (claims s) = base s + kQueueLen"
proof -
  let ?full = "log_run (fill_run kQueueLen) (ulog_new (\<lambda>i. 0))"
  let ?as = "fill_run kQueueLen @ [Call 0 7, Produce 0 False, Produce 0 False]"
  let ?s = "log_run ?as (ulog_new (\<lambda>i. 0))"
  have f: "producers ?full = (\<lambda>t. PIdle)" "ringReady ?full" "enqueuePos ?full = 256" "cellSeq ?full = (\<lambda>i. if i < 256 then i + 1 else i)"
    using fill_ring [OF order_refl refl] by (simp_all add: kQueueLen_def)
  have "?s = log_run [Call 0 7, Produce 0 False, Produce 0 False] ?full" by (simp add: log_run_def)
  also have "\<dots> = setP 0 (PPos 7 256) ?full" using f unfolding log_run_def [of "[Call 0 7, Produce 0 False, Produce 0 False]"]
    by (simp add: log_act_def ulog_async_enqueue_def prodStep_def setP_def)
  finally have s: "?s = setP 0 (PPos 7 256) ?full" .
  have p: "producers ?s 0 = PPos 7 256" "cellSeq ?s (cellOf 256) < 256" using f unfolding s by (simp_all add: cellOf_def kQueueLen_def)
  show ?thesis using p log_refused_only_when_full [OF refl p] by blast
qed

text \<open>
  C38: When \<open>ulog_async_flush\<close> has returned before its time limit, every record that had been accepted when it last
  looked at the ring has been emitted.
\<close>

theorem flush_means_emitted:
  assumes "s = log_run as (ulog_new mem)" and "flusher s = FDone e"
  shows "e \<le> length (emitted s) \<and> take e (emitted s) = take e (claims s)"
proof -
  have inv: "ring_inv s" "flush_inv s" using log_run_inv [of as mem] assms(1) by (simp_all add: log_inv_def)
  have e: "e \<le> length (emitted s)" using inv(2) assms(2) by (simp add: flush_inv_def)
  have pre: "emitted s @ pend s = take (dequeuePos s) (claims s)" using ring_facts(3) [OF inv(1)] by (simp add: emit_inv_def)
  have "length (emitted s) \<le> dequeuePos s" using arg_cong [OF pre, of length] by simp
  moreover have "take e (emitted s) = take e (take (dequeuePos s) (claims s))" using e arg_cong [OF pre, of "take e"] by simp
  ultimately show ?thesis using e by (simp add: min_def)
qed

theorem flush_means_emitted_witness:
  "\<exists>s. s = log_run (push_run @ replicate 12 (Consume False) @ replicate 4 Flush) (ulog_new (\<lambda>i. 0)) \<and> flusher s = FDone 1 \<and> take 1 (emitted s) = take 1 (claims s)"
proof -
  let ?s = "log_run (push_run @ replicate 12 (Consume False) @ replicate 4 Flush) (ulog_new (\<lambda>i. 0))"
  have f: "flusher ?s = FDone 1" by code_simp
  then show ?thesis using flush_means_emitted [OF refl f] by blast
qed

text \<open>
  A record can be lost without a trace while the logger stops: a thread that has seen the ring ready and pushes
  after the last drain finds room, so its record is accepted and never emitted, and no drop is counted.
\<close>

theorem stop_loses_record:
  "\<exists>as s. s = log_run as (ulog_new mem) \<and> stopper s = SDone \<and> producers s = (\<lambda>t. PIdle) \<and> claims s = [r] \<and> emitted s = [] \<and> droppedCount s = 0"
proof -
  let ?go = "Produce 0 False" and ?c = "Consume False"
  let ?as = "[Call 0 r, ?go, Stop, ?c, ?c, ?c, ?c, ?c, Stop, ?c, ?c, ?c, ?c, Stop, ?go, ?go, ?go, ?go, ?go, ?go]"
  show ?thesis
    by (rule exI [of _ ?as]) (simp add: log_eval consStep_def popDecide_def reportLogDrops_def stopStep_def ulog_new_def Let_def cellOf_def kQueueLen_def fun_eq_iff)
qed

end
