(* ===== verification/Udp_Reporter.thy ===== *)
theory Udp_Reporter
  imports Csv_Reporter Freedv_Reporter "HOL-Library.Multiset"
begin

text \<open>
  UDP: the socket object \<^verbatim>\<open>UdpHandler.cpp\<close> (POSIX variant) and the reporter \<^verbatim>\<open>UdpReporter.cpp\<close> that sends one JSON document
  per received callsign. Name resolution and the results of \<open>socket\<close>, \<open>bind\<close> and \<open>sendto\<close> are arguments; the tasks run
  one after the other on the object's thread (\<open>Threaded_Object\<close>), and the reporter waits for each. Shown: when
  open and close alternate, every socket is closed once, every address list is freed and no thread object is
  overwritten while its thread has not been joined; the datagrams read back as the reported records.
\<close>

subsection \<open>Addresses\<close>

datatype addr_family = AF_INET | AF_INET6 | AF_OTHER

text \<open>A socket address: its family and the bytes of the address in network order.\<close>

record sock_addr =
  sa_family :: addr_family
  sa_bytes :: "u8 list"

text \<open>\<open>ntohl\<close> of the four bytes of an IPv4 address.\<close>

fun ntohl :: "u8 list \<Rightarrow> u32" where
  "ntohl (a # b # c # d # _) = push_bit 24 (ucast a) OR push_bit 16 (ucast b) OR push_bit 8 (ucast c) OR ucast d"
| "ntohl _ = 0"

definition isMulticastAddress :: "sock_addr \<Rightarrow> bool" where
  "isMulticastAddress a = (case sa_family a of
       AF_INET6 \<Rightarrow> (case sa_bytes a of b # _ \<Rightarrow> b = 0xFF | [] \<Rightarrow> False)
     | AF_INET \<Rightarrow> let addrAsHost = ntohl (sa_bytes a) in addrAsHost \<ge> 0xE0000000 \<and> addrAsHost \<le> 0xEFFFFFFF
     | AF_OTHER \<Rightarrow> False)"

subsection \<open>The socket object\<close>

text \<open>
  The object's members, and as history: sockets opened and closed, address lists obtained and freed, multicast
  groups joined, whether a thread object was overwritten while joinable (the program ends then), and the datagrams
  handed to the network.
\<close>

record udp =
  udp_host :: string
  udp_port :: int
  udp_socket :: int
  joinable :: bool
  udp_opened :: "int list"
  udp_closed :: "int list"
  addrs_got :: nat
  addrs_freed :: nat
  joined :: "sock_addr list"
  terminated :: bool
  datagrams :: "(sock_addr \<times> string) list"

definition udp_new :: udp where
  "udp_new = \<lparr>udp_host = [], udp_port = 0, udp_socket = -1, joinable = False, udp_opened = [], udp_closed = [], addrs_got = 0, addrs_freed = 0,
     joined = [], terminated = False, datagrams = []\<rparr>"

type_synonym resolver = "string \<Rightarrow> int \<Rightarrow> sock_addr option"

definition resolveIpAddress :: "resolver \<Rightarrow> string \<Rightarrow> int \<Rightarrow> udp \<Rightarrow> sock_addr option \<times> udp" where
  "resolveIpAddress getaddr host port s = (case getaddr host port of
       None \<Rightarrow> (None, s) | Some a \<Rightarrow> (Some a, s\<lparr>addrs_got := addrs_got s + 1\<rparr>))"

definition freeaddrinfo :: "udp \<Rightarrow> udp" where
  "freeaddrinfo s = s\<lparr>addrs_freed := addrs_freed s + 1\<rparr>"

text \<open>\<open>joinMulticastGroup_\<close>: its assertion fails for other families.\<close>

definition joinMulticastGroup :: "sock_addr \<Rightarrow> udp \<Rightarrow> udp option" where
  "joinMulticastGroup a s = (if sa_family a = AF_OTHER then None else Some (s\<lparr>joined := joined s @ [a]\<rparr>))"

definition joinIfMulticast :: "sock_addr \<Rightarrow> udp \<Rightarrow> udp option" where
  "joinIfMulticast a s = (if isMulticastAddress a then joinMulticastGroup a s else Some s)"

text \<open>\<open>socket\<close> returns \<open>fd\<close>, which is \<open>-1\<close> on failure.\<close>

definition storeSocket :: "int \<Rightarrow> udp \<Rightarrow> udp" where
  "storeSocket fd s = s\<lparr>udp_socket := fd, udp_opened := (if fd < 0 then udp_opened s else udp_opened s @ [fd])\<rparr>"

text \<open>Starting the receive thread assigns the thread object, which ends the program when the object is joinable.\<close>

definition startReceive :: "udp \<Rightarrow> udp" where
  "startReceive s = s\<lparr>joinable := True, terminated := (terminated s \<or> joinable s)\<rparr>"

definition openImpl :: "resolver \<Rightarrow> int \<Rightarrow> bool \<Rightarrow> (string \<times> int) option \<Rightarrow> udp \<Rightarrow> udp option" where
  "openImpl getaddr fd bindOk sendTo s =
     (if udp_host s = [] then
        let (result, s1) = (case sendTo of None \<Rightarrow> (None, s) | Some (ip, port) \<Rightarrow> resolveIpAddress getaddr ip port s);
            s2 = storeSocket fd s1 in
        case result of None \<Rightarrow> Some s2 | Some a \<Rightarrow> map_option freeaddrinfo (joinIfMulticast a s2)
      else
        let (result, s1) = resolveIpAddress getaddr (udp_host s) (udp_port s) s in
        case result of
          None \<Rightarrow> Some s1
        | Some a \<Rightarrow>
            let s2 = storeSocket fd s1; s3 = (if bindOk \<and> fd \<ge> 0 then startReceive s2 else s2) in
            map_option freeaddrinfo (joinIfMulticast a s3))"

definition udp_open :: "resolver \<Rightarrow> int \<Rightarrow> bool \<Rightarrow> string \<Rightarrow> int \<Rightarrow> (string \<times> int) option \<Rightarrow> udp \<Rightarrow> udp option" where
  "udp_open getaddr fd bindOk host port sendTo s = openImpl getaddr fd bindOk sendTo (s\<lparr>udp_host := host, udp_port := port\<rparr>)"

definition closeImpl :: "udp \<Rightarrow> udp" where
  "closeImpl s =
     (if udp_socket s \<noteq> -1 then s\<lparr>udp_socket := -1, udp_closed := udp_closed s @ [udp_socket s], joinable := False\<rparr> else s)"

text \<open>\<open>sendto\<close> on an invalid descriptor fails; otherwise \<open>sendOk\<close> says whether the datagram left.\<close>

definition sendImpl_udp :: "resolver \<Rightarrow> bool \<Rightarrow> string \<Rightarrow> int \<Rightarrow> string \<Rightarrow> udp \<Rightarrow> udp" where
  "sendImpl_udp getaddr sendOk host port msg s =
     (case resolveIpAddress getaddr host port s of
        (None, s1) \<Rightarrow> s1
      | (Some a, s1) \<Rightarrow> freeaddrinfo (if sendOk \<and> udp_socket s1 \<noteq> -1 then s1\<lparr>datagrams := datagrams s1 @ [(a, msg)]\<rparr> else s1))"

subsection \<open>The reporter\<close>

record udp_reporter =
  rep_address :: string
  rep_port :: int
  rep_frequency :: u64
  rep_udp :: udp

definition udp_reporter_new :: "resolver \<Rightarrow> int \<Rightarrow> string \<Rightarrow> int \<Rightarrow> udp_reporter option" where
  "udp_reporter_new getaddr fd address port =
     map_option (\<lambda>u. \<lparr>rep_address = address, rep_port = port, rep_frequency = 0, rep_udp = u\<rparr>) (udp_open getaddr fd False [] 0 (Some (address, port)) udp_new)"

definition udp_freqChange :: "u64 \<Rightarrow> udp_reporter \<Rightarrow> udp_reporter" where
  "udp_freqChange f r = r\<lparr>rep_frequency := f\<rparr>"

text \<open>\<open>strftime\<close> with \<^verbatim>\<open>%Y-%m-%dT%H:%M:%SZ\<close>; years have four digits, so the 21 characters suffice.\<close>

definition timestamp :: "tm \<Rightarrow> string" where
  "timestamp t = strftime_date t @ ''T'' @ strftime_time t @ ''Z''"

definition callsignMessage :: "tm \<Rightarrow> string \<Rightarrow> string \<Rightarrow> u64 \<Rightarrow> u8 \<Rightarrow> 'd json" where
  "callsignMessage now call md freq snr =
     JObj [(''type'', JStr ''fdv_callsign''), (''version'', JInt 1), (''timestamp'', JStr (timestamp now)), (''callsign'', JStr (c_str call)),
       (''mode'', JStr (c_str md)), (''snr'', JInt (sint snr)), (''frequency_hz'', JInt (uint freq))]"

text \<open>\<open>yyjson_mut_write\<close> fails for strings that are not UTF-8; an empty result is treated as a failure.\<close>

definition udp_addReceiveRecord :: "('d json \<Rightarrow> string option) \<Rightarrow> resolver \<Rightarrow> bool \<Rightarrow> tm \<Rightarrow> string \<Rightarrow> string \<Rightarrow> u64 \<Rightarrow> u8 \<Rightarrow> udp_reporter \<Rightarrow> udp_reporter" where
  "udp_addReceiveRecord json_write getaddr sendOk now call md freq snr r =
     (case json_write (callsignMessage now call md freq snr) of
        None \<Rightarrow> r
      | Some msg \<Rightarrow> if msg = [] then r else r\<lparr>rep_udp := sendImpl_udp getaddr sendOk (rep_address r) (rep_port r) msg (rep_udp r)\<rparr>)"

subsection \<open>Sequences of operations\<close>

datatype udp_op = Open int bool string int "(string \<times> int) option" | Close | Send bool string int string

fun udp_do :: "resolver \<Rightarrow> udp_op \<Rightarrow> udp \<Rightarrow> udp option" where
  "udp_do getaddr (Open fd bindOk host port sendTo) s = udp_open getaddr fd bindOk host port sendTo s"
| "udp_do getaddr Close s = Some (closeImpl s)"
| "udp_do getaddr (Send sendOk host port msg) s = Some (sendImpl_udp getaddr sendOk host port msg s)"

fun udp_run :: "resolver \<Rightarrow> udp_op list \<Rightarrow> udp \<Rightarrow> udp option" where
  "udp_run getaddr [] s = Some s"
| "udp_run getaddr (op # ops) s = (case udp_do getaddr op s of None \<Rightarrow> None | Some s' \<Rightarrow> udp_run getaddr ops s')"

text \<open>A socket is opened only while none is open, and \<open>socket\<close> returns a descriptor or \<open>-1\<close>.\<close>

fun udp_orderly :: "resolver \<Rightarrow> udp_op list \<Rightarrow> udp \<Rightarrow> bool" where
  "udp_orderly getaddr [] s = True"
| "udp_orderly getaddr (op # ops) s =
     ((case op of Open fd bindOk host port sendTo \<Rightarrow> udp_socket s = -1 \<and> fd \<ge> -1 | _ \<Rightarrow> True) \<and>
      (case udp_do getaddr op s of None \<Rightarrow> True | Some s' \<Rightarrow> udp_orderly getaddr ops s'))"

definition udp_inv :: "udp \<Rightarrow> bool" where
  "udp_inv s \<longleftrightarrow> mset (udp_opened s) = mset (udp_closed s) + (if udp_socket s = -1 then {#} else {#udp_socket s#}) \<and>
     addrs_got s = addrs_freed s \<and> (joinable s \<longrightarrow> udp_socket s \<noteq> -1) \<and> \<not> terminated s"

text \<open>Only Internet addresses are multicast addresses, so the assertion holds.\<close>

lemma joinIfMulticast_returns: "\<exists>s'. joinIfMulticast a s = Some s' \<and> (s' = s \<or> s' = s\<lparr>joined := joined s @ [a]\<rparr>)"
  by (cases "sa_family a") (auto simp: joinIfMulticast_def isMulticastAddress_def joinMulticastGroup_def)

lemma udp_open_inv:
  assumes "udp_inv s" and "udp_socket s = -1" and "fd \<ge> -1"
  shows "\<exists>s'. udp_open getaddr fd bindOk host port sendTo s = Some s' \<and> udp_inv s'"
proof -
  let ?s = "s\<lparr>udp_host := host, udp_port := port\<rparr>"
  have closed: "mset (udp_opened s) = mset (udp_closed s)" "addrs_got s = addrs_freed s" "\<not> joinable s" "\<not> terminated s"
    using assms(1,2) by (simp_all add: udp_inv_def)
  define got where "got = (if host = [] then (case sendTo of None \<Rightarrow> None | Some (ip, p) \<Rightarrow> getaddr ip p) else getaddr host port)"
  show ?thesis
  proof (cases got)
    case None
    then show ?thesis using closed assms(2,3)
      by (auto simp: got_def udp_open_def openImpl_def resolveIpAddress_def storeSocket_def udp_inv_def split: if_splits option.splits)
  next
    case (Some a)
    define s3 where "s3 = (let s2 = storeSocket fd (?s\<lparr>addrs_got := addrs_got s + 1\<rparr>) in if host \<noteq> [] \<and> bindOk \<and> fd \<ge> 0 then startReceive s2 else s2)"
    obtain s4 where s4: "joinIfMulticast a s3 = Some s4" "s4 = s3 \<or> s4 = s3\<lparr>joined := joined s3 @ [a]\<rparr>" using joinIfMulticast_returns by blast
    have "udp_open getaddr fd bindOk host port sendTo s = Some (freeaddrinfo s4)"
      using Some s4(1) by (auto simp: got_def s3_def udp_open_def openImpl_def resolveIpAddress_def Let_def split: if_splits option.splits)
    moreover have "mset (udp_opened s3) = mset (udp_closed s3) + (if udp_socket s3 = -1 then {#} else {#udp_socket s3#}) \<and>
        addrs_got s3 = Suc (addrs_freed s3) \<and> (joinable s3 \<longrightarrow> udp_socket s3 \<noteq> -1) \<and> \<not> terminated s3"
      using closed assms(2,3) by (cases "fd = -1") (simp_all add: s3_def Let_def storeSocket_def startReceive_def)
    then have "udp_inv (freeaddrinfo s4)" using s4(2) by (elim disjE) (simp_all add: freeaddrinfo_def udp_inv_def)
    ultimately show ?thesis by blast
  qed
qed

lemma udp_close_inv: "udp_inv s \<Longrightarrow> udp_inv (closeImpl s)"
  by (auto simp: udp_inv_def closeImpl_def)

lemma udp_send_inv: "udp_inv s \<Longrightarrow> udp_inv (sendImpl_udp getaddr ok host port msg s)"
  by (auto simp: udp_inv_def sendImpl_udp_def resolveIpAddress_def freeaddrinfo_def split: option.splits)

lemma udp_run_inv: "udp_inv s \<Longrightarrow> udp_orderly getaddr ops s \<Longrightarrow> \<exists>s'. udp_run getaddr ops s = Some s' \<and> udp_inv s'"
proof (induction ops arbitrary: s)
  case (Cons op ops)
  have "\<exists>s1. udp_do getaddr op s = Some s1 \<and> udp_inv s1"
    using Cons.prems udp_open_inv [of s] udp_close_inv [of s] udp_send_inv [of s] by (cases op) auto
  then show ?case using Cons by auto
qed simp

text \<open>
  C34: When sockets are opened only while none is open, every sequence of opens, closes and sends runs through, with no
  failed assertion and no thread object overwritten: every socket that was opened has been closed once, except the
  one that is open, and every address list has been freed.
\<close>

theorem udp_sockets_balanced:
  assumes "udp_orderly getaddr ops udp_new"
  shows "\<exists>s. udp_run getaddr ops udp_new = Some s \<and> \<not> terminated s \<and> addrs_got s = addrs_freed s \<and>
    mset (udp_opened s) = mset (udp_closed s) + (if udp_socket s = -1 then {#} else {#udp_socket s#})"
proof -
  have "udp_inv udp_new" by (simp add: udp_inv_def udp_new_def)
  then obtain s where "udp_run getaddr ops udp_new = Some s" "udp_inv s" using udp_run_inv [OF _ assms] by blast
  then show ?thesis by (intro exI [of _ s]) (simp add: udp_inv_def)
qed

text \<open>A resolver that knows one address, for the witnesses.\<close>

definition one_host :: resolver where
  "one_host host port = (if host = ''239.255.0.1'' then Some \<lparr>sa_family = AF_INET, sa_bytes = [239, 255, 0, 1]\<rparr> else None)"

lemmas udp_eval = udp_new_def one_host_def udp_open_def openImpl_def resolveIpAddress_def storeSocket_def startReceive_def joinIfMulticast_def
  joinMulticastGroup_def freeaddrinfo_def closeImpl_def sendImpl_udp_def Let_def isMulticastAddress_def

theorem udp_sockets_balanced_witness:
  "\<exists>s. udp_run one_host [Open 3 True ''239.255.0.1'' 2237 None, Send True ''239.255.0.1'' 2237 ''x'', Close, Open 4 False [] 0 None] udp_new = Some s \<and>
     \<not> terminated s \<and> mset (udp_opened s) = mset (udp_closed s) + (if udp_socket s = -1 then {#} else {#udp_socket s#})"
proof -
  have "udp_orderly one_host [Open 3 True ''239.255.0.1'' 2237 None, Send True ''239.255.0.1'' 2237 ''x'', Close, Open 4 False [] 0 None] udp_new" by (simp add: udp_eval)
  from udp_sockets_balanced [OF this] show ?thesis by blast
qed

text \<open>Opening twice is not orderly: the first socket is never closed, and with a bound socket the program ends.\<close>

theorem udp_open_twice:
  "\<exists>s. udp_run one_host [Open 3 True ''239.255.0.1'' 2237 None, Open 4 True ''239.255.0.1'' 2237 None, Close] udp_new = Some s \<and>
     udp_opened s = [3, 4] \<and> udp_closed s = [4] \<and> terminated s"
proof -
  have "map_option (\<lambda>s. (udp_opened s, udp_closed s, terminated s))
    (udp_run one_host [Open 3 True ''239.255.0.1'' 2237 None, Open 4 True ''239.255.0.1'' 2237 None, Close] udp_new) = Some ([3, 4], [4], True)" by (simp add: udp_eval)
  then show ?thesis by auto
qed

subsection \<open>Multicast addresses\<close>

text \<open>The test of the range 224.0.0.0 to 239.255.255.255 is the test of the first four bits.\<close>

lemma multicast_range:
  fixes w :: u32
  shows "0xE0000000 \<le> w \<and> w \<le> 0xEFFFFFFF \<longleftrightarrow> drop_bit 28 w = 0xE"
proof -
  have "unat (drop_bit 28 w) = unat w div 2 ^ 28" unfolding unat_drop_bit_eq by (rule drop_bit_eq_div)
  moreover have "drop_bit 28 w = 0xE \<longleftrightarrow> unat (drop_bit 28 w) = 14" by (simp add: word_unat_eq_iff)
  moreover have "0xE0000000 \<le> w \<and> w \<le> 0xEFFFFFFF \<longleftrightarrow> 0xE0000000 \<le> unat w \<and> unat w \<le> 0xEFFFFFFF" by (simp add: word_le_nat_alt)
  ultimately show ?thesis by auto
qed

lemma multicast_first_byte: "drop_bit 28 (ntohl (a # b # c # d # rest)) = ucast (drop_bit 4 a)"
  by (rule bit_eqI) (auto simp: bit_simps dest: bit_imp_le_length)

theorem multicast_iff:
  "isMulticastAddress \<lparr>sa_family = AF_INET, sa_bytes = a # b # c # d # rest\<rparr> \<longleftrightarrow> drop_bit 4 a = 0xE"
proof -
  have "unat (drop_bit 4 a) < 2 ^ 32" using unsigned_less [of "drop_bit 4 a", where 'a = nat] by simp
  then have "ucast (drop_bit 4 a) = (0xE :: u32) \<longleftrightarrow> drop_bit 4 a = 0xE" by (simp add: word_unat_eq_iff unsigned_ucast_eq take_bit_nat_eq_self)
  then show ?thesis by (simp add: isMulticastAddress_def Let_def multicast_range multicast_first_byte del: ntohl.simps)
qed

subsection \<open>The datagrams of the reporter\<close>

text \<open>A reported record: time, callsign, mode, frequency and signal-to-noise ratio.\<close>

type_synonym udp_record = "tm \<times> string \<times> string \<times> u64 \<times> u8"

definition udp_add :: "('d json \<Rightarrow> string option) \<Rightarrow> resolver \<Rightarrow> udp_record \<Rightarrow> udp_reporter \<Rightarrow> udp_reporter" where
  "udp_add json_write getaddr = (\<lambda>(now, call, md, freq, snr). udp_addReceiveRecord json_write getaddr True now call md freq snr)"

definition recordMessage :: "udp_record \<Rightarrow> 'd json" where
  "recordMessage = (\<lambda>(now, call, md, freq, snr). callsignMessage now call md freq snr)"

text \<open>What a listener finds in a datagram: callsign, mode, frequency and signal-to-noise ratio.\<close>

definition listen :: "(string \<Rightarrow> 'd json option) \<Rightarrow> string \<Rightarrow> string option \<times> string option \<times> u64 option \<times> int" where
  "listen json_read msg =
     (let doc = json_read msg in (str_val (obj_get doc ''callsign''), str_val (obj_get doc ''mode''), uint_val (obj_get doc ''frequency_hz''), get_int (obj_get doc ''snr'')))"

lemma c_str_idem [simp]: "c_str (c_str str) = c_str str"
  by (simp add: c_str_def)

lemma listen_message:
  assumes "json_read msg = Some (callsignMessage now call md freq snr)"
  shows "listen json_read msg = (Some (c_str call), Some (c_str md), Some freq, sint snr)"
  using assms by (simp add: listen_def callsignMessage_def Let_def sint_widen)

text \<open>The reporter with an open socket whose address resolves.\<close>

definition udp_ready :: "resolver \<Rightarrow> udp_reporter \<Rightarrow> bool" where
  "udp_ready getaddr r \<longleftrightarrow> udp_socket (rep_udp r) \<noteq> -1 \<and> getaddr (rep_address r) (rep_port r) \<noteq> None"

lemma udp_add_step:
  assumes "udp_ready getaddr r" and "json_write (recordMessage rec) = Some msg" and "msg \<noteq> []"
  shows "udp_ready getaddr (udp_add json_write getaddr rec r) \<and>
    map snd (datagrams (rep_udp (udp_add json_write getaddr rec r))) = map snd (datagrams (rep_udp r)) @ [msg]"
  using assms by (cases rec) (auto simp: udp_ready_def udp_add_def udp_addReceiveRecord_def recordMessage_def sendImpl_udp_def resolveIpAddress_def freeaddrinfo_def)

lemma udp_add_all:
  assumes "udp_ready getaddr r" and "\<And>rec. rec \<in> set recs \<Longrightarrow> json_write (recordMessage rec) = Some (enc rec) \<and> enc rec \<noteq> []"
  shows "map snd (datagrams (rep_udp (fold (udp_add json_write getaddr) recs r))) = map snd (datagrams (rep_udp r)) @ map enc recs"
  using assms
proof (induction recs arbitrary: r)
  case (Cons rec recs)
  then show ?case using udp_add_step [OF Cons.prems(1), of json_write rec "enc rec"] by simp
qed simp

text \<open>
  C28: A reporter whose socket could be opened and whose address resolves sends one datagram per record, in order, and a
  listener that parses them finds the callsign, the mode, the frequency and the signal-to-noise ratio of each record,
  for all records that the JSON library can write.
\<close>

theorem udp_datagrams_round_trip:
  assumes "udp_reporter_new getaddr fd address port = Some r" and "getaddr address port = Some a" and "fd \<ge> 0"
    and "\<And>rec. rec \<in> set recs \<Longrightarrow> \<exists>msg. json_write (recordMessage rec) = Some msg \<and> msg \<noteq> [] \<and> json_read msg = Some (recordMessage rec)"
  shows "map (listen json_read \<circ> snd) (datagrams (rep_udp (fold (udp_add json_write getaddr) recs r))) =
    map (\<lambda>(now, call, md, freq, snr). (Some (c_str call), Some (c_str md), Some freq, sint snr)) recs"
proof -
  obtain enc where enc: "\<And>rec. rec \<in> set recs \<Longrightarrow> json_write (recordMessage rec) = Some (enc rec) \<and> enc rec \<noteq> [] \<and> json_read (enc rec) = Some (recordMessage rec)"
    using assms(4) by metis
  have r: "udp_ready getaddr r" "datagrams (rep_udp r) = []"
    using assms(1-3) joinIfMulticast_returns [of a "storeSocket fd (udp_new\<lparr>addrs_got := 1\<rparr>)"]
    by (auto simp: udp_ready_def udp_reporter_new_def udp_open_def openImpl_def resolveIpAddress_def storeSocket_def freeaddrinfo_def udp_new_def)
  have "map (listen json_read \<circ> snd) (datagrams (rep_udp (fold (udp_add json_write getaddr) recs r))) = map (listen json_read) (map enc recs)"
    using udp_add_all [OF r(1), of recs json_write enc] enc r(2) by (metis append_Nil list.map(1) map_map)
  also have "\<dots> = map (\<lambda>(now, call, md, freq, snr). (Some (c_str call), Some (c_str md), Some freq, sint snr)) recs"
    using enc by (auto simp: recordMessage_def intro!: listen_message)
  finally show ?thesis .
qed

text \<open>The witness: a library that writes a document as one character and reads that character as the document.\<close>

theorem udp_datagrams_round_trip_witness:
  "\<exists>r now. udp_reporter_new one_host 3 ''239.255.0.1'' 2237 = Some r \<and>
     map (listen (\<lambda>msg. Some (callsignMessage now ''K6AQ'' ''RADEV1'' 14236000 251 :: unit json)) \<circ> snd)
       (datagrams (rep_udp (fold (udp_add (\<lambda>doc :: unit json. Some ''x'') one_host) [(now, ''K6AQ'', ''RADEV1'', 14236000, 251)] r))) =
     [(Some ''K6AQ'', Some ''RADEV1'', Some 14236000, - 5)]"
proof -
  let ?now = "\<lparr>tm_year = 126, tm_mon = 0, tm_mday = 1, tm_hour = 0, tm_min = 0, tm_sec = 0\<rparr>"
  obtain r where r: "udp_reporter_new one_host 3 ''239.255.0.1'' 2237 = Some r"
    by (simp add: udp_reporter_new_def udp_eval)
  have "one_host ''239.255.0.1'' 2237 = Some \<lparr>sa_family = AF_INET, sa_bytes = [239, 255, 0, 1]\<rparr>" by (simp add: one_host_def)
  from udp_datagrams_round_trip [OF r this, of "[(?now, ''K6AQ'', ''RADEV1'', 14236000, 251)]" "\<lambda>doc :: unit json. Some ''x''"
      "\<lambda>msg. Some (callsignMessage ?now ''K6AQ'' ''RADEV1'' 14236000 251)"]
  show ?thesis using r by (intro exI [of _ r] exI [of _ ?now]) (simp add: recordMessage_def c_str_def)
qed

end
