(* ===== verification/Spec2Isabelle.thy ===== *)
theory Spec2Isabelle
  imports FIFO_Concurrency Link_Tap Minimal_Thread Timespec Psk_Decode Threaded_Timer Threaded_Object Socket_Io Csv_Reporter Tcp_Client Happy_Eyeballs Log_Format Log_Ring Udp_Reporter
begin

text \<open>
  \<^bold>\<open>Verification of the FreeDV backend\<close>

  The backend (\<^verbatim>\<open>src/src\<close>) is a set of C++ libraries for the FreeDV digital voice programs. It has three parts:
  an audio pipeline that turns speech into the RADE modem signal and back (\<^verbatim>\<open>pipeline\<close>), the reporters that tell
  others which stations are heard (\<^verbatim>\<open>reporting\<close>), and the threads, queues, timers and clients both rest on
  (\<^verbatim>\<open>util\<close>). Sound card callbacks and the two processing threads exchange samples through lock-free FIFOs; a
  processing thread pushes each block through a pipeline of steps; the last step of the transmit side queues an
  end-of-over signal that carries the callsign as LDPC-coded text, and the receive side decodes that text and
  hands the callsign to the reporters, which log it, send it as UDP datagrams or emit it over socket.io.

  \<^bold>\<open>Theories and the code they model\<close>

  Foundations.
  \<^item> \<open>FDV_Prelude\<close>: machine types, buffer copies, C division, ring indices, the named collections of facts.
  \<^item> \<open>Fpu\<close>: floating point as a record of operations; results about code with floating point hold for every
    choice of rounding unless they name \<open>real_fpu\<close>, the exact instance.
  \<^item> \<open>Transition_System\<close>, \<open>Reporter_Log\<close>, \<open>Sample_Blocks\<close>: runs of labelled steps, the shared contract of the
    reporters, and the cutting of a stream into blocks that the block loops are compared with.

  Queues and threads (\<^verbatim>\<open>util\<close>).
  \<^item> \<open>Generic_FIFO\<close>, \<open>FIFO_Concurrency\<close>: \<^verbatim>\<open>GenericFIFO.h\<close>. The record \<open>fifo\<close> has the fields of the class, cursors are
    the packed 64-bit words. Run one at a time the operations refine a bounded queue (locale \<open>bounded_queue\<close>, its
    interpretation \<open>fq\<close> is what all other components use); interleaved access by access, what is read is a prefix
    of what was written, also across \<open>reset\<close>.
  \<^item> \<open>Threaded_Timer\<close>: \<^verbatim>\<open>ThreadedTimer.cpp\<close>. \<open>Threaded_Object\<close>: \<^verbatim>\<open>ThreadedObject.cpp\<close>. Each is a labelled step
    relation whose steps are the critical sections of the code; the invariants are interpretations of
    \<open>stable_system\<close>.
  \<^item> \<open>Timespec\<close>: \<^verbatim>\<open>timespec.c\<close>, all operations, and the timed wait of \<^verbatim>\<open>Semaphore.cpp\<close>.
  \<^item> \<open>Tcp_Client\<close>, \<open>Happy_Eyeballs\<close>: \<^verbatim>\<open>TcpConnectionHandler.cpp\<close> without TLS. The first has the receive thread with its flow
    control, the dispatch task, disconnecting and the send loop, as a step relation: no byte is dropped or reordered,
    but bytes can outlive their connection. The second has the connection attempt, as an executable run of a
    schedule: sockets and address lists are given back, and every address is tried when both lookups are done in time.
  \<^item> \<open>Log_Format\<close>, \<open>Log_Ring\<close>: \<^verbatim>\<open>ulog_async.cpp\<close>. The first shows that formatting a message later, from copies of its
    arguments, gives what \<open>printf\<close> gives at once; the format is a list of \<open>item\<close>s there, so the specification does not
    share the parser of the code. The second has the lock-free ring between any number of threads and the consumer.

  Text in the end-of-over signal (\<^verbatim>\<open>pipeline\<close>).
  \<^item> \<open>HRA_Matrix\<close>, \<open>Ldpc_Encode\<close>, \<open>Ldpc_Decode\<close>, \<open>Ldpc_Convergence\<close>: \<^verbatim>\<open>HRA_56_56.h\<close>, \<^verbatim>\<open>ldpc_encode.cpp\<close>,
    \<^verbatim>\<open>ldpc_decode.cpp\<close>: the encoder yields codewords and only those pass the decoder's test; with the right signs
    one iteration of belief propagation finds the codeword.
  \<^item> \<open>Rade_Codec\<close>, \<open>Rade_Text\<close>: \<^verbatim>\<open>rade_text.cpp\<close>: character set, CRC, packing, interleaver, and the object. A
    callsign sent over a noise-free channel arrives as it was sent, and whatever arrives, only a text with a valid
    codeword and CRC reaches the application.

  The pipeline.
  \<^item> \<open>Audio_Pipeline\<close>: \<^verbatim>\<open>ResampleStep.cpp\<close>, \<^verbatim>\<open>AudioPipeline.cpp\<close>, with the contract of a step as the locale
    \<open>step_contract\<close>. \<open>Simple_Steps\<close>, \<open>Block_Steps\<close>, \<open>Link_Tap\<close>: the steps Mute, LevelAdjust, ToneInterferer, Agc,
    RNNoise, BandwidthExpand, Link and Tap. The block steps share the locale \<open>block_step\<close>: cutting the input into
    calls is not observable. \<open>Step_Dispatch\<close>: EitherOr and the virtual calls; every pipeline of these steps returns.
  \<^item> \<open>Rade_Tx\<close>, \<open>Rade_Rx\<close>: \<^verbatim>\<open>RADETransmitStep.cpp\<close>, \<^verbatim>\<open>RADEReceiveStep.cpp\<close>.
  \<^item> \<open>Thread_Steps\<close>, \<open>Minimal_Thread\<close>: \<^verbatim>\<open>MinimalTxRxThread.cpp\<close> and \<^verbatim>\<open>MinimalRealTimeHelper.cpp\<close>; the pipelines the
    threads build, their processing loops (locales \<open>pipe_returns\<close> and \<open>pipe_contract\<close>), and that an over always
    ends with its end-of-over signal.

  Reporting.
  \<^item> \<open>Psk_Reporter\<close>, \<open>Psk_Decode\<close>: \<^verbatim>\<open>pskreporter.cpp\<close>: the datagram byte by byte, the network calls and their error
    paths, a reference decoder for the message format, and the background thread.
  \<^item> \<open>Freedv_Reporter\<close>, \<open>Socket_Io\<close>: \<^verbatim>\<open>FreeDVReporter.cpp\<close> and the message layer of \<^verbatim>\<open>SocketIoClient.cpp\<close>.
  \<^item> \<open>Csv_Reporter\<close>: \<^verbatim>\<open>CsvReporter.cpp\<close>, with a reference reader for CSV files.
  \<^item> \<open>Udp_Reporter\<close>: \<^verbatim>\<open>UdpHandler.cpp\<close> and \<^verbatim>\<open>UdpReporter.cpp\<close>: the socket and its resources, and the datagrams.

  \<^bold>\<open>Conventions\<close>

  A class is a record with the members of the class; a method is a function on it that returns its results and
  the new record. A buffer given by pointer and length is a list. A failed assertion, a store outside a buffer and
  a loop that does not end are \<open>None\<close>; loops whose end is not obvious are \<open>partial_function\<close>s in the option monad,
  so no fuel is used anywhere, and the theorems say that the result is \<open>Some\<close>. Integers have their width where the
  code can wrap (FIFO cursors, samples, CRC, sequence numbers, length fields); sizes and counts that cannot come
  near their limits are \<open>int\<close> or \<open>nat\<close>, and each theory says so where it does. A log call is not modelled unless a
  property is about what it reports. Concurrency is interleaving of atomic steps under sequential consistency; a
  condition variable only decides when a step happens, so it does not appear.

  Code that is not in the repository is a parameter, with what the code relies on as hypotheses: the sample rate
  converter (\<open>src_api\<close>), the RADE modem, LPCNet and FARGAN (\<open>tx_api\<close>, \<open>rx_api\<close>, \<open>rade_dims\<close>), RNNoise, the gain
  control, the bandwidth extension, JSON reading and writing, the C library's formatting of one conversion
  (\<open>printf_api\<close>), and the operating system's answers (\<open>net\<close>, \<open>resolver\<close>, the results of socket calls and timed waits). The witness of a theorem with such hypotheses instantiates them with concrete functions.

  \<^bold>\<open>What is not modelled\<close>

  TLS: the handshake and the encrypted variants of reading and writing in \<^verbatim>\<open>TcpConnectionHandler.cpp\<close> are calls to OpenSSL
  and the settings passed to it. The set-up of the websocket client in \<^verbatim>\<open>SocketIoClient.cpp\<close> consists of callbacks
  registered with websocketpp, which is vendored third-party code, like yyjson, ulog and the WebRTC gain control. The
  parent objects of \<open>ThreadedObject\<close>, which no class uses, \<open>EventHandler\<close>, which is a list of callbacks, the variants for
  Windows and macOS, the operating system interface, the helpers for Windows COM, and the tests are left out.
  Timing is left out except for the order of timers and the deadlines of \<open>Semaphore\<close>; so is the memory model below
  sequential consistency.

  \<^bold>\<open>Flaws the development shows\<close>

  Some theorems state behaviour the code does not intend: \<open>tcp_stale_bytes_after_reconnect\<close>, \<open>tcp_receiver_starves\<close> and
  \<open>send_spins_on_select_error\<close> (\<open>Tcp_Client\<close>), \<open>connect_misses_late_addresses\<close>, \<open>connect_misses_racing_addresses\<close> and
  \<open>cancelled_connect_reconnects\<close> (\<open>Happy_Eyeballs\<close>), \<open>stop_loses_record\<close> (\<open>Log_Ring\<close>), \<open>udp_open_twice\<close> (\<open>Udp_Reporter\<close>),
  \<open>rx_output_overflow\<close> (\<open>Rade_Rx\<close>) and \<open>tap_report_race\<close> (\<open>Link_Tap\<close>).
\<close>

end
